theory Spec2Isabelle
  imports Complex_Main "HOL-Library.Word"
begin

section \<open>Data model\<close>

text \<open>
  The kernel of \<^verbatim>\<open>cpublocksse.cpp\<close> keeps the field in quadrant layout: for each
  generation eight flat arrays \<^verbatim>\<open>r00, r01, r10, r11, i00, i01, i10, i11\<close> of
  \<^verbatim>\<open>(tile_width * tile_height) / 4\<close> floats. Floats are read as real numbers (exact
  arithmetic); an array is a list, an index into it a natural number. Reading or writing
  outside an array is undefined behaviour in the source; here it is the error value
  \<open>OutOfBounds\<close>. An integer division by zero is \<open>DivisionByZero\<close>, a failed
  \<^verbatim>\<open>assert\<close> is \<open>AssertionFailed\<close>, and a loop that never leaves is \<open>Diverges\<close>.
\<close>

datatype error = OutOfBounds | DivisionByZero | AssertionFailed | Diverges

type_synonym plane = "real list"

record planes =
  r00 :: plane
  r01 :: plane
  r10 :: plane
  r11 :: plane
  i00 :: plane
  i01 :: plane
  i10 :: plane
  i11 :: plane

datatype quad = Q00 | Q01 | Q10 | Q11

fun get_re :: "quad \<Rightarrow> planes \<Rightarrow> plane" where
  "get_re Q00 p = r00 p"
| "get_re Q01 p = r01 p"
| "get_re Q10 p = r10 p"
| "get_re Q11 p = r11 p"

fun get_im :: "quad \<Rightarrow> planes \<Rightarrow> plane" where
  "get_im Q00 p = i00 p"
| "get_im Q01 p = i01 p"
| "get_im Q10 p = i10 p"
| "get_im Q11 p = i11 p"

fun set_quad :: "quad \<Rightarrow> plane \<Rightarrow> plane \<Rightarrow> planes \<Rightarrow> planes" where
  "set_quad Q00 r i p = p\<lparr>r00 := r, i00 := i\<rparr>"
| "set_quad Q01 r i p = p\<lparr>r01 := r, i01 := i\<rparr>"
| "set_quad Q10 r i p = p\<lparr>r10 := r, i10 := i\<rparr>"
| "set_quad Q11 r i p = p\<lparr>r11 := r, i11 := i\<rparr>"

definition bind_res :: "error + 'a \<Rightarrow> ('a \<Rightarrow> error + 'b) \<Rightarrow> error + 'b" where
  "bind_res m f = (case m of Inl e \<Rightarrow> Inl e | Inr x \<Rightarrow> f x)"

section \<open>Elementary rotation passes\<close>

text \<open>
  The scalar loop body of \<^verbatim>\<open>update_shifty_sse\<close> and \<^verbatim>\<open>update_shiftx_sse\<close>
  (lines 55-62 and 103-110): the four new values are computed from the old ones, then
  stored.
\<close>

type_synonym quadruple = "plane \<times> plane \<times> plane \<times> plane"

definition rot_scalar :: "real \<Rightarrow> real \<Rightarrow> nat \<Rightarrow> nat \<Rightarrow> quadruple \<Rightarrow> quadruple" where
  "rot_scalar a b idx1 idx2 = (\<lambda>(r1, i1, r2, i2).
     let next_r1 = a * r1 ! idx1 - b * i2 ! idx2;
         next_i1 = a * i1 ! idx1 + b * r2 ! idx2;
         next_r2 = a * r2 ! idx2 - b * i1 ! idx1;
         next_i2 = a * i2 ! idx2 + b * r1 ! idx1
     in (r1[idx1 := next_r1], i1[idx1 := next_i1], r2[idx2 := next_r2], i2[idx2 := next_i2]))"

text \<open>
  The vector loop body (lines 41-52 and 77-100): four adjacent lanes are loaded from each
  array, the four products and sums are formed lane by lane, and four lanes are stored.
  Alignment of the loads is a matter of memory layout and is not modelled.
\<close>

definition load_ps :: "plane \<Rightarrow> nat \<Rightarrow> real list" where
  "load_ps xs idx = map (\<lambda>l. xs ! (idx + l)) [0..<4]"

definition store_ps :: "plane \<Rightarrow> nat \<Rightarrow> real list \<Rightarrow> plane" where
  "store_ps xs idx q = fold (\<lambda>l ys. ys[idx + l := q ! l]) [0..<4] xs"

definition rot_vector :: "real \<Rightarrow> real \<Rightarrow> nat \<Rightarrow> nat \<Rightarrow> quadruple \<Rightarrow> quadruple" where
  "rot_vector a b idx1 idx2 = (\<lambda>(r1, i1, r2, i2).
     let r1q = load_ps r1 idx1;
         i1q = load_ps i1 idx1;
         r2q = load_ps r2 idx2;
         i2q = load_ps i2 idx2;
         next_r1q = map2 (-) (map (\<lambda>x. x * a) r1q) (map (\<lambda>x. x * b) i2q);
         next_i1q = map2 (+) (map (\<lambda>x. x * a) i1q) (map (\<lambda>x. x * b) r2q);
         next_r2q = map2 (-) (map (\<lambda>x. x * a) r2q) (map (\<lambda>x. x * b) i1q);
         next_i2q = map2 (+) (map (\<lambda>x. x * a) i2q) (map (\<lambda>x. x * b) r1q)
     in (store_ps r1 idx1 next_r1q, store_ps i1 idx1 next_i1q,
         store_ps r2 idx2 next_r2q, store_ps i2 idx2 next_i2q))"

text \<open>
  One row of a pass: \<open>n\<close> pairs starting at \<open>idx1\<close> and \<open>idx2\<close>. The vector loop runs
  while \<^verbatim>\<open>j < n - n % 4\<close> in steps of four, the scalar loop takes the remaining
  \<^verbatim>\<open>n % 4\<close> pairs.
\<close>

definition rot_row :: "real \<Rightarrow> real \<Rightarrow> nat \<Rightarrow> nat \<Rightarrow> nat \<Rightarrow> quadruple \<Rightarrow> quadruple" where
  "rot_row a b n idx1 idx2 P =
     (let P' = fold (\<lambda>q. rot_vector a b (idx1 + 4 * q) (idx2 + 4 * q)) [0..<(n - n mod 4) div 4] P
      in fold (\<lambda>j. rot_scalar a b (idx1 + j) (idx2 + j)) [n - n mod 4..<n] P')"

text \<open>
  The indices a pass touches: rows \<open>0..<rows\<close>, in each row \<open>n\<close> consecutive cells of
  the first pair of arrays from \<open>i * stride\<close> and of the second pair from
  \<open>i * stride + shift\<close>. The largest index of each kind decides whether every access is
  inside the arrays.
\<close>

definition pass_in_bounds :: "nat \<Rightarrow> nat \<Rightarrow> nat \<Rightarrow> nat \<Rightarrow> quadruple \<Rightarrow> bool" where
  "pass_in_bounds stride n rows shift = (\<lambda>(r1, i1, r2, i2).
     rows = 0 \<or> n = 0 \<or>
     ((rows - 1) * stride + n \<le> length r1 \<and> (rows - 1) * stride + n \<le> length i1 \<and>
      (rows - 1) * stride + shift + n \<le> length r2 \<and>
      (rows - 1) * stride + shift + n \<le> length i2))"

text \<open>
  \<^verbatim>\<open>update_shifty_sse<offset_y>\<close> (lines 30-65). The loop bound
  \<^verbatim>\<open>height - offset_y\<close> is unsigned: for \<open>height < offset_y\<close> it wraps around to a
  value near \<open>2^64\<close>; the loop then leaves every array, or, where a row touches no
  cell, overflows its counter \<^verbatim>\<open>int i\<close>. Both are undefined behaviour, and this case
  is \<open>OutOfBounds\<close>.
\<close>

definition update_shifty_sse ::
  "nat \<Rightarrow> nat \<Rightarrow> nat \<Rightarrow> nat \<Rightarrow> real \<Rightarrow> real \<Rightarrow> quadruple \<Rightarrow> error + quadruple" where
  "update_shifty_sse offset_y stride width height a b P =
     (if offset_y \<le> height \<and> pass_in_bounds stride width (height - offset_y) (offset_y * stride) P
      then Inr (fold (\<lambda>i. rot_row a b width (i * stride) ((i + offset_y) * stride))
                  [0..<height - offset_y] P)
      else Inl OutOfBounds)"

text \<open>
  \<^verbatim>\<open>update_shiftx_sse<offset_x>\<close> (lines 67-113); the bound \<^verbatim>\<open>width - offset_x\<close>
  is unsigned in the same way.
\<close>

definition update_shiftx_sse ::
  "nat \<Rightarrow> nat \<Rightarrow> nat \<Rightarrow> nat \<Rightarrow> real \<Rightarrow> real \<Rightarrow> quadruple \<Rightarrow> error + quadruple" where
  "update_shiftx_sse offset_x stride width height a b P =
     (if offset_x \<le> width \<and> pass_in_bounds stride (width - offset_x) height offset_x P
      then Inr (fold (\<lambda>i. rot_row a b (width - offset_x) (i * stride) (i * stride + offset_x))
                  [0..<height] P)
      else Inl OutOfBounds)"

section \<open>The full step\<close>

text \<open>
  \<^verbatim>\<open>full_step_sse\<close> (lines 115-140) is a fixed sequence of sixteen calls. Each call is
  written down as data: the kind of pass, its template offset, and the quadrants whose
  arrays are passed as \<^verbatim>\<open>(r1, i1)\<close> and \<^verbatim>\<open>(r2, i2)\<close>.
\<close>

datatype pass = ShiftY nat quad quad | ShiftX nat quad quad

definition step1 :: "pass list" where
  "step1 = [ShiftY 0 Q00 Q10, ShiftY 1 Q11 Q01]"

definition step2 :: "pass list" where
  "step2 = [ShiftX 0 Q00 Q01, ShiftX 1 Q11 Q10]"

definition step3 :: "pass list" where
  "step3 = [ShiftY 0 Q01 Q11, ShiftY 1 Q10 Q00]"

definition step4 :: "pass list" where
  "step4 = [ShiftX 0 Q10 Q11, ShiftX 1 Q01 Q00]"

definition full_step_substeps :: "pass list list" where
  "full_step_substeps = [step1, step2, step3, step4, step4, step3, step2, step1]"

definition full_step_passes :: "pass list" where
  "full_step_passes = concat full_step_substeps"

fun apply_pass :: "nat \<Rightarrow> nat \<Rightarrow> nat \<Rightarrow> real \<Rightarrow> real \<Rightarrow> pass \<Rightarrow> planes \<Rightarrow> error + planes" where
  "apply_pass stride width height a b (ShiftY offset_y q1 q2) p =
     bind_res (update_shifty_sse offset_y stride width height a b
                 (get_re q1 p, get_im q1 p, get_re q2 p, get_im q2 p))
       (\<lambda>(r1, i1, r2, i2). Inr (set_quad q2 r2 i2 (set_quad q1 r1 i1 p)))"
| "apply_pass stride width height a b (ShiftX offset_x q1 q2) p =
     bind_res (update_shiftx_sse offset_x stride width height a b
                 (get_re q1 p, get_im q1 p, get_re q2 p, get_im q2 p))
       (\<lambda>(r1, i1, r2, i2). Inr (set_quad q2 r2 i2 (set_quad q1 r1 i1 p)))"

fun run_passes :: "nat \<Rightarrow> nat \<Rightarrow> nat \<Rightarrow> real \<Rightarrow> real \<Rightarrow> pass list \<Rightarrow> planes \<Rightarrow> error + planes" where
  "run_passes stride width height a b [] p = Inr p"
| "run_passes stride width height a b (x # xs) p =
     bind_res (apply_pass stride width height a b x p) (run_passes stride width height a b xs)"

definition full_step_sse :: "nat \<Rightarrow> nat \<Rightarrow> nat \<Rightarrow> real \<Rightarrow> real \<Rightarrow> planes \<Rightarrow> error + planes" where
  "full_step_sse stride width height a b p = run_passes stride width height a b full_step_passes p"


section \<open>Block tiling\<close>

text \<open>
  Sizes are \<^verbatim>\<open>size_t\<close>: 64-bit words, on which \<open>+\<close>, \<open>-\<close> and \<open>*\<close> wrap around.
\<close>

type_synonym size_t = "64 word"

definition sizeof_float :: size_t where
  "sizeof_float = 4"

text \<open>
  Modelled from the spec: \<^verbatim>\<open>memcpy2D\<close> is declared in \<^verbatim>\<open>common.h\<close>, which is not
  among the sources. The spec has a block "copied into a scratch buffer, processed, and
  copied back"; the call sites pass a destination with its stride, a source with its
  stride, a row width and a row count, strides and width in bytes. It copies
  \<open>height\<close> rows of \<open>width\<close> bytes; row \<open>i\<close> starts \<open>i * dstride\<close> bytes into
  the destination and \<open>i * sstride\<close> bytes into the source. Every byte count at the call
  sites is a multiple of \<^verbatim>\<open>sizeof(float)\<close>, so the copy is modelled on floats. The
  pointers \<^verbatim>\<open>&r00[read_idx]\<close> are an array with an offset into it.
\<close>

definition rows_in_bounds :: "nat \<Rightarrow> nat \<Rightarrow> nat \<Rightarrow> nat \<Rightarrow> nat \<Rightarrow> bool" where
  "rows_in_bounds len off pitch width height =
     (height = 0 \<or> width = 0 \<or> off + (height - 1) * pitch + width \<le> len)"

definition memcpy2D ::
  "plane \<Rightarrow> nat \<Rightarrow> size_t \<Rightarrow> plane \<Rightarrow> nat \<Rightarrow> size_t \<Rightarrow> size_t \<Rightarrow> size_t \<Rightarrow> error + plane" where
  "memcpy2D dst dst_off dstride src src_off sstride width height =
     (let dp = unat dstride div 4; sp = unat sstride div 4; w = unat width div 4; h = unat height
      in if rows_in_bounds (length dst) dst_off dp w h \<and> rows_in_bounds (length src) src_off sp w h
         then Inr (fold (\<lambda>i. fold (\<lambda>j d. d[dst_off + i * dp + j := src ! (src_off + i * sp + j)]) [0..<w])
                     [0..<h] dst)
         else Inl OutOfBounds)"

text \<open>
  Every copy of the source is made eight times, once per array, in the order
  \<^verbatim>\<open>r00, i00, r01, i01, r10, i10, r11, i11\<close> with the same offsets, strides and sizes.
\<close>

definition memcpy2D_planes ::
  "planes \<Rightarrow> size_t \<Rightarrow> size_t \<Rightarrow> planes \<Rightarrow> size_t \<Rightarrow> size_t \<Rightarrow> size_t \<Rightarrow> size_t \<Rightarrow> error + planes" where
  "memcpy2D_planes dst dst_idx dstride src src_idx sstride width height =
     bind_res (memcpy2D (r00 dst) (unat dst_idx) dstride (r00 src) (unat src_idx) sstride width height) (\<lambda>d_r00.
     bind_res (memcpy2D (i00 dst) (unat dst_idx) dstride (i00 src) (unat src_idx) sstride width height) (\<lambda>d_i00.
     bind_res (memcpy2D (r01 dst) (unat dst_idx) dstride (r01 src) (unat src_idx) sstride width height) (\<lambda>d_r01.
     bind_res (memcpy2D (i01 dst) (unat dst_idx) dstride (i01 src) (unat src_idx) sstride width height) (\<lambda>d_i01.
     bind_res (memcpy2D (r10 dst) (unat dst_idx) dstride (r10 src) (unat src_idx) sstride width height) (\<lambda>d_r10.
     bind_res (memcpy2D (i10 dst) (unat dst_idx) dstride (i10 src) (unat src_idx) sstride width height) (\<lambda>d_i10.
     bind_res (memcpy2D (r11 dst) (unat dst_idx) dstride (r11 src) (unat src_idx) sstride width height) (\<lambda>d_r11.
     bind_res (memcpy2D (i11 dst) (unat dst_idx) dstride (i11 src) (unat src_idx) sstride width height) (\<lambda>d_i11.
     Inr \<lparr>r00 = d_r00, r01 = d_r01, r10 = d_r10, r11 = d_r11,
          i00 = d_i00, i01 = d_i01, i10 = d_i10, i11 = d_i11\<rparr>))))))))"

text \<open>
  \<^verbatim>\<open>process_sides_sse\<close> (lines 142-204): the first and the last block of a band. It
  returns the next-generation arrays and the block buffers.
\<close>

definition process_sides_sse ::
  "size_t \<Rightarrow> size_t \<Rightarrow> size_t \<Rightarrow> size_t \<Rightarrow> size_t \<Rightarrow> size_t \<Rightarrow> size_t \<Rightarrow> size_t \<Rightarrow> real \<Rightarrow> real \<Rightarrow>
   planes \<Rightarrow> planes \<Rightarrow> planes \<Rightarrow> error + planes \<times> planes" where
  "process_sides_sse read_y read_height write_offset write_height block_width block_height
       tile_width halo_x a b cur nxt blk =
     (let block_stride = (block_width div 2) * sizeof_float;
          matrix_stride = (tile_width div 2) * sizeof_float;
          read_idx = (read_y div 2) * (tile_width div 2);
          read_width = (block_width div 2) * sizeof_float
      in
      bind_res (memcpy2D_planes blk 0 block_stride cur read_idx matrix_stride read_width (read_height div 2)) (\<lambda>blk.
      bind_res (full_step_sse (unat (block_width div 2)) (unat (block_width div 2))
                  (unat (read_height div 2)) a b blk) (\<lambda>blk.
      let block_read_idx = (write_offset div 2) * (block_width div 2);
          write_idx = (read_y div 2 + write_offset div 2) * (tile_width div 2);
          write_width = ((block_width - halo_x) div 2) * sizeof_float
      in
      bind_res (memcpy2D_planes nxt write_idx matrix_stride blk block_read_idx block_stride
                  write_width (write_height div 2)) (\<lambda>nxt.
      if block_width - 2 * halo_x = 0 then Inl DivisionByZero else
      let block_start = ((tile_width - block_width) div (block_width - 2 * halo_x) + 1)
                          * (block_width - 2 * halo_x);
          read_idx = (read_y div 2) * (tile_width div 2) + block_start div 2;
          read_width = (tile_width div 2 - block_start div 2) * sizeof_float
      in
      bind_res (memcpy2D_planes blk 0 block_stride cur read_idx matrix_stride read_width (read_height div 2)) (\<lambda>blk.
      bind_res (full_step_sse (unat (block_width div 2)) (unat (tile_width div 2 - block_start div 2))
                  (unat (read_height div 2)) a b blk) (\<lambda>blk.
      let block_read_idx = (write_offset div 2) * (block_width div 2) + halo_x div 2;
          write_idx = (read_y div 2 + write_offset div 2) * (tile_width div 2) + (block_start + halo_x) div 2;
          write_width = (tile_width div 2 - block_start div 2 - halo_x div 2) * sizeof_float
      in
      bind_res (memcpy2D_planes nxt write_idx matrix_stride blk block_read_idx block_stride
                  write_width (write_height div 2)) (\<lambda>nxt.
      Inr (nxt, blk))))))))"

text \<open>
  A loop \<^verbatim>\<open>for (block_start = first; block_start < limit; block_start += step)\<close> over
  \<^verbatim>\<open>size_t\<close>. The counter wraps around, so the loop may run forever; the first
  argument bounds the number of iterations, and running out of it is \<open>Diverges\<close>. The
  value of the counter on leaving is returned with the state, since
  \<^verbatim>\<open>run_kernel_on_halo\<close> uses it after its loop.
\<close>

fun for_blocks ::
  "nat \<Rightarrow> size_t \<Rightarrow> size_t \<Rightarrow> size_t \<Rightarrow> (size_t \<Rightarrow> 's \<Rightarrow> error + 's) \<Rightarrow> 's \<Rightarrow> error + size_t \<times> 's" where
  "for_blocks 0 block_start limit step body s =
     (if block_start < limit then Inl Diverges else Inr (block_start, s))"
| "for_blocks (Suc n) block_start limit step body s =
     (if block_start < limit
      then bind_res (body block_start s) (for_blocks n (block_start + step) limit step body)
      else Inr (block_start, s))"

text \<open>
  A counter of 64 bits takes at most \<open>2^64\<close> values, and the exit test reads nothing but
  the counter: a loop that has not left after \<open>2^64\<close> iterations never leaves.
\<close>

definition loop_fuel :: nat where
  "loop_fuel = 2 ^ 64"

text \<open>
  The block buffers of \<^verbatim>\<open>process_band_sse\<close> are local arrays of
  \<^verbatim>\<open>(block_height / 2) * (block_width / 2)\<close> floats. They are not initialised in the
  source; here they start as zeros.
\<close>

definition block_buffers :: "size_t \<Rightarrow> size_t \<Rightarrow> planes" where
  "block_buffers block_width block_height =
     (let z = replicate (unat ((block_height div 2) * (block_width div 2))) 0
      in \<lparr>r00 = z, r01 = z, r10 = z, r11 = z, i00 = z, i01 = z, i10 = z, i11 = z\<rparr>)"

text \<open>\<^verbatim>\<open>process_band_sse\<close> (lines 206-288); it returns the next-generation arrays.\<close>

definition process_band_sse ::
  "size_t \<Rightarrow> size_t \<Rightarrow> size_t \<Rightarrow> size_t \<Rightarrow> size_t \<Rightarrow> size_t \<Rightarrow> size_t \<Rightarrow> size_t \<Rightarrow> real \<Rightarrow> real \<Rightarrow>
   planes \<Rightarrow> planes \<Rightarrow> int \<Rightarrow> int \<Rightarrow> error + planes" where
  "process_band_sse read_y read_height write_offset write_height block_width block_height
       tile_width halo_x a b cur nxt inner sides =
     (let blk = block_buffers block_width block_height;
          block_stride = (block_width div 2) * sizeof_float;
          matrix_stride = (tile_width div 2) * sizeof_float
      in
      if tile_width \<le> block_width then
        if sides \<noteq> 0 then
          let read_idx = (read_y div 2) * (tile_width div 2);
              read_width = (tile_width div 2) * sizeof_float
          in
          bind_res (memcpy2D_planes blk 0 block_stride cur read_idx matrix_stride read_width (read_height div 2)) (\<lambda>blk.
          bind_res (full_step_sse (unat (block_width div 2)) (unat (tile_width div 2))
                      (unat (read_height div 2)) a b blk) (\<lambda>blk.
          let block_read_idx = (write_offset div 2) * (block_width div 2);
              write_idx = (read_y div 2 + write_offset div 2) * (tile_width div 2);
              write_width = read_width
          in
          memcpy2D_planes nxt write_idx matrix_stride blk block_read_idx block_stride
            write_width (write_height div 2)))
        else Inr nxt
      else
        bind_res (if sides \<noteq> 0
                  then process_sides_sse read_y read_height write_offset write_height block_width
                         block_height tile_width halo_x a b cur nxt blk
                  else Inr (nxt, blk)) (\<lambda>(nxt, blk).
        if inner \<noteq> 0 then
          let read_width = (block_width div 2) * sizeof_float;
              block_read_idx = (write_offset div 2) * (block_width div 2) + halo_x div 2;
              write_width = ((block_width - 2 * halo_x) div 2) * sizeof_float
          in
          bind_res (for_blocks loop_fuel (block_width - 2 * halo_x) (tile_width - block_width)
                      (block_width - 2 * halo_x)
                      (\<lambda>block_start (nxt, blk).
                         let read_idx = (read_y div 2) * (tile_width div 2) + block_start div 2 in
                         bind_res (memcpy2D_planes blk 0 block_stride cur read_idx matrix_stride
                                     read_width (read_height div 2)) (\<lambda>blk.
                         bind_res (full_step_sse (unat (block_width div 2)) (unat (block_width div 2))
                                     (unat (read_height div 2)) a b blk) (\<lambda>blk.
                         let write_idx = (read_y div 2 + write_offset div 2) * (tile_width div 2)
                                           + (block_start + halo_x) div 2 in
                         bind_res (memcpy2D_planes nxt write_idx matrix_stride blk block_read_idx
                                     block_stride write_width (write_height div 2)) (\<lambda>nxt.
                         Inr (nxt, blk)))))
                      (nxt, blk)) (\<lambda>(block_start, nxt, blk). Inr nxt)
        else Inr nxt))"


section \<open>The kernel object\<close>

text \<open>
  The fields of \<^verbatim>\<open>CPUBlockSSEKernel\<close>. Its class declaration (\<^verbatim>\<open>cpublocksse.h\<close>)
  is not among the sources; the sibling kernels of \<^verbatim>\<open>kernel.h\<close> declare
  \<^verbatim>\<open>halo_x, halo_y, tile_width, tile_height\<close> as \<^verbatim>\<open>size_t\<close>, \<^verbatim>\<open>sense\<close> as
  \<^verbatim>\<open>int\<close>, and \<^verbatim>\<open>block_width, block_height\<close> as the constants
  \<^verbatim>\<open>BLOCK_WIDTH, BLOCK_HEIGHT\<close>, and so does this model. The two-element pointer arrays
  \<^verbatim>\<open>r00[2], ..., i11[2]\<close> are the two generations \<open>gen0\<close> and \<open>gen1\<close>; the
  coefficients \<^verbatim>\<open>a\<close> and \<^verbatim>\<open>b\<close> are \<open>coeff_a\<close> and \<open>coeff_b\<close>.
\<close>

record kernel =
  coeff_a :: real
  coeff_b :: real
  tile_width :: size_t
  tile_height :: size_t
  halo_x :: size_t
  halo_y :: size_t
  sense :: int
  gen0 :: planes
  gen1 :: planes
  start_x :: int
  inner_end_x :: int
  start_y :: int
  inner_start_y :: int
  inner_end_y :: int

definition BLOCK_WIDTH :: size_t where
  "BLOCK_WIDTH = 128"

definition BLOCK_HEIGHT :: size_t where
  "BLOCK_HEIGHT = 128"

text \<open>\<^verbatim>\<open>r00[s], ..., i11[s]\<close> for an index \<open>s\<close> of 0 or 1, and the store into them.\<close>

definition gen :: "kernel \<Rightarrow> int \<Rightarrow> planes" where
  "gen k s = (if s = 0 then gen0 k else gen1 k)"

definition set_gen :: "int \<Rightarrow> planes \<Rightarrow> kernel \<Rightarrow> kernel" where
  "set_gen s p k = (if s = 0 then k\<lparr>gen0 := p\<rparr> else k\<lparr>gen1 := p\<rparr>)"

text \<open>
  The constructor (lines 290-334). Both assertions abort on an odd dimension. The sixteen
  arrays are allocated with \<^verbatim>\<open>(tile_width * tile_height) / 4\<close> floats each and not
  initialised; here they start as zeros. The loops then fill generation 0 from the
  row-major field \<^verbatim>\<open>p_real, p_imag\<close>.
\<close>

definition pack_quadrant :: "plane \<Rightarrow> nat \<Rightarrow> nat \<Rightarrow> nat \<Rightarrow> nat \<Rightarrow> plane \<Rightarrow> plane" where
  "pack_quadrant p tw th di dj q =
     fold (\<lambda>i. fold (\<lambda>j q. q[i * tw div 2 + j := p ! ((2 * i + di) * tw + 2 * j + dj)]) [0..<tw div 2])
       [0..<th div 2] q"

definition CPUBlockSSEKernel ::
  "plane \<Rightarrow> plane \<Rightarrow> real \<Rightarrow> real \<Rightarrow> int \<Rightarrow> int \<Rightarrow> int \<Rightarrow> int \<Rightarrow> error + kernel" where
  "CPUBlockSSEKernel p_real p_imag a b tw th hx hy =
     (let tile_w = (word_of_int tw :: size_t); tile_h = (word_of_int th :: size_t) in
      if tile_w mod 2 \<noteq> 0 \<or> tile_h mod 2 \<noteq> 0 then Inl AssertionFailed
      else
        let n = unat ((tile_w * tile_h) div 4);
            w = unat tile_w; h = unat tile_h;
            z = replicate n 0;
            zs = \<lparr>r00 = z, r01 = z, r10 = z, r11 = z, i00 = z, i01 = z, i10 = z, i11 = z\<rparr>
        in
        if h div 2 = 0 \<or> w div 2 = 0 \<or>
           ((h div 2 - 1) * w div 2 + w div 2 \<le> n \<and> (h - 1) * w + w \<le> length p_real
             \<and> (h - 1) * w + w \<le> length p_imag)
        then Inr \<lparr>coeff_a = a, coeff_b = b, tile_width = tile_w, tile_height = tile_h,
                  halo_x = word_of_int hx, halo_y = word_of_int hy, sense = 0,
                  gen0 = \<lparr>r00 = pack_quadrant p_real w h 0 0 z, r01 = pack_quadrant p_real w h 0 1 z,
                           r10 = pack_quadrant p_real w h 1 0 z, r11 = pack_quadrant p_real w h 1 1 z,
                           i00 = pack_quadrant p_imag w h 0 0 z, i01 = pack_quadrant p_imag w h 0 1 z,
                           i10 = pack_quadrant p_imag w h 1 0 z, i11 = pack_quadrant p_imag w h 1 1 z\<rparr>,
                  gen1 = zs,
                  start_x = 0, inner_end_x = 0, start_y = 0, inner_start_y = 0, inner_end_y = 0\<rparr>
        else Inl OutOfBounds)"

text \<open>
  \<^verbatim>\<open>run_kernel_on_halo\<close> (lines 357-381) and \<^verbatim>\<open>run_kernel\<close> (lines 383-389), for
  given block dimensions. Each call of \<^verbatim>\<open>process_band_sse\<close> reads the arrays of index
  \<^verbatim>\<open>sense\<close> and writes those of index \<^verbatim>\<open>1 - sense\<close>.
\<close>

definition band ::
  "size_t \<Rightarrow> size_t \<Rightarrow> kernel \<Rightarrow> size_t \<Rightarrow> size_t \<Rightarrow> size_t \<Rightarrow> size_t \<Rightarrow> int \<Rightarrow> int \<Rightarrow> error + kernel" where
  "band block_width block_height k read_y read_height write_offset write_height inner sides =
     bind_res (process_band_sse read_y read_height write_offset write_height block_width block_height
                 (tile_width k) (halo_x k) (coeff_a k) (coeff_b k)
                 (gen k (sense k)) (gen k (1 - sense k)) inner sides)
       (\<lambda>nxt. Inr (set_gen (1 - sense k) nxt k))"

definition run_kernel_on_halo_blocks :: "size_t \<Rightarrow> size_t \<Rightarrow> kernel \<Rightarrow> error + kernel" where
  "run_kernel_on_halo_blocks block_width block_height k =
     (if tile_height k \<le> block_height then
        band block_width block_height k 0 (tile_height k) 0 (tile_height k) 1 1
      else
        bind_res (for_blocks loop_fuel (block_height - 2 * halo_y k) (tile_height k - block_height)
                    (block_height - 2 * halo_y k)
                    (\<lambda>block_start k. band block_width block_height k block_start block_height (halo_y k)
                                        (block_height - 2 * halo_y k) 0 1)
                    k) (\<lambda>(block_start, k).
        bind_res (band block_width block_height k 0 block_height 0 (block_height - halo_y k) 1 1) (\<lambda>k.
        band block_width block_height k block_start (tile_height k - block_start) (halo_y k)
          (tile_height k - block_start - halo_y k) 1 1)))"

definition run_kernel_blocks :: "size_t \<Rightarrow> size_t \<Rightarrow> kernel \<Rightarrow> error + kernel" where
  "run_kernel_blocks block_width block_height k =
     bind_res (for_blocks loop_fuel (block_height - 2 * halo_y k) (tile_height k - block_height)
                 (block_height - 2 * halo_y k)
                 (\<lambda>block_start k. band block_width block_height k block_start block_height (halo_y k)
                                     (block_height - 2 * halo_y k) 1 0)
                 k) (\<lambda>(block_start, k).
     Inr (k\<lparr>sense := 1 - sense k\<rparr>))"

definition run_kernel_on_halo :: "kernel \<Rightarrow> error + kernel" where
  "run_kernel_on_halo = run_kernel_on_halo_blocks BLOCK_WIDTH BLOCK_HEIGHT"

definition run_kernel :: "kernel \<Rightarrow> error + kernel" where
  "run_kernel = run_kernel_blocks BLOCK_WIDTH BLOCK_HEIGHT"



section \<open>Properties of the rotation passes\<close>

lemma bind_res_Inr [simp]: "bind_res (Inr x) f = f x"
  by (simp add: bind_res_def)

lemma bind_res_Inl [simp]: "bind_res (Inl e) f = Inl e"
  by (simp add: bind_res_def)

subsection \<open>The vector loop does what the scalar loop does\<close>

lemma upt4: "[0..<4] = [0, Suc 0, 2, 3]"
  by (simp add: upt_rec)

lemma rot_vector_scalar:
  "rot_vector a b idx1 idx2 P = fold (\<lambda>l. rot_scalar a b (idx1 + l) (idx2 + l)) [0..<4] P"
  by (cases P) (simp add: rot_vector_def rot_scalar_def load_ps_def store_ps_def upt4 Let_def mult.commute)

lemma fold_blocks4:
  "fold (\<lambda>q. fold (\<lambda>l. f (4 * q + l)) [0..<4]) [0..<m] = fold f [0..<4 * m]"
proof (induction m)
  case 0
  show ?case by simp
next
  case (Suc m)
  have "map (\<lambda>l. 4 * m + l) [0..<4] = [4 * m..<4 * m + 4]"
    using map_add_upt[of "4 * m" 4] by (simp add: add.commute)
  then have "[0..<4 * m + 4] = [0..<4 * m] @ map (\<lambda>l. 4 * m + l) [0..<4]"
    using upt_add_eq_append[of 0 "4 * m" 4] by simp
  then have "fold f [0..<4 * m + 4] = (fold f (map (\<lambda>l. 4 * m + l) [0..<4])) \<circ> (fold f [0..<4 * m])"
    by (simp only: fold_append)
  moreover have "4 * Suc m = 4 * m + 4" by simp
  moreover have "[0..<Suc m] = [0..<m] @ [m]" by simp
  ultimately show ?case using Suc by (simp only: fold_append fold_map fold_simps comp_def id_apply)
qed

lemma rot_row_scalar:
  "rot_row a b n idx1 idx2 P = fold (\<lambda>j. rot_scalar a b (idx1 + j) (idx2 + j)) [0..<n] P"
proof -
  let ?f = "\<lambda>j. rot_scalar a b (idx1 + j) (idx2 + j)"
  let ?m = "(n - n mod 4) div 4"
  have m: "4 * ?m = n - n mod 4" by presburger
  have "fold (\<lambda>q. rot_vector a b (idx1 + 4 * q) (idx2 + 4 * q)) [0..<?m] = fold (\<lambda>q. fold (\<lambda>l. ?f (4 * q + l)) [0..<4]) [0..<?m]"
    by (rule arg_cong[where f="\<lambda>g. fold g [0..<?m]"]) (auto simp: rot_vector_scalar fun_eq_iff add.assoc)
  also have "\<dots> = fold ?f [0..<n - n mod 4]" using fold_blocks4[of ?f ?m] m by simp
  finally have 1: "fold (\<lambda>q. rot_vector a b (idx1 + 4 * q) (idx2 + 4 * q)) [0..<?m] = fold ?f [0..<n - n mod 4]" .
  have "[0..<n] = [0..<n - n mod 4] @ [n - n mod 4..<n]"
    using upt_add_eq_append[of 0 "n - n mod 4" "n mod 4"] by simp
  then have "fold ?f [0..<n] = fold ?f [n - n mod 4..<n] \<circ> fold ?f [0..<n - n mod 4]"
    by (simp only: fold_append)
  then show ?thesis unfolding rot_row_def Let_def 1 by simp
qed

subsection \<open>A pass as a map over its cells\<close>

text \<open>
  A pass whose first cells are the set \<open>S\<close> and whose second cells lie \<open>shift\<close> further:
  every cell of \<open>S\<close> and its partner are rotated from the old values, every other cell
  keeps its value.
\<close>

definition rot_spec :: "real \<Rightarrow> real \<Rightarrow> nat set \<Rightarrow> nat \<Rightarrow> quadruple \<Rightarrow> quadruple" where
  "rot_spec a b S shift = (\<lambda>(r1, i1, r2, i2).
     (map (\<lambda>k. if k \<in> S then a * r1 ! k - b * i2 ! (k + shift) else r1 ! k) [0..<length r1],
      map (\<lambda>k. if k \<in> S then a * i1 ! k + b * r2 ! (k + shift) else i1 ! k) [0..<length i1],
      map (\<lambda>k. if shift \<le> k \<and> k - shift \<in> S then a * r2 ! k - b * i1 ! (k - shift) else r2 ! k) [0..<length r2],
      map (\<lambda>k. if shift \<le> k \<and> k - shift \<in> S then a * i2 ! k + b * r1 ! (k - shift) else i2 ! k) [0..<length i2]))"

definition cells_ok :: "nat set \<Rightarrow> nat \<Rightarrow> quadruple \<Rightarrow> bool" where
  "cells_ok S shift = (\<lambda>(r1, i1, r2, i2). \<forall>k\<in>S. k < length r1 \<and> k < length i1 \<and> k + shift < length r2 \<and> k + shift < length i2)"

lemma fold_rot_scalar:
  "distinct xs \<Longrightarrow> cells_ok (set xs) shift P \<Longrightarrow>
   fold (\<lambda>x. rot_scalar a b x (x + shift)) xs P = rot_spec a b (set xs) shift P"
proof (induction xs arbitrary: P)
  case Nil
  obtain r1 i1 r2 i2 where P: "P = (r1, i1, r2, i2)" by (cases P) auto
  show ?case by (simp add: P rot_spec_def map_nth)
next
  case (Cons x xs)
  obtain r1 i1 r2 i2 where P: "P = (r1, i1, r2, i2)" by (cases P) auto
  let ?P1 = "rot_scalar a b x (x + shift) P"
  have ok1: "cells_ok (set xs) shift ?P1"
    using Cons.prems(2) by (simp add: P cells_ok_def rot_scalar_def Let_def)
  have x: "x \<notin> set xs" "distinct xs" using Cons.prems(1) by auto
  have xb: "x < length r1" "x < length i1" "x + shift < length r2" "x + shift < length i2"
    using Cons.prems(2) by (auto simp: P cells_ok_def)
  have "fold (\<lambda>x. rot_scalar a b x (x + shift)) (x # xs) P = rot_spec a b (set xs) shift ?P1"
    using Cons.IH[OF x(2) ok1] by simp
  also have "\<dots> = rot_spec a b (set (x # xs)) shift P"
    using x(1) xb
    by (auto simp: P rot_spec_def rot_scalar_def Let_def nth_list_update intro!: nth_equalityI)
  finally show ?case .
qed

definition pass_cells :: "nat \<Rightarrow> nat \<Rightarrow> nat \<Rightarrow> nat list" where
  "pass_cells stride n rows = concat (map (\<lambda>i. map (\<lambda>j. i * stride + j) [0..<n]) [0..<rows])"

lemma pass_cells_Suc:
  "pass_cells stride n (Suc rows) = pass_cells stride n rows @ map (\<lambda>j. rows * stride + j) [0..<n]"
  by (simp add: pass_cells_def)

lemma set_pass_cells:
  "set (pass_cells stride n rows) = {k. \<exists>i<rows. \<exists>j<n. k = i * stride + j}"
proof (induction rows)
  case 0
  show ?case by (simp add: pass_cells_def)
next
  case (Suc rows)
  have "set (map (\<lambda>j. rows * stride + j) [0..<n]) = {k. \<exists>j<n. k = rows * stride + j}"
    by (auto simp: image_iff simp del: image_add_atLeastLessThan)
  then show ?case
    unfolding pass_cells_Suc set_append Suc by (auto simp: less_Suc_eq)
qed

lemma pass_cells_below:
  assumes "n \<le> stride" "k \<in> set (pass_cells stride n rows)"
  shows "k < rows * stride"
proof -
  obtain i j where ij: "i < rows" "j < n" "k = i * stride + j"
    using assms(2) by (auto simp: set_pass_cells)
  have "Suc i * stride \<le> rows * stride"
    using ij(1) by (intro mult_le_mono1) simp
  then show ?thesis using ij assms(1) by simp
qed

lemma distinct_pass_cells:
  assumes "n \<le> stride"
  shows "distinct (pass_cells stride n rows)"
proof (induction rows)
  case 0
  show ?case by (simp add: pass_cells_def)
next
  case (Suc rows)
  have "distinct (map (\<lambda>j. rows * stride + j) [0..<n])"
    by (simp add: distinct_map inj_on_def)
  moreover have "set (pass_cells stride n rows) \<inter> set (map (\<lambda>j. rows * stride + j) [0..<n]) = {}"
    using pass_cells_below[OF assms, of _ rows] by (auto simp del: image_add_atLeastLessThan)
  ultimately show ?case using Suc by (simp add: pass_cells_Suc del: set_map)
qed

lemma fold_concat_list: "fold f (concat xss) = fold (fold f) xss"
  by (induction xss) auto

lemma fold_rows_cells:
  "fold (\<lambda>i. rot_row a b n (i * stride) (i * stride + shift)) [0..<rows] P =
   fold (\<lambda>x. rot_scalar a b x (x + shift)) (pass_cells stride n rows) P"
proof -
  have "(\<lambda>i. rot_row a b n (i * stride) (i * stride + shift)) =
        (\<lambda>i. fold (\<lambda>x. rot_scalar a b x (x + shift)) (map (\<lambda>j. i * stride + j) [0..<n]))"
    by (auto simp: fun_eq_iff rot_row_scalar fold_map comp_def add.assoc add.commute add.left_commute)
  then show ?thesis
    by (simp add: pass_cells_def fold_concat_list fold_map comp_def)
qed

lemma pass_in_bounds_cells:
  "pass_in_bounds stride n rows shift P \<longleftrightarrow> cells_ok (set (pass_cells stride n rows)) shift P"
proof -
  obtain r1 i1 r2 i2 where P: "P = (r1, i1, r2, i2)" by (cases P) auto
  show ?thesis
  proof (cases "rows = 0 \<or> n = 0")
    case True
    then show ?thesis by (auto simp: P pass_in_bounds_def cells_ok_def set_pass_cells)
  next
    case False
    then have pos: "0 < rows" "0 < n" by auto
    have le: "i * stride + j < (rows - 1) * stride + n" if "i < rows" "j < n" for i j
    proof -
      have "i \<le> rows - 1" using that by simp
      then have "i * stride \<le> (rows - 1) * stride" by (intro mult_le_mono1)
      then show ?thesis using that by linarith
    qed
    have top: "(rows - 1) * stride + (n - 1) \<in> set (pass_cells stride n rows)"
      unfolding set_pass_cells using pos
      by (intro CollectI exI[of _ "rows - 1"] exI[of _ "n - 1"] conjI) simp_all
    show ?thesis
    proof
      assume "pass_in_bounds stride n rows shift P"
      then show "cells_ok (set (pass_cells stride n rows)) shift P"
        using False le by (fastforce simp: P pass_in_bounds_def cells_ok_def set_pass_cells)
    next
      assume "cells_ok (set (pass_cells stride n rows)) shift P"
      then have "(rows - 1) * stride + (n - 1) < length r1 \<and> (rows - 1) * stride + (n - 1) < length i1
         \<and> (rows - 1) * stride + (n - 1) + shift < length r2 \<and> (rows - 1) * stride + (n - 1) + shift < length i2"
        using top by (auto simp: P cells_ok_def)
      then show "pass_in_bounds stride n rows shift P"
        using pos by (auto simp: P pass_in_bounds_def)
    qed
  qed
qed

lemma pass_rot_spec:
  assumes "n \<le> stride" "pass_in_bounds stride n rows shift P"
  shows "fold (\<lambda>i. rot_row a b n (i * stride) (i * stride + shift)) [0..<rows] P =
         rot_spec a b (set (pass_cells stride n rows)) shift P"
  using assms by (simp add: fold_rows_cells fold_rot_scalar distinct_pass_cells pass_in_bounds_cells)

lemma update_shifty_sse_spec:
  assumes "width \<le> stride"
  shows "update_shifty_sse offset_y stride width height a b P =
     (if offset_y \<le> height \<and> pass_in_bounds stride width (height - offset_y) (offset_y * stride) P
      then Inr (rot_spec a b (set (pass_cells stride width (height - offset_y))) (offset_y * stride) P)
      else Inl OutOfBounds)"
  using pass_rot_spec[OF assms, of "height - offset_y" "offset_y * stride" P a b]
  by (simp add: update_shifty_sse_def add_mult_distrib)

lemma update_shiftx_sse_spec:
  assumes "width \<le> stride"
  shows "update_shiftx_sse offset_x stride width height a b P =
     (if offset_x \<le> width \<and> pass_in_bounds stride (width - offset_x) height offset_x P
      then Inr (rot_spec a b (set (pass_cells stride (width - offset_x) height)) offset_x P)
      else Inl OutOfBounds)"
proof -
  have "width - offset_x \<le> stride" using assms by simp
  from pass_rot_spec[OF this, of height offset_x P a b]
  show ?thesis by (simp add: update_shiftx_sse_def)
qed

subsection \<open>The rotation formula\<close>

text \<open>
  The rotation of the spec for the pair of sites at \<open>idx1\<close> and \<open>idx2\<close>:
  \<open>r1' = a*r1 - b*i2\<close>, \<open>i1' = a*i1 + b*r2\<close>, \<open>r2' = a*r2 - b*i1\<close>,
  \<open>i2' = a*i2 + b*r1\<close>, every right-hand side read from the old arrays.
\<close>

definition rotated :: "real \<Rightarrow> real \<Rightarrow> quadruple \<Rightarrow> quadruple \<Rightarrow> nat \<Rightarrow> nat \<Rightarrow> bool" where
  "rotated a b P P' idx1 idx2 = (case P of (r1, i1, r2, i2) \<Rightarrow> case P' of (r1', i1', r2', i2') \<Rightarrow>
     r1' ! idx1 = a * r1 ! idx1 - b * i2 ! idx2 \<and> i1' ! idx1 = a * i1 ! idx1 + b * r2 ! idx2 \<and>
     r2' ! idx2 = a * r2 ! idx2 - b * i1 ! idx1 \<and> i2' ! idx2 = a * i2 ! idx2 + b * r1 ! idx1)"

definition untouched :: "quadruple \<Rightarrow> quadruple \<Rightarrow> nat \<Rightarrow> nat \<Rightarrow> bool" where
  "untouched P P' k1 k2 = (case P of (r1, i1, r2, i2) \<Rightarrow> case P' of (r1', i1', r2', i2') \<Rightarrow>
     (k1 < length r1 \<longrightarrow> r1' ! k1 = r1 ! k1) \<and> (k1 < length i1 \<longrightarrow> i1' ! k1 = i1 ! k1) \<and>
     (k2 < length r2 \<longrightarrow> r2' ! k2 = r2 ! k2) \<and> (k2 < length i2 \<longrightarrow> i2' ! k2 = i2 ! k2))"

definition same_lengths :: "quadruple \<Rightarrow> quadruple \<Rightarrow> bool" where
  "same_lengths P P' = (case P of (r1, i1, r2, i2) \<Rightarrow> case P' of (r1', i1', r2', i2') \<Rightarrow>
     length r1' = length r1 \<and> length i1' = length i1 \<and> length r2' = length r2 \<and> length i2' = length i2)"

lemma rot_spec_rotated:
  assumes "cells_ok S shift P" "k \<in> S"
  shows "rotated a b P (rot_spec a b S shift P) k (k + shift)"
proof -
  obtain r1 i1 r2 i2 where P: "P = (r1, i1, r2, i2)" by (cases P) auto
  show ?thesis using assms by (auto simp: P rotated_def rot_spec_def cells_ok_def)
qed

lemma rot_spec_untouched:
  assumes "k1 \<notin> S" "\<And>k. k \<in> S \<Longrightarrow> k2 \<noteq> k + shift"
  shows "untouched P (rot_spec a b S shift P) k1 k2"
proof -
  obtain r1 i1 r2 i2 where P: "P = (r1, i1, r2, i2)" by (cases P) auto
  have "\<not> (shift \<le> k2 \<and> k2 - shift \<in> S)" using assms(2)[of "k2 - shift"] by auto
  then show ?thesis using assms(1) by (auto simp: P untouched_def rot_spec_def)
qed

lemma rot_spec_same_lengths: "same_lengths P (rot_spec a b S shift P)"
  by (cases P) (auto simp: same_lengths_def rot_spec_def)

text \<open>
  Claim C3. Let a vertical or horizontal shift pass return normally on rows that do not
  overlap (\<open>width \<le> stride\<close>, as at every call site). Then for each pair of sites the
  pass couples, the four new values are the rotation of the four old values; a cell that
  belongs to no pair keeps its value; and no array changes its length. A paired cell holds
  one rotation of the old values, so it has been updated exactly once.
\<close>

theorem rotation_pass_pairs:
  assumes "width \<le> stride"
  shows "(update_shifty_sse offset_y stride width height a b P = Inr P' \<longrightarrow>
            same_lengths P P' \<and>
            (\<forall>i<height - offset_y. \<forall>j<width.
               rotated a b P P' (i * stride + j) ((i + offset_y) * stride + j)) \<and>
            (\<forall>k1 k2. (\<forall>i<height - offset_y. \<forall>j<width.
                         k1 \<noteq> i * stride + j \<and> k2 \<noteq> (i + offset_y) * stride + j)
               \<longrightarrow> untouched P P' k1 k2)) \<and>
         (update_shiftx_sse offset_x stride width height a b P = Inr P'' \<longrightarrow>
            same_lengths P P'' \<and>
            (\<forall>i<height. \<forall>j<width - offset_x.
               rotated a b P P'' (i * stride + j) (i * stride + offset_x + j)) \<and>
            (\<forall>k1 k2. (\<forall>i<height. \<forall>j<width - offset_x.
                         k1 \<noteq> i * stride + j \<and> k2 \<noteq> i * stride + offset_x + j)
               \<longrightarrow> untouched P P'' k1 k2))"
proof (intro conjI impI)
  assume e: "update_shifty_sse offset_y stride width height a b P = Inr P'"
  let ?S = "set (pass_cells stride width (height - offset_y))"
  from e have ok: "cells_ok ?S (offset_y * stride) P"
    and P': "P' = rot_spec a b ?S (offset_y * stride) P"
    by (auto simp: update_shifty_sse_spec[OF assms] pass_in_bounds_cells split: if_splits)
  show "same_lengths P P'" unfolding P' by (rule rot_spec_same_lengths)
  show "\<forall>i<height - offset_y. \<forall>j<width. rotated a b P P' (i * stride + j) ((i + offset_y) * stride + j)"
  proof (intro allI impI)
    fix i j assume "i < height - offset_y" "j < width"
    then have "i * stride + j \<in> ?S" by (auto simp: set_pass_cells)
    from rot_spec_rotated[OF ok this, of a b]
    show "rotated a b P P' (i * stride + j) ((i + offset_y) * stride + j)"
      by (simp add: P' add_mult_distrib add.assoc add.commute add.left_commute)
  qed
  show "\<forall>k1 k2. (\<forall>i<height - offset_y. \<forall>j<width.
                         k1 \<noteq> i * stride + j \<and> k2 \<noteq> (i + offset_y) * stride + j)
               \<longrightarrow> untouched P P' k1 k2"
  proof (intro allI impI)
    fix k1 k2
    assume n: "\<forall>i<height - offset_y. \<forall>j<width. k1 \<noteq> i * stride + j \<and> k2 \<noteq> (i + offset_y) * stride + j"
    have 1: "k1 \<notin> ?S" using n by (auto simp: set_pass_cells)
    have 2: "k2 \<noteq> k + offset_y * stride" if kS: "k \<in> ?S" for k
    proof -
      obtain i j where ij: "i < height - offset_y" "j < width" "k = i * stride + j"
        using kS by (auto simp: set_pass_cells)
      from n ij(1,2) have "k2 \<noteq> (i + offset_y) * stride + j" by blast
      then show ?thesis by (simp add: ij(3) add_mult_distrib)
    qed
    show "untouched P P' k1 k2" unfolding P' using 1 2 by (rule rot_spec_untouched)
  qed
next
  assume e: "update_shiftx_sse offset_x stride width height a b P = Inr P''"
  let ?S = "set (pass_cells stride (width - offset_x) height)"
  from e have ok: "cells_ok ?S offset_x P"
    and P': "P'' = rot_spec a b ?S offset_x P"
    by (auto simp: update_shiftx_sse_spec[OF assms] pass_in_bounds_cells split: if_splits)
  show "same_lengths P P''" unfolding P' by (rule rot_spec_same_lengths)
  show "\<forall>i<height. \<forall>j<width - offset_x. rotated a b P P'' (i * stride + j) (i * stride + offset_x + j)"
  proof (intro allI impI)
    fix i j assume "i < height" "j < width - offset_x"
    then have "i * stride + j \<in> ?S" by (auto simp: set_pass_cells)
    from rot_spec_rotated[OF ok this, of a b]
    show "rotated a b P P'' (i * stride + j) (i * stride + offset_x + j)"
      by (simp add: P' add.assoc add.commute add.left_commute)
  qed
  show "\<forall>k1 k2. (\<forall>i<height. \<forall>j<width - offset_x.
                         k1 \<noteq> i * stride + j \<and> k2 \<noteq> i * stride + offset_x + j)
               \<longrightarrow> untouched P P'' k1 k2"
  proof (intro allI impI)
    fix k1 k2
    assume n: "\<forall>i<height. \<forall>j<width - offset_x. k1 \<noteq> i * stride + j \<and> k2 \<noteq> i * stride + offset_x + j"
    have 1: "k1 \<notin> ?S" using n by (auto simp: set_pass_cells)
    have 2: "k2 \<noteq> k + offset_x" if kS: "k \<in> ?S" for k
    proof -
      obtain i j where ij: "i < height" "j < width - offset_x" "k = i * stride + j"
        using kS by (auto simp: set_pass_cells)
      from n ij(1,2) have "k2 \<noteq> i * stride + offset_x + j" by blast
      then show ?thesis by (simp add: ij(3))
    qed
    show "untouched P P'' k1 k2" unfolding P' using 1 2 by (rule rot_spec_untouched)
  qed
qed

lemma rot_spec_cells_ok: "cells_ok S shift (rot_spec a b S shift P) = cells_ok S shift P"
  by (cases P) (auto simp: cells_ok_def rot_spec_def)

lemma pass_in_bounds_rot_spec:
  "pass_in_bounds stride n rows shift (rot_spec a b S shift' P) = pass_in_bounds stride n rows shift P"
  by (cases P) (auto simp: pass_in_bounds_def rot_spec_def)

lemma rot_spec_inverse:
  assumes "a\<^sup>2 + b\<^sup>2 = 1" "cells_ok S shift P"
  shows "rot_spec a (- b) S shift (rot_spec a b S shift P) = P"
proof -
  obtain r1 i1 r2 i2 where P: "P = (r1, i1, r2, i2)" by (cases P) auto
  have ab: "a * (a * x) + b * (b * x) = x" for x
  proof -
    have "a * (a * x) + b * (b * x) = (a\<^sup>2 + b\<^sup>2) * x" by (simp add: power2_eq_square algebra_simps)
    then show ?thesis using assms(1) by simp
  qed
  have ok: "\<And>k. k \<in> S \<Longrightarrow> k < length r1 \<and> k < length i1 \<and> k + shift < length r2 \<and> k + shift < length i2"
    using assms(2) by (auto simp: P cells_ok_def)
  define r1' where "r1' = map (\<lambda>k. if k \<in> S then a * r1 ! k - b * i2 ! (k + shift) else r1 ! k) [0..<length r1]"
  define i1' where "i1' = map (\<lambda>k. if k \<in> S then a * i1 ! k + b * r2 ! (k + shift) else i1 ! k) [0..<length i1]"
  define r2' where "r2' = map (\<lambda>k. if shift \<le> k \<and> k - shift \<in> S then a * r2 ! k - b * i1 ! (k - shift) else r2 ! k) [0..<length r2]"
  define i2' where "i2' = map (\<lambda>k. if shift \<le> k \<and> k - shift \<in> S then a * i2 ! k + b * r1 ! (k - shift) else i2 ! k) [0..<length i2]"
  have len: "length r1' = length r1" "length i1' = length i1" "length r2' = length r2" "length i2' = length i2"
    by (simp_all add: r1'_def i1'_def r2'_def i2'_def)
  have n1: "k < length r1 \<Longrightarrow> r1' ! k = (if k \<in> S then a * r1 ! k - b * i2 ! (k + shift) else r1 ! k)" for k
    by (simp add: r1'_def)
  have n2: "k < length i1 \<Longrightarrow> i1' ! k = (if k \<in> S then a * i1 ! k + b * r2 ! (k + shift) else i1 ! k)" for k
    by (simp add: i1'_def)
  have n3: "k < length r2 \<Longrightarrow> r2' ! k = (if shift \<le> k \<and> k - shift \<in> S then a * r2 ! k - b * i1 ! (k - shift) else r2 ! k)" for k
    by (simp add: r2'_def)
  have n4: "k < length i2 \<Longrightarrow> i2' ! k = (if shift \<le> k \<and> k - shift \<in> S then a * i2 ! k + b * r1 ! (k - shift) else i2 ! k)" for k
    by (simp add: i2'_def)
  have 1: "rot_spec a b S shift P = (r1', i1', r2', i2')"
    by (simp add: P rot_spec_def r1'_def i1'_def r2'_def i2'_def)
  have e1: "map (\<lambda>k. if k \<in> S then a * r1' ! k - (- b) * i2' ! (k + shift) else r1' ! k) [0..<length r1'] = r1"
    by (rule nth_equalityI) (auto simp: len n1 n4 ok algebra_simps ab)
  have e2: "map (\<lambda>k. if k \<in> S then a * i1' ! k + (- b) * r2' ! (k + shift) else i1' ! k) [0..<length i1'] = i1"
    by (rule nth_equalityI) (auto simp: len n2 n3 ok algebra_simps ab)
  have e3: "map (\<lambda>k. if shift \<le> k \<and> k - shift \<in> S then a * r2' ! k - (- b) * i1' ! (k - shift) else r2' ! k) [0..<length r2'] = r2"
    by (rule nth_equalityI) (auto simp: len n2 n3 ok algebra_simps ab)
  have e4: "map (\<lambda>k. if shift \<le> k \<and> k - shift \<in> S then a * i2' ! k + (- b) * r1' ! (k - shift) else i2' ! k) [0..<length i2'] = i2"
    by (rule nth_equalityI) (auto simp: len n1 n4 ok algebra_simps ab)
  show ?thesis unfolding 1 by (simp only: rot_spec_def prod.case e1 e2 e3 e4 P)
qed


text \<open>
  Claim C8. For coefficients with \<open>a\<^sup>2 + b\<^sup>2 = 1\<close>, a pass with \<open>(a, b)\<close> followed by
  the same pass with \<open>(a, - b)\<close> returns the arrays it started from, for the vertical and
  for the horizontal pass, whenever the pass stays inside the arrays.
\<close>

theorem rotation_pass_inverse:
  assumes "a\<^sup>2 + b\<^sup>2 = 1" "width \<le> stride"
  shows "(offset_y \<le> height \<and> pass_in_bounds stride width (height - offset_y) (offset_y * stride) P \<longrightarrow>
            bind_res (update_shifty_sse offset_y stride width height a b P)
              (update_shifty_sse offset_y stride width height a (- b)) = Inr P) \<and>
         (offset_x \<le> width \<and> pass_in_bounds stride (width - offset_x) height offset_x P \<longrightarrow>
            bind_res (update_shiftx_sse offset_x stride width height a b P)
              (update_shiftx_sse offset_x stride width height a (- b)) = Inr P)"
  using assms
  by (simp add: update_shifty_sse_spec update_shiftx_sse_spec pass_in_bounds_rot_spec
      rot_spec_inverse pass_in_bounds_cells [symmetric])

text \<open>A sample of four arrays of two rows and two columns.\<close>

definition P0 :: quadruple where
  "P0 = ([5, 10, 15, 20], [0, 5, 0, 5], [10, 0, 10, 0], [5, 5, 10, 10])"

theorem rotation_pass_inverse_witness:
  "(3/5 :: real)\<^sup>2 + (4/5)\<^sup>2 = 1 \<and> (2::nat) \<le> 2 \<and> (1::nat) \<le> 2 \<and>
   pass_in_bounds 2 2 (2 - 1) (1 * 2) P0 \<and> pass_in_bounds 2 (2 - 1) 2 1 P0 \<and>
   bind_res (update_shifty_sse 1 2 2 2 (3/5) (4/5) P0) (update_shifty_sse 1 2 2 2 (3/5) (- (4/5))) = Inr P0 \<and>
   bind_res (update_shiftx_sse 1 2 2 2 (3/5) (4/5) P0) (update_shiftx_sse 1 2 2 2 (3/5) (- (4/5))) = Inr P0"
proof -
  have ab: "(3/5 :: real)\<^sup>2 + (4/5)\<^sup>2 = 1" by (simp add: power2_eq_square)
  have w: "(2::nat) \<le> 2" by simp
  have by1: "pass_in_bounds 2 2 (2 - 1) (1 * 2) P0" by (simp add: pass_in_bounds_def P0_def)
  have bx1: "pass_in_bounds 2 (2 - 1) 2 1 P0" by (simp add: pass_in_bounds_def P0_def)
  from rotation_pass_inverse[OF ab w, of 1 2 P0 1] by1 bx1 ab show ?thesis by simp
qed

lemma fold_upt_numeral:
  "fold f [i..<numeral k] s = (if i < numeral k then fold f [Suc i..<numeral k] (f i s) else s)"
  by (simp add: upt_rec[of i])

lemma fold_upt_Suc0:
  "fold f [i..<Suc 0] s = (if i = 0 then f 0 s else s)"
  by (cases i) simp_all

theorem rotation_pass_pairs_witness:
  "(2::nat) \<le> 2 \<and>
   update_shifty_sse 1 2 2 2 (3/5) (4/5) P0 = Inr ([- 5, - 2, 15, 20], [8, 3, 0, 5], [10, 0, 6, - 4], [5, 5, 10, 14]) \<and>
   rotated (3/5) (4/5) P0 ([- 5, - 2, 15, 20], [8, 3, 0, 5], [10, 0, 6, - 4], [5, 5, 10, 14]) 1 3 \<and>
   untouched P0 ([- 5, - 2, 15, 20], [8, 3, 0, 5], [10, 0, 6, - 4], [5, 5, 10, 14]) 2 1 \<and>
   update_shiftx_sse 1 2 2 2 (3/5) (4/5) P0 = Inr ([- 1, 10, 1, 20], [0, 5, 0, 5], [10, 0, 10, 0], [5, 7, 10, 18]) \<and>
   rotated (3/5) (4/5) P0 ([- 1, 10, 1, 20], [0, 5, 0, 5], [10, 0, 10, 0], [5, 7, 10, 18]) 2 3 \<and>
   untouched P0 ([- 1, 10, 1, 20], [0, 5, 0, 5], [10, 0, 10, 0], [5, 7, 10, 18]) 1 0"
proof -
  let ?Py = "([- 5, - 2, 15, 20], [8, 3, 0, 5], [10, 0, 6, - 4], [5, 5, 10, 14]) :: quadruple"
  let ?Px = "([- 1, 10, 1, 20], [0, 5, 0, 5], [10, 0, 10, 0], [5, 7, 10, 18]) :: quadruple"
  have w: "(2::nat) \<le> 2" by simp
  have ey: "update_shifty_sse 1 2 2 2 (3/5) (4/5) P0 = Inr ?Py"
    by (simp add: update_shifty_sse_def pass_in_bounds_def P0_def rot_row_def rot_scalar_def
        fold_upt_numeral fold_upt_Suc0)
  have ex: "update_shiftx_sse 1 2 2 2 (3/5) (4/5) P0 = Inr ?Px"
    by (simp add: update_shiftx_sse_def pass_in_bounds_def P0_def rot_row_def rot_scalar_def
        fold_upt_numeral fold_upt_Suc0)
  note t = rotation_pass_pairs[OF w, of 1 2 "3/5" "4/5" P0 ?Py 1 ?Px]
  from t ey have y1: "\<forall>i<2 - 1. \<forall>j<2. rotated (3/5) (4/5) P0 ?Py (i * 2 + j) ((i + 1) * 2 + j)"
    and y2: "\<forall>k1 k2. (\<forall>i<2 - 1. \<forall>j<2. k1 \<noteq> i * 2 + j \<and> k2 \<noteq> (i + 1) * 2 + j) \<longrightarrow> untouched P0 ?Py k1 k2"
    by blast+
  from t ex have x1: "\<forall>i<2. \<forall>j<2 - 1. rotated (3/5) (4/5) P0 ?Px (i * 2 + j) (i * 2 + 1 + j)"
    and x2: "\<forall>k1 k2. (\<forall>i<2. \<forall>j<2 - 1. k1 \<noteq> i * 2 + j \<and> k2 \<noteq> i * 2 + 1 + j) \<longrightarrow> untouched P0 ?Px k1 k2"
    by blast+
  from y1[rule_format, of 0 1] have a1: "rotated (3/5) (4/5) P0 ?Py 1 3" by simp
  from y2[rule_format, of 2 1] have a2: "untouched P0 ?Py 2 1" by auto
  from x1[rule_format, of 1 0] have a3: "rotated (3/5) (4/5) P0 ?Px 2 3" by simp
  from x2[rule_format, of 1 0] have a4: "untouched P0 ?Px 1 0" by auto
  from w ey ex a1 a2 a3 a4 show ?thesis by blast
qed

section \<open>The order of the passes\<close>


lemma update_shifty_sse_Inl:
  "update_shifty_sse offset_y stride width height a b P = Inl e \<Longrightarrow> e = OutOfBounds"
  by (auto simp: update_shifty_sse_def split: if_splits)

lemma update_shiftx_sse_Inl:
  "update_shiftx_sse offset_x stride width height a b P = Inl e \<Longrightarrow> e = OutOfBounds"
  by (auto simp: update_shiftx_sse_def split: if_splits)








text \<open>Eight arrays of two rows and two columns, for the examples.\<close>

definition sample_planes :: planes where
  "sample_planes = \<lparr>r00 = [5, 10, 15, 20], r01 = [0, 5, 0, 5], r10 = [10, 0, 10, 0], r11 = [5, 5, 10, 10],
                     i00 = [1, 2, 3, 4], i01 = [4, 3, 2, 1], i10 = [0, 1, 0, 1], i11 = [2, 2, 2, 2]\<rparr>"



section \<open>Halo exchange\<close>

text \<open>
  The halo exchange talks to the neighbouring processes through MPI. What the kernel does
  is the sequence of MPI calls it makes, in program order; each function is modelled by that
  sequence. A call names the array it points into, the generation index of the array, the
  offset added to the pointer, the MPI datatype, the neighbour, the tag and the slot of
  \<^verbatim>\<open>req\<close> that receives the request. \<^verbatim>\<open>MPI_Waitall n\<close> is
  \<^verbatim>\<open>MPI_Waitall(n, req, statuses)\<close>: it blocks until the requests in the first \<open>n\<close> slots
  of \<^verbatim>\<open>req\<close> are complete.
\<close>

datatype neighbor = UP | DOWN | LEFT | RIGHT

datatype border = verticalBorder | horizontalBorder

datatype array = R00 | R01 | R10 | R11 | I00 | I01 | I10 | I11

datatype mpi_call =
    MPI_Irecv array int int border neighbor nat nat
  | MPI_Isend array int int border neighbor nat nat
  | MPI_Waitall nat

text \<open>
  \<^verbatim>\<open>initialize_MPI\<close> (lines 400-425) stores the tile geometry and commits the two
  datatypes with \<^verbatim>\<open>MPI_Type_vector(count, block_length, stride, ...)\<close>. The integer
  divisions of \<^verbatim>\<open>int\<close> values truncate towards zero.
\<close>

definition c_div :: "int \<Rightarrow> int \<Rightarrow> int" where
  "c_div x y = sgn x * sgn y * (\<bar>x\<bar> div \<bar>y\<bar>)"

definition to_int :: "size_t \<Rightarrow> int" where
  "to_int w = sint (ucast w :: 32 word)"

definition initialize_MPI :: "int \<Rightarrow> int \<Rightarrow> int \<Rightarrow> int \<Rightarrow> int \<Rightarrow> kernel \<Rightarrow> kernel" where
  "initialize_MPI sx iex sy isy iey k =
     k\<lparr>start_x := sx, inner_end_x := iex, start_y := sy, inner_start_y := isy, inner_end_y := iey\<rparr>"

definition type_vector :: "kernel \<Rightarrow> border \<Rightarrow> int \<times> int \<times> int" where
  "type_vector k t = (case t of
       verticalBorder \<Rightarrow> (c_div (inner_end_y k - inner_start_y k) 2, to_int (halo_x k div 2),
                          to_int (tile_width k div 2))
     | horizontalBorder \<Rightarrow> (to_int (halo_y k div 2), to_int (tile_width k div 2),
                            to_int (tile_width k div 2)))"

text \<open>\<^verbatim>\<open>start_halo_exchange\<close> (lines 427-466).\<close>

definition start_halo_exchange :: "kernel \<Rightarrow> mpi_call list" where
  "start_halo_exchange k =
     (let s = 1 - sense k;
          offset = to_int (word_of_int (inner_start_y k - start_y k) * tile_width k div 4);
          recv_left =
            [MPI_Irecv R00 s offset verticalBorder LEFT 0 0,
             MPI_Irecv R01 s offset verticalBorder LEFT 1 1,
             MPI_Irecv R10 s offset verticalBorder LEFT 2 2,
             MPI_Irecv R11 s offset verticalBorder LEFT 3 3,
             MPI_Irecv I00 s offset verticalBorder LEFT 4 4,
             MPI_Irecv I01 s offset verticalBorder LEFT 5 5,
             MPI_Irecv I10 s offset verticalBorder LEFT 6 6,
             MPI_Irecv I11 s offset verticalBorder LEFT 7 7];
          offset = to_int (word_of_int (inner_start_y k - start_y k) * tile_width k div 4
                           + word_of_int (c_div (inner_end_x k - start_x k) 2));
          recv_right =
            [MPI_Irecv R00 s offset verticalBorder RIGHT 8 8,
             MPI_Irecv R01 s offset verticalBorder RIGHT 9 9,
             MPI_Irecv R10 s offset verticalBorder RIGHT 10 10,
             MPI_Irecv R11 s offset verticalBorder RIGHT 11 11,
             MPI_Irecv I00 s offset verticalBorder RIGHT 12 12,
             MPI_Irecv I01 s offset verticalBorder RIGHT 13 13,
             MPI_Irecv I10 s offset verticalBorder RIGHT 14 14,
             MPI_Irecv I11 s offset verticalBorder RIGHT 15 15];
          offset = to_int (word_of_int (inner_start_y k - start_y k) * tile_width k div 4
                           + (word_of_int (inner_end_x k) - halo_x k - word_of_int (start_x k)) div 2);
          send_right =
            [MPI_Isend R00 s offset verticalBorder RIGHT 0 16,
             MPI_Isend R01 s offset verticalBorder RIGHT 1 17,
             MPI_Isend R10 s offset verticalBorder RIGHT 2 18,
             MPI_Isend R11 s offset verticalBorder RIGHT 3 19,
             MPI_Isend I00 s offset verticalBorder RIGHT 4 20,
             MPI_Isend I01 s offset verticalBorder RIGHT 5 21,
             MPI_Isend I10 s offset verticalBorder RIGHT 6 22,
             MPI_Isend I11 s offset verticalBorder RIGHT 7 23];
          offset = to_int (word_of_int (inner_start_y k - start_y k) * tile_width k div 4
                           + halo_x k div 2);
          send_left =
            [MPI_Isend R00 s offset verticalBorder LEFT 8 24,
             MPI_Isend R01 s offset verticalBorder LEFT 9 25,
             MPI_Isend R10 s offset verticalBorder LEFT 10 26,
             MPI_Isend R11 s offset verticalBorder LEFT 11 27,
             MPI_Isend I00 s offset verticalBorder LEFT 12 28,
             MPI_Isend I01 s offset verticalBorder LEFT 13 29,
             MPI_Isend I10 s offset verticalBorder LEFT 14 30,
             MPI_Isend I11 s offset verticalBorder LEFT 15 31]
      in recv_left @ recv_right @ send_right @ send_left)"

text \<open>\<^verbatim>\<open>finish_halo_exchange\<close> (lines 468-513).\<close>

definition finish_halo_exchange :: "kernel \<Rightarrow> mpi_call list" where
  "finish_halo_exchange k =
     (let s = sense k;
          offset = 0;
          recv_up =
            [MPI_Irecv R00 s offset horizontalBorder UP 0 0,
             MPI_Irecv R01 s offset horizontalBorder UP 1 1,
             MPI_Irecv R10 s offset horizontalBorder UP 2 2,
             MPI_Irecv R11 s offset horizontalBorder UP 3 3,
             MPI_Irecv I00 s offset horizontalBorder UP 4 4,
             MPI_Irecv I01 s offset horizontalBorder UP 5 5,
             MPI_Irecv I10 s offset horizontalBorder UP 6 6,
             MPI_Irecv I11 s offset horizontalBorder UP 7 7];
          offset = to_int (word_of_int (inner_end_y k - start_y k) * tile_width k div 4);
          recv_down =
            [MPI_Irecv R00 s offset horizontalBorder DOWN 8 8,
             MPI_Irecv R01 s offset horizontalBorder DOWN 9 9,
             MPI_Irecv R10 s offset horizontalBorder DOWN 10 10,
             MPI_Irecv R11 s offset horizontalBorder DOWN 11 11,
             MPI_Irecv I00 s offset horizontalBorder DOWN 12 12,
             MPI_Irecv I01 s offset horizontalBorder DOWN 13 13,
             MPI_Irecv I10 s offset horizontalBorder DOWN 14 14,
             MPI_Irecv I11 s offset horizontalBorder DOWN 15 15];
          offset = to_int ((word_of_int (inner_end_y k) - halo_y k - word_of_int (start_y k))
                           * tile_width k div 4);
          send_down =
            [MPI_Isend R00 s offset horizontalBorder DOWN 0 16,
             MPI_Isend R01 s offset horizontalBorder DOWN 1 17,
             MPI_Isend R10 s offset horizontalBorder DOWN 2 18,
             MPI_Isend R11 s offset horizontalBorder DOWN 3 19,
             MPI_Isend I00 s offset horizontalBorder DOWN 4 20,
             MPI_Isend I01 s offset horizontalBorder DOWN 5 21,
             MPI_Isend I10 s offset horizontalBorder DOWN 6 22,
             MPI_Isend I11 s offset horizontalBorder DOWN 7 23];
          offset = to_int (halo_y k * tile_width k div 4);
          send_up =
            [MPI_Isend R00 s offset horizontalBorder UP 8 24,
             MPI_Isend R01 s offset horizontalBorder UP 9 25,
             MPI_Isend R10 s offset horizontalBorder UP 10 26,
             MPI_Isend R11 s offset horizontalBorder UP 11 27,
             MPI_Isend I00 s offset horizontalBorder UP 12 28,
             MPI_Isend I01 s offset horizontalBorder UP 13 29,
             MPI_Isend I10 s offset horizontalBorder UP 14 30,
             MPI_Isend I11 s offset horizontalBorder UP 15 31]
      in [MPI_Waitall 32] @ recv_up @ recv_down @ send_down @ send_up @ [MPI_Waitall 32])"

text \<open>What a call is: whether it blocks, its datatype, neighbour, array and request slot.\<close>

fun blocks :: "mpi_call \<Rightarrow> bool" where
  "blocks (MPI_Waitall n) = True"
| "blocks c = False"

fun is_recv :: "mpi_call \<Rightarrow> bool" where
  "is_recv (MPI_Irecv x s off t n tag r) = True"
| "is_recv c = False"

fun is_send :: "mpi_call \<Rightarrow> bool" where
  "is_send (MPI_Isend x s off t n tag r) = True"
| "is_send c = False"

fun border_of :: "mpi_call \<Rightarrow> border option" where
  "border_of (MPI_Irecv x s off t n tag r) = Some t"
| "border_of (MPI_Isend x s off t n tag r) = Some t"
| "border_of (MPI_Waitall n) = None"

fun peer_of :: "mpi_call \<Rightarrow> neighbor option" where
  "peer_of (MPI_Irecv x s off t n tag r) = Some n"
| "peer_of (MPI_Isend x s off t n tag r) = Some n"
| "peer_of (MPI_Waitall n) = None"

fun array_of :: "mpi_call \<Rightarrow> array option" where
  "array_of (MPI_Irecv x s off t n tag r) = Some x"
| "array_of (MPI_Isend x s off t n tag r) = Some x"
| "array_of (MPI_Waitall n) = None"

fun req_of :: "mpi_call \<Rightarrow> nat option" where
  "req_of (MPI_Irecv x s off t n tag r) = Some r"
| "req_of (MPI_Isend x s off t n tag r) = Some r"
| "req_of (MPI_Waitall n) = None"

definition arrays_of :: "(mpi_call \<Rightarrow> bool) \<Rightarrow> neighbor \<Rightarrow> mpi_call list \<Rightarrow> array option list" where
  "arrays_of kind n cs = map array_of (filter (\<lambda>c. kind c \<and> peer_of c = Some n) cs)"

definition all_arrays :: "array option list" where
  "all_arrays = map Some [R00, R01, R10, R11, I00, I01, I10, I11]"

lemma upt32: "[0..<32] = [0, 1, 2, 3, 4, 5, 6, 7, 8, 9, 10, 11, 12, 13, 14, 15, 16, 17, 18, 19, 20,
    21, 22, 23, 24, 25, 26, 27, 28, 29, 30, 31]"
  by (simp add: upt_rec)

text \<open>
  Claim C5. \<^verbatim>\<open>start_halo_exchange\<close> makes 32 calls, none of which blocks: for the left
  and for the right neighbour one receive and one send of the column strip
  (\<^verbatim>\<open>verticalBorder\<close>, \<^verbatim>\<open>halo_x / 2\<close> wide) of each of the eight arrays, with the
  requests in the slots 0 to 31. \<^verbatim>\<open>finish_halo_exchange\<close> first waits for the 32
  requests; only then it makes the 32 calls of the row strips (\<^verbatim>\<open>horizontalBorder\<close>,
  full rows) for the upper and the lower neighbour, and waits for them. In the sequence
  of both functions the first blocking call follows the 32 vertical calls and precedes
  every horizontal call.
\<close>

theorem halo_exchange_two_phase:
  "list_all (\<lambda>c. \<not> blocks c \<and> border_of c = Some verticalBorder) (start_halo_exchange k) \<and>
   map req_of (start_halo_exchange k) = map Some [0..<32] \<and>
   arrays_of is_recv LEFT (start_halo_exchange k) = all_arrays \<and>
   arrays_of is_recv RIGHT (start_halo_exchange k) = all_arrays \<and>
   arrays_of is_send LEFT (start_halo_exchange k) = all_arrays \<and>
   arrays_of is_send RIGHT (start_halo_exchange k) = all_arrays \<and>
   length (finish_halo_exchange k) = 34 \<and>
   hd (finish_halo_exchange k) = MPI_Waitall 32 \<and>
   last (finish_halo_exchange k) = MPI_Waitall 32 \<and>
   list_all (\<lambda>c. \<not> blocks c \<and> border_of c = Some horizontalBorder)
     (butlast (tl (finish_halo_exchange k))) \<and>
   map req_of (butlast (tl (finish_halo_exchange k))) = map Some [0..<32] \<and>
   arrays_of is_recv UP (finish_halo_exchange k) = all_arrays \<and>
   arrays_of is_recv DOWN (finish_halo_exchange k) = all_arrays \<and>
   arrays_of is_send UP (finish_halo_exchange k) = all_arrays \<and>
   arrays_of is_send DOWN (finish_halo_exchange k) = all_arrays \<and>
   takeWhile (\<lambda>c. \<not> blocks c) (start_halo_exchange k @ finish_halo_exchange k')
     = start_halo_exchange k \<and>
   snd (snd (type_vector k horizontalBorder)) = fst (snd (type_vector k horizontalBorder)) \<and>
   fst (snd (type_vector k verticalBorder)) = to_int (halo_x k div 2)"
  by (simp add: start_halo_exchange_def finish_halo_exchange_def Let_def arrays_of_def
      all_arrays_def upt32 type_vector_def)

theorem halo_exchange_two_phase_witness:
  "hd (finish_halo_exchange \<lparr>coeff_a = 1, coeff_b = 0, tile_width = 8, tile_height = 8, halo_x = 2,
         halo_y = 2, sense = 0, gen0 = sample_planes, gen1 = sample_planes, start_x = 0,
         inner_end_x = 6, start_y = 0, inner_start_y = 2, inner_end_y = 6\<rparr>) = MPI_Waitall 32"
  using halo_exchange_two_phase[of "\<lparr>coeff_a = 1, coeff_b = 0, tile_width = 8, tile_height = 8, halo_x = 2,
         halo_y = 2, sense = 0, gen0 = sample_planes, gen1 = sample_planes, start_x = 0,
         inner_end_x = 6, start_y = 0, inner_start_y = 2, inner_end_y = 6\<rparr>"]
  by blast


section \<open>Two-dimensional copies\<close>

lemma fold_row_update_length:
  "length (fold (\<lambda>j d. d[f j := g j]) [0..<w] d) = length d"
  by (induction w) simp_all

lemma fold_row_update_other:
  "(\<And>j. j < w \<Longrightarrow> f j \<noteq> k) \<Longrightarrow> fold (\<lambda>j d. d[f j := g j]) [0..<w] d ! k = d ! k"
  by (induction w) simp_all

lemma fold_row_update_nth:
  assumes "\<And>j j'. j < w \<Longrightarrow> j' < w \<Longrightarrow> f j = f j' \<Longrightarrow> j = j'" "j < w" "f j < length d"
  shows "fold (\<lambda>j d. d[f j := g j]) [0..<w] d ! f j = g j"
  using assms
proof (induction w)
  case 0
  then show ?case by simp
next
  case (Suc w)
  show ?case
  proof (cases "j = w")
    case True
    then show ?thesis using Suc.prems(3) by (simp add: fold_row_update_length)
  next
    case False
    then have jw: "j < w" using Suc.prems(2) by simp
    have ne: "f w \<noteq> f j" using Suc.prems(1)[of w j] jw by auto
    have inj_w: "j < w \<Longrightarrow> j' < w \<Longrightarrow> f j = f j' \<Longrightarrow> j = j'" for j j'
      using Suc.prems(1)[of j j'] by simp
    have "fold (\<lambda>j d. d[f j := g j]) [0..<w] d ! f j = g j"
      by (rule Suc.IH[OF inj_w jw Suc.prems(3)])
    then show ?thesis using ne by simp
  qed
qed

lemma fold_rect_update_length:
  "length (fold (\<lambda>i. fold (\<lambda>j d. d[f i j := g i j]) [0..<w]) [0..<h] d) = length d"
  by (induction h) (simp_all add: fold_row_update_length)

lemma fold_rect_update_other:
  "(\<And>i j. i < h \<Longrightarrow> j < w \<Longrightarrow> f i j \<noteq> k) \<Longrightarrow>
   fold (\<lambda>i. fold (\<lambda>j d. d[f i j := g i j]) [0..<w]) [0..<h] d ! k = d ! k"
  by (induction h) (simp_all add: fold_row_update_other)

lemma fold_rect_update_nth:
  assumes inj: "\<And>i j i' j'. i < h \<Longrightarrow> j < w \<Longrightarrow> i' < h \<Longrightarrow> j' < w \<Longrightarrow> f i j = f i' j' \<Longrightarrow> i = i' \<and> j = j'"
    and "i < h" "j < w" "f i j < length d"
  shows "fold (\<lambda>i. fold (\<lambda>j d. d[f i j := g i j]) [0..<w]) [0..<h] d ! f i j = g i j"
  using assms
proof (induction h)
  case 0
  then show ?case by simp
next
  case (Suc h)
  let ?R = "fold (\<lambda>i. fold (\<lambda>j d. d[f i j := g i j]) [0..<w]) [0..<h] d"
  have len: "length ?R = length d" by (rule fold_rect_update_length)
  show ?case
  proof (cases "i = h")
    case True
    have "fold (\<lambda>j d. d[f h j := g h j]) [0..<w] ?R ! f h j = g h j"
    proof (rule fold_row_update_nth)
      show "\<And>j j'. j < w \<Longrightarrow> j' < w \<Longrightarrow> f h j = f h j' \<Longrightarrow> j = j'"
        using Suc.prems(1)[of h _ h] by blast
      show "j < w" by (rule Suc.prems(3))
      show "f h j < length ?R" using Suc.prems(4) True len by simp
    qed
    then show ?thesis using True by simp
  next
    case False
    then have ih: "i < h" using Suc.prems(2) by simp
    have ne: "\<And>j'. j' < w \<Longrightarrow> f h j' \<noteq> f i j"
      using Suc.prems(1)[of h _ i j] ih Suc.prems(3) False by fastforce
    have inj_h: "i < h \<Longrightarrow> j < w \<Longrightarrow> i' < h \<Longrightarrow> j' < w \<Longrightarrow> f i j = f i' j' \<Longrightarrow> i = i' \<and> j = j'"
      for i j i' j'
      using Suc.prems(1)[of i j i' j'] by simp
    have "?R ! f i j = g i j"
      by (rule Suc.IH[OF inj_h ih Suc.prems(3) Suc.prems(4)])
    then show ?thesis using ne by (simp add: fold_row_update_other)
  qed
qed

text \<open>Row-major cells: distinct positions of a rectangle have distinct indices.\<close>

lemma row_major_inj:
  assumes "w \<le> pitch" "j < w" "j' < w" "off + i * pitch + j = off + i' * pitch + j'"
  shows "i = i' \<and> j = (j'::nat)"
proof -
  have s: "0 < pitch" "j < pitch" "j' < pitch" using assms by auto
  have e: "i * pitch + j = i' * pitch + j'" using assms(4) by simp
  have "(i * pitch + j) div pitch = i" "(i' * pitch + j') div pitch = i'"
    using s by simp_all
  then have "i = i'" using e by simp
  then show ?thesis using e by simp
qed

lemma rows_in_bounds_cell:
  assumes "rows_in_bounds len off pitch w h" "i < h" "j < w"
  shows "off + i * pitch + j < len"
proof -
  have "i \<le> h - 1" using assms(2) by simp
  then have "i * pitch \<le> (h - 1) * pitch" by (intro mult_le_mono1)
  moreover have "off + (h - 1) * pitch + w \<le> len" using assms by (auto simp: rows_in_bounds_def)
  ultimately show ?thesis using assms(3) by linarith
qed

section \<open>Sampling\<close>

text \<open>
  Modelled from the spec: \<^verbatim>\<open>get_quadrant_sample\<close> is declared in \<^verbatim>\<open>common.h\<close>, which
  is not among the sources. The spec has \<^verbatim>\<open>get_sample\<close> copy a rectangular window of
  the current buffer, "de-interleaving the quadrant layout back into a flat row-major
  array", into destinations that are "row-major, \<^verbatim>\<open>dest_stride\<close> elements per row,
  covering exactly \<^verbatim>\<open>width x height\<close> sites starting at local tile coordinate
  \<^verbatim>\<open>(x,y)\<close>", where the site of row \<open>2i+di\<close> and column \<open>2j+dj\<close> is element
  \<open>(i, j)\<close> of quadrant \<open>(di, dj)\<close>. A window outside the arrays is undefined behaviour.
\<close>

definition select_quad :: "nat \<Rightarrow> nat \<Rightarrow> quad" where
  "select_quad di dj = (if di = 0 then (if dj = 0 then Q00 else Q01) else (if dj = 0 then Q10 else Q11))"

definition site_re :: "planes \<Rightarrow> nat \<Rightarrow> nat \<Rightarrow> nat \<Rightarrow> real" where
  "site_re p src_stride row col =
     get_re (select_quad (row mod 2) (col mod 2)) p ! ((row div 2) * src_stride + col div 2)"

definition site_im :: "planes \<Rightarrow> nat \<Rightarrow> nat \<Rightarrow> nat \<Rightarrow> real" where
  "site_im p src_stride row col =
     get_im (select_quad (row mod 2) (col mod 2)) p ! ((row div 2) * src_stride + col div 2)"

definition site_in_bounds :: "planes \<Rightarrow> nat \<Rightarrow> nat \<Rightarrow> nat \<Rightarrow> bool" where
  "site_in_bounds p src_stride row col =
     ((row div 2) * src_stride + col div 2 < length (get_re (select_quad (row mod 2) (col mod 2)) p) \<and>
      (row div 2) * src_stride + col div 2 < length (get_im (select_quad (row mod 2) (col mod 2)) p))"

definition get_quadrant_sample ::
  "planes \<Rightarrow> size_t \<Rightarrow> size_t \<Rightarrow> size_t \<Rightarrow> size_t \<Rightarrow> size_t \<Rightarrow> size_t \<Rightarrow> plane \<Rightarrow> plane \<Rightarrow>
   error + plane \<times> plane" where
  "get_quadrant_sample p src_stride dest_stride x y width height dest_real dest_imag =
     (let ss = unat src_stride; ds = unat dest_stride; x0 = unat x; y0 = unat y;
          w = unat width; h = unat height
      in if rows_in_bounds (length dest_real) 0 ds w h \<and> rows_in_bounds (length dest_imag) 0 ds w h \<and>
            list_all (\<lambda>i. list_all (\<lambda>j. site_in_bounds p ss (y0 + i) (x0 + j)) [0..<w]) [0..<h]
         then Inr (fold (\<lambda>i. fold (\<lambda>j d. d[0 + i * ds + j := site_re p ss (y0 + i) (x0 + j)]) [0..<w])
                     [0..<h] dest_real,
                   fold (\<lambda>i. fold (\<lambda>j d. d[0 + i * ds + j := site_im p ss (y0 + i) (x0 + j)]) [0..<w])
                     [0..<h] dest_imag)
         else Inl OutOfBounds)"

text \<open>\<^verbatim>\<open>get_sample\<close> (lines 396-398).\<close>

definition get_sample ::
  "kernel \<Rightarrow> size_t \<Rightarrow> size_t \<Rightarrow> size_t \<Rightarrow> size_t \<Rightarrow> size_t \<Rightarrow> plane \<Rightarrow> plane \<Rightarrow> error + plane \<times> plane" where
  "get_sample k dest_stride x y width height dest_real dest_imag =
     get_quadrant_sample (gen k (sense k)) (tile_width k div 2) dest_stride x y width height
       dest_real dest_imag"



section \<open>Completion\<close>






section \<open>The quadrant layout\<close>

lemma unat_word_of_int_64:
  assumes "0 \<le> i" "i < 2 ^ 31"
  shows "unat (word_of_int i :: size_t) = nat i"
proof -
  have "i < 2 ^ 64" using assms(2) by simp
  then have "take_bit 64 i = i" using assms(1) by (simp add: take_bit_int_eq_self)
  then show ?thesis by (simp add: unat_eq_nat_uint uint_word_of_int_eq)
qed

lemma even_mult_div2: "even (W::nat) \<Longrightarrow> i * W div 2 = i * (W div 2)"
  by (auto elim!: evenE)

lemma pack_quadrant_length: "length (pack_quadrant p W H di dj q) = length q"
  by (simp add: pack_quadrant_def fold_rect_update_length)

lemma pack_quadrant_nth:
  assumes "even W" "i < H div 2" "j < W div 2" "(H div 2) * (W div 2) \<le> length q"
  shows "pack_quadrant p W H di dj q ! (i * (W div 2) + j) = p ! ((2 * i + di) * W + 2 * j + dj)"
proof -
  let ?f = "\<lambda>i j. 0 + i * (W div 2) + j"
  let ?g = "\<lambda>i j. p ! ((2 * i + di) * W + 2 * j + dj)"
  have e: "pack_quadrant p W H di dj q =
           fold (\<lambda>i. fold (\<lambda>j d. d[?f i j := ?g i j]) [0..<W div 2]) [0..<H div 2] q"
    unfolding pack_quadrant_def even_mult_div2[OF assms(1)] by simp
  have "Suc i \<le> H div 2" using assms(2) by simp
  then have "Suc i * (W div 2) \<le> (H div 2) * (W div 2)" by (intro mult_le_mono1)
  then have b: "?f i j < length q" using assms(3,4) by simp
  have inj: "\<And>i j i' j'. i < H div 2 \<Longrightarrow> j < W div 2 \<Longrightarrow> i' < H div 2 \<Longrightarrow> j' < W div 2 \<Longrightarrow>
            ?f i j = ?f i' j' \<Longrightarrow> i = i' \<and> j = j'"
    using row_major_inj[of "W div 2" "W div 2" _ _ 0] by blast
  have "fold (\<lambda>i. fold (\<lambda>j d. d[?f i j := ?g i j]) [0..<W div 2]) [0..<H div 2] q ! ?f i j = ?g i j"
    by (rule fold_rect_update_nth[where f = ?f and g = ?g, OF inj assms(2,3) b])
  then show ?thesis unfolding e by simp
qed

lemma parity_index: "(2 * (r div 2) + r mod 2) * W + 2 * (c div 2) + c mod 2 = r * W + (c::nat)"
  by simp

lemma get_quadrant_sample_nth:
  assumes "get_quadrant_sample p src_stride dest_stride x y width height dest_real dest_imag = Inr (dr, di)"
    and "unat width \<le> unat dest_stride" "i < unat height" "j < unat width"
  shows "dr ! (i * unat dest_stride + j) = site_re p (unat src_stride) (unat y + i) (unat x + j)"
    and "di ! (i * unat dest_stride + j) = site_im p (unat src_stride) (unat y + i) (unat x + j)"
proof -
  let ?ds = "unat dest_stride"
  let ?f = "\<lambda>i j. 0 + i * ?ds + j"
  have inj: "\<And>i j i' j'. i < unat height \<Longrightarrow> j < unat width \<Longrightarrow> i' < unat height \<Longrightarrow> j' < unat width \<Longrightarrow>
            ?f i j = ?f i' j' \<Longrightarrow> i = i' \<and> j = j'"
    using row_major_inj[OF assms(2), of _ _ 0] by blast
  from assms(1) have ok: "rows_in_bounds (length dest_real) 0 ?ds (unat width) (unat height)"
      "rows_in_bounds (length dest_imag) 0 ?ds (unat width) (unat height)"
    and dr: "dr = fold (\<lambda>i. fold (\<lambda>j d. d[?f i j := site_re p (unat src_stride) (unat y + i) (unat x + j)])
                    [0..<unat width]) [0..<unat height] dest_real"
    and di: "di = fold (\<lambda>i. fold (\<lambda>j d. d[?f i j := site_im p (unat src_stride) (unat y + i) (unat x + j)])
                    [0..<unat width]) [0..<unat height] dest_imag"
    by (auto simp: get_quadrant_sample_def Let_def split: if_splits)
  have b: "?f i j < length dest_real" "?f i j < length dest_imag"
    using rows_in_bounds_cell[OF ok(1) assms(3,4)] rows_in_bounds_cell[OF ok(2) assms(3,4)] by auto
  have "dr ! ?f i j = site_re p (unat src_stride) (unat y + i) (unat x + j)"
    unfolding dr
    by (rule fold_rect_update_nth[where f = ?f
          and g = "\<lambda>i j. site_re p (unat src_stride) (unat y + i) (unat x + j)", OF inj assms(3,4) b(1)])
  then show "dr ! (i * unat dest_stride + j) = site_re p (unat src_stride) (unat y + i) (unat x + j)"
    by simp
  have "di ! ?f i j = site_im p (unat src_stride) (unat y + i) (unat x + j)"
    unfolding di
    by (rule fold_rect_update_nth[where f = ?f
          and g = "\<lambda>i j. site_im p (unat src_stride) (unat y + i) (unat x + j)", OF inj assms(3,4) b(2)])
  then show "di ! (i * unat dest_stride + j) = site_im p (unat src_stride) (unat y + i) (unat x + j)"
    by simp
qed

lemma word_even_unat: "(w :: size_t) mod 2 = 0 \<longleftrightarrow> even (unat w)"
proof -
  have "unat (w mod 2) = unat w mod 2" by (simp add: unat_mod)
  then show ?thesis by (metis even_iff_mod_2_eq_zero unat_eq_zero)
qed

lemma constructed_fields:
  assumes "0 \<le> tw" "tw < 2 ^ 31" "0 \<le> th" "th < 2 ^ 31"
    and "CPUBlockSSEKernel p_real p_imag a b tw th hx hy = Inr k"
  shows "even (nat tw)" "even (nat th)" "gen k (sense k) = gen0 k" "tile_width k = word_of_int tw"
    "unat (tile_width k div 2) = nat tw div 2"
    "r00 (gen0 k) = pack_quadrant p_real (nat tw) (nat th) 0 0 (replicate ((nat tw div 2) * (nat th div 2)) 0)"
    "r01 (gen0 k) = pack_quadrant p_real (nat tw) (nat th) 0 1 (replicate ((nat tw div 2) * (nat th div 2)) 0)"
    "r10 (gen0 k) = pack_quadrant p_real (nat tw) (nat th) 1 0 (replicate ((nat tw div 2) * (nat th div 2)) 0)"
    "r11 (gen0 k) = pack_quadrant p_real (nat tw) (nat th) 1 1 (replicate ((nat tw div 2) * (nat th div 2)) 0)"
    "i00 (gen0 k) = pack_quadrant p_imag (nat tw) (nat th) 0 0 (replicate ((nat tw div 2) * (nat th div 2)) 0)"
    "i01 (gen0 k) = pack_quadrant p_imag (nat tw) (nat th) 0 1 (replicate ((nat tw div 2) * (nat th div 2)) 0)"
    "i10 (gen0 k) = pack_quadrant p_imag (nat tw) (nat th) 1 0 (replicate ((nat tw div 2) * (nat th div 2)) 0)"
    "i11 (gen0 k) = pack_quadrant p_imag (nat tw) (nat th) 1 1 (replicate ((nat tw div 2) * (nat th div 2)) 0)"
proof -
  let ?W = "word_of_int tw :: size_t" and ?H = "word_of_int th :: size_t"
  have uw: "unat ?W = nat tw" and uh: "unat ?H = nat th"
    using assms(1-4) by (simp_all add: unat_word_of_int_64)
  have ev: "?W mod 2 = 0" "?H mod 2 = 0"
    using assms(5) by (auto simp: CPUBlockSSEKernel_def Let_def split: if_splits)
  then show e: "even (nat tw)" "even (nat th)" by (simp_all add: word_even_unat uw uh)
  have "nat tw < 2 ^ 31" "nat th < 2 ^ 31" using assms(1-4) by auto
  then have "nat tw * nat th < 2 ^ 31 * 2 ^ 31" by (intro mult_strict_mono) auto
  then have lt: "nat tw * nat th < 2 ^ 64" by simp
  have "unat (?W * ?H) = nat tw * nat th"
    using lt by (simp add: unat_word_ariths uw uh)
  then have n: "unat ((?W * ?H) div 4) = (nat tw div 2) * (nat th div 2)"
    using e by (auto simp: unat_div elim!: evenE)
  from assms(5) have k: "k = \<lparr>coeff_a = a, coeff_b = b, tile_width = ?W, tile_height = ?H,
                  halo_x = word_of_int hx, halo_y = word_of_int hy, sense = 0,
                  gen0 = \<lparr>r00 = pack_quadrant p_real (nat tw) (nat th) 0 0 (replicate ((nat tw div 2) * (nat th div 2)) 0),
                           r01 = pack_quadrant p_real (nat tw) (nat th) 0 1 (replicate ((nat tw div 2) * (nat th div 2)) 0),
                           r10 = pack_quadrant p_real (nat tw) (nat th) 1 0 (replicate ((nat tw div 2) * (nat th div 2)) 0),
                           r11 = pack_quadrant p_real (nat tw) (nat th) 1 1 (replicate ((nat tw div 2) * (nat th div 2)) 0),
                           i00 = pack_quadrant p_imag (nat tw) (nat th) 0 0 (replicate ((nat tw div 2) * (nat th div 2)) 0),
                           i01 = pack_quadrant p_imag (nat tw) (nat th) 0 1 (replicate ((nat tw div 2) * (nat th div 2)) 0),
                           i10 = pack_quadrant p_imag (nat tw) (nat th) 1 0 (replicate ((nat tw div 2) * (nat th div 2)) 0),
                           i11 = pack_quadrant p_imag (nat tw) (nat th) 1 1 (replicate ((nat tw div 2) * (nat th div 2)) 0)\<rparr>,
                  gen1 = \<lparr>r00 = replicate ((nat tw div 2) * (nat th div 2)) 0, r01 = replicate ((nat tw div 2) * (nat th div 2)) 0,
                           r10 = replicate ((nat tw div 2) * (nat th div 2)) 0, r11 = replicate ((nat tw div 2) * (nat th div 2)) 0,
                           i00 = replicate ((nat tw div 2) * (nat th div 2)) 0, i01 = replicate ((nat tw div 2) * (nat th div 2)) 0,
                           i10 = replicate ((nat tw div 2) * (nat th div 2)) 0, i11 = replicate ((nat tw div 2) * (nat th div 2)) 0\<rparr>,
                  start_x = 0, inner_end_x = 0, start_y = 0, inner_start_y = 0, inner_end_y = 0\<rparr>"
    unfolding CPUBlockSSEKernel_def Let_def n uw uh by (simp split: if_splits)
  show "gen k (sense k) = gen0 k" "tile_width k = word_of_int tw" by (simp_all add: k gen_def)
  show "unat (tile_width k div 2) = nat tw div 2" by (simp add: k unat_div uw)
  show "r00 (gen0 k) = pack_quadrant p_real (nat tw) (nat th) 0 0 (replicate ((nat tw div 2) * (nat th div 2)) 0)"
    "r01 (gen0 k) = pack_quadrant p_real (nat tw) (nat th) 0 1 (replicate ((nat tw div 2) * (nat th div 2)) 0)"
    "r10 (gen0 k) = pack_quadrant p_real (nat tw) (nat th) 1 0 (replicate ((nat tw div 2) * (nat th div 2)) 0)"
    "r11 (gen0 k) = pack_quadrant p_real (nat tw) (nat th) 1 1 (replicate ((nat tw div 2) * (nat th div 2)) 0)"
    "i00 (gen0 k) = pack_quadrant p_imag (nat tw) (nat th) 0 0 (replicate ((nat tw div 2) * (nat th div 2)) 0)"
    "i01 (gen0 k) = pack_quadrant p_imag (nat tw) (nat th) 0 1 (replicate ((nat tw div 2) * (nat th div 2)) 0)"
    "i10 (gen0 k) = pack_quadrant p_imag (nat tw) (nat th) 1 0 (replicate ((nat tw div 2) * (nat th div 2)) 0)"
    "i11 (gen0 k) = pack_quadrant p_imag (nat tw) (nat th) 1 1 (replicate ((nat tw div 2) * (nat th div 2)) 0)"
    by (simp_all add: k gen_def)
qed

lemma constructed_quadrants:
  assumes "0 \<le> tw" "tw < 2 ^ 31" "0 \<le> th" "th < 2 ^ 31"
    and "CPUBlockSSEKernel p_real p_imag a b tw th hx hy = Inr k"
    and "i < nat th div 2" "j < nat tw div 2" "di < 2" "dj < 2"
  shows "get_re (select_quad di dj) (gen k (sense k)) ! (i * (nat tw div 2) + j)
           = p_real ! ((2 * i + di) * nat tw + 2 * j + dj)"
    and "get_im (select_quad di dj) (gen k (sense k)) ! (i * (nat tw div 2) + j)
           = p_imag ! ((2 * i + di) * nat tw + 2 * j + dj)"
    and "(i * (nat tw div 2) + j) < length (get_re (select_quad di dj) (gen k (sense k)))"
    and "(i * (nat tw div 2) + j) < length (get_im (select_quad di dj) (gen k (sense k)))"
proof -
  note c = constructed_fields[OF assms(1-5)]
  have d: "di = 0 \<or> di = 1" "dj = 0 \<or> dj = 1" using assms(8,9) by auto
  have l: "(nat th div 2) * (nat tw div 2) \<le> length (replicate ((nat tw div 2) * (nat th div 2)) (0::real))"
    by (simp add: mult.commute)
  note p = pack_quadrant_nth[OF c(1) assms(6,7) l]
  show "get_re (select_quad di dj) (gen k (sense k)) ! (i * (nat tw div 2) + j)
           = p_real ! ((2 * i + di) * nat tw + 2 * j + dj)"
    using d by (auto simp: select_quad_def c p)
  show "get_im (select_quad di dj) (gen k (sense k)) ! (i * (nat tw div 2) + j)
           = p_imag ! ((2 * i + di) * nat tw + 2 * j + dj)"
    using d by (auto simp: select_quad_def c p)
  have "Suc i \<le> nat th div 2" using assms(6) by simp
  then have "Suc i * (nat tw div 2) \<le> (nat th div 2) * (nat tw div 2)" by (intro mult_le_mono1)
  then have b: "i * (nat tw div 2) + j < (nat tw div 2) * (nat th div 2)"
    using assms(7) by (simp add: mult.commute)
  show "(i * (nat tw div 2) + j) < length (get_re (select_quad di dj) (gen k (sense k)))"
    using d b by (auto simp: select_quad_def c pack_quadrant_length)
  show "(i * (nat tw div 2) + j) < length (get_im (select_quad di dj) (gen k (sense k)))"
    using d b by (auto simp: select_quad_def c pack_quadrant_length)
qed

lemma constructed_site:
  assumes "0 \<le> tw" "tw < 2 ^ 31" "0 \<le> th" "th < 2 ^ 31"
    and "CPUBlockSSEKernel p_real p_imag a b tw th hx hy = Inr k"
    and "row < nat th" "col < nat tw"
  shows "site_re (gen k (sense k)) (nat tw div 2) row col = p_real ! (row * nat tw + col)"
    and "site_im (gen k (sense k)) (nat tw div 2) row col = p_imag ! (row * nat tw + col)"
    and "site_in_bounds (gen k (sense k)) (nat tw div 2) row col"
proof -
  note c = constructed_fields[OF assms(1-5)]
  have r: "row div 2 < nat th div 2" "col div 2 < nat tw div 2"
    using assms(6,7) c(1,2) by (auto elim!: evenE)
  have m: "row mod 2 < 2" "col mod 2 < 2" by simp_all
  note q = constructed_quadrants[OF assms(1-5) r m]
  show "site_re (gen k (sense k)) (nat tw div 2) row col = p_real ! (row * nat tw + col)"
    unfolding site_re_def q(1) by (simp only: parity_index)
  show "site_im (gen k (sense k)) (nat tw div 2) row col = p_imag ! (row * nat tw + col)"
    unfolding site_im_def q(2) by (simp only: parity_index)
  show "site_in_bounds (gen k (sense k)) (nat tw div 2) row col"
    unfolding site_in_bounds_def using q(3,4) by simp
qed

text \<open>
  Claim C7. Let the constructor accept a field of even dimensions (given as C \<^verbatim>\<open>int\<close>
  values). Then every quadrant array of the current generation holds
  \<open>quadrant[di][dj][i][j] = p[2i+di][2j+dj]\<close>, and \<^verbatim>\<open>get_sample\<close> over a window inside the
  tile, into destinations that hold \<open>height\<close> rows of \<open>dest_stride \<ge> width\<close> elements,
  returns in row \<open>i\<close> and column \<open>j\<close> exactly the value of the field at row \<open>y + i\<close>
  and column \<open>x + j\<close>, for the real and for the imaginary part.
\<close>

theorem quadrant_round_trip:
  assumes "0 \<le> tw" "tw < 2 ^ 31" "0 \<le> th" "th < 2 ^ 31"
    and "CPUBlockSSEKernel p_real p_imag a b tw th hx hy = Inr k"
    and "unat x + unat width \<le> nat tw" "unat y + unat height \<le> nat th"
    and "unat width \<le> unat dest_stride"
    and "rows_in_bounds (length dest_real) 0 (unat dest_stride) (unat width) (unat height)"
    and "rows_in_bounds (length dest_imag) 0 (unat dest_stride) (unat width) (unat height)"
  shows "\<exists>dr di. get_sample k dest_stride x y width height dest_real dest_imag = Inr (dr, di) \<and>
           (\<forall>i<unat height. \<forall>j<unat width.
              dr ! (i * unat dest_stride + j) = p_real ! ((unat y + i) * nat tw + (unat x + j)) \<and>
              di ! (i * unat dest_stride + j) = p_imag ! ((unat y + i) * nat tw + (unat x + j))) \<and>
           (\<forall>i<nat th div 2. \<forall>j<nat tw div 2. \<forall>di<2. \<forall>dj<2.
              get_re (select_quad di dj) (gen k (sense k)) ! (i * (nat tw div 2) + j)
                = p_real ! ((2 * i + di) * nat tw + 2 * j + dj) \<and>
              get_im (select_quad di dj) (gen k (sense k)) ! (i * (nat tw div 2) + j)
                = p_imag ! ((2 * i + di) * nat tw + 2 * j + dj))"
proof -
  note c = constructed_fields[OF assms(1-5)]
  let ?p = "gen k (sense k)"
  have inb: "site_in_bounds ?p (nat tw div 2) (unat y + i) (unat x + j)"
    if "i < unat height" "j < unat width" for i j
    using constructed_site(3)[OF assms(1-5), of "unat y + i" "unat x + j"] that assms(6,7) by simp
  have all: "list_all (\<lambda>i. list_all (\<lambda>j. site_in_bounds ?p (nat tw div 2) (unat y + i) (unat x + j))
                  [0..<unat width]) [0..<unat height]"
    using inb by (simp add: list_all_iff)
  obtain dr di where g: "get_sample k dest_stride x y width height dest_real dest_imag = Inr (dr, di)"
    using all assms(9,10) by (simp add: get_sample_def get_quadrant_sample_def Let_def c(5))
  then have g': "get_quadrant_sample ?p (tile_width k div 2) dest_stride x y width height dest_real dest_imag
                   = Inr (dr, di)"
    by (simp add: get_sample_def)
  have w: "dr ! (i * unat dest_stride + j) = p_real ! ((unat y + i) * nat tw + (unat x + j)) \<and>
           di ! (i * unat dest_stride + j) = p_imag ! ((unat y + i) * nat tw + (unat x + j))"
    if "i < unat height" "j < unat width" for i j
  proof -
    have r: "unat y + i < nat th" "unat x + j < nat tw" using that assms(6,7) by auto
    show ?thesis
      using get_quadrant_sample_nth[OF g' assms(8) that]
        constructed_site(1,2)[OF assms(1-5) r]
      by (simp add: c(5))
  qed
  have q: "get_re (select_quad di dj) ?p ! (i * (nat tw div 2) + j)
                = p_real ! ((2 * i + di) * nat tw + 2 * j + dj) \<and>
              get_im (select_quad di dj) ?p ! (i * (nat tw div 2) + j)
                = p_imag ! ((2 * i + di) * nat tw + 2 * j + dj)"
    if "i < nat th div 2" "j < nat tw div 2" "di < 2" "dj < 2" for i j di dj
    using constructed_quadrants(1,2)[OF assms(1-5) that] by simp
  show ?thesis using g w q by blast
qed

text \<open>
  The field of the spec's test, \<open>value(x, y) = x * 100 + y\<close>, on a tile of four by four
  sites, and the window of two by two sites at \<open>(1, 1)\<close>.
\<close>

definition field_4x4 :: plane where
  "field_4x4 = [0, 100, 200, 300, 1, 101, 201, 301, 2, 102, 202, 302, 3, 103, 203, 303]"

definition kernel_4x4 :: kernel where
  "kernel_4x4 = \<lparr>coeff_a = 1, coeff_b = 0, tile_width = 4, tile_height = 4, halo_x = 0, halo_y = 0,
     sense = 0,
     gen0 = \<lparr>r00 = [0, 200, 2, 202], r01 = [100, 300, 102, 302], r10 = [1, 201, 3, 203],
              r11 = [101, 301, 103, 303], i00 = [0, 0, 0, 0], i01 = [0, 0, 0, 0],
              i10 = [0, 0, 0, 0], i11 = [0, 0, 0, 0]\<rparr>,
     gen1 = \<lparr>r00 = [0, 0, 0, 0], r01 = [0, 0, 0, 0], r10 = [0, 0, 0, 0], r11 = [0, 0, 0, 0],
              i00 = [0, 0, 0, 0], i01 = [0, 0, 0, 0], i10 = [0, 0, 0, 0], i11 = [0, 0, 0, 0]\<rparr>,
     start_x = 0, inner_end_x = 0, start_y = 0, inner_start_y = 0, inner_end_y = 0\<rparr>"

lemma replicate_numeral: "replicate (numeral n) x = x # replicate (pred_numeral n) x"
  by (simp add: numeral_eq_Suc)

lemma list_update_numeral: "(x # xs)[numeral n := y] = x # xs[pred_numeral n := y]"
  by (simp add: numeral_eq_Suc)

lemma upt_numeral_unfold:
  "[i..<numeral n] = (if i < numeral n then i # [Suc i..<numeral n] else [])"
  by (simp add: upt_rec[of i])

lemma kernel_4x4_constructed:
  "CPUBlockSSEKernel field_4x4 (replicate 16 0) 1 0 4 4 0 0 = Inr kernel_4x4"
  by (simp add: CPUBlockSSEKernel_def kernel_4x4_def field_4x4_def pack_quadrant_def Let_def
      fold_upt_numeral fold_upt_Suc0 replicate_numeral)

theorem quadrant_round_trip_witness:
  "CPUBlockSSEKernel field_4x4 (replicate 16 0) 1 0 4 4 0 0 = Inr kernel_4x4 \<and>
   get_sample kernel_4x4 2 1 1 2 2 [9, 9, 9, 9] [9, 9, 9, 9] = Inr ([101, 201, 102, 202], [0, 0, 0, 0])"
proof -
  have g: "get_sample kernel_4x4 2 1 1 2 2 [9, 9, 9, 9] [9, 9, 9, 9] = Inr ([101, 201, 102, 202], [0, 0, 0, 0])"
    by (simp add: get_sample_def get_quadrant_sample_def kernel_4x4_def gen_def Let_def
        rows_in_bounds_def site_in_bounds_def site_re_def site_im_def select_quad_def
        fold_upt_numeral fold_upt_Suc0 list_update_numeral upt_numeral_unfold)
  have "\<exists>dr di. get_sample kernel_4x4 2 1 1 2 2 [9, 9, 9, 9] [9, 9, 9, 9] = Inr (dr, di) \<and>
           (\<forall>i<unat (2::size_t). \<forall>j<unat (2::size_t).
              dr ! (i * unat (2::size_t) + j) = field_4x4 ! ((unat (1::size_t) + i) * nat 4 + (unat (1::size_t) + j)) \<and>
              di ! (i * unat (2::size_t) + j) = replicate 16 0 ! ((unat (1::size_t) + i) * nat 4 + (unat (1::size_t) + j))) \<and>
           (\<forall>i<nat 4 div 2. \<forall>j<nat 4 div 2. \<forall>di<2. \<forall>dj<2.
              get_re (select_quad di dj) (gen kernel_4x4 (sense kernel_4x4)) ! (i * (nat 4 div 2) + j)
                = field_4x4 ! ((2 * i + di) * nat 4 + 2 * j + dj) \<and>
              get_im (select_quad di dj) (gen kernel_4x4 (sense kernel_4x4)) ! (i * (nat 4 div 2) + j)
                = replicate 16 0 ! ((2 * i + di) * nat 4 + 2 * j + dj))"
    by (rule quadrant_round_trip[OF _ _ _ _ kernel_4x4_constructed])
       (simp_all add: rows_in_bounds_def)
  then show ?thesis using g kernel_4x4_constructed by simp
qed


section \<open>Copies between the tile and the block buffers\<close>

lemma memcpy2D_Inl:
  "memcpy2D dst dst_off dstride src src_off sstride width height = Inl e \<Longrightarrow> e = OutOfBounds"
  by (auto simp: memcpy2D_def Let_def split: if_splits)

lemma memcpy2D_length:
  "memcpy2D dst dst_off dstride src src_off sstride width height = Inr d \<Longrightarrow> length d = length dst"
  by (auto simp: memcpy2D_def Let_def fold_rect_update_length split: if_splits)

lemma memcpy2D_defined:
  assumes "rows_in_bounds (length dst) dst_off (unat dstride div 4) (unat width div 4) (unat height)"
    and "rows_in_bounds (length src) src_off (unat sstride div 4) (unat width div 4) (unat height)"
  shows "\<exists>d. memcpy2D dst dst_off dstride src src_off sstride width height = Inr d"
  using assms by (simp add: memcpy2D_def Let_def)

lemma memcpy2D_nth:
  assumes "memcpy2D dst dst_off dstride src src_off sstride width height = Inr d"
    and "unat width div 4 \<le> unat dstride div 4" "i < unat height" "j < unat width div 4"
  shows "d ! (dst_off + i * (unat dstride div 4) + j) = src ! (src_off + i * (unat sstride div 4) + j)"
proof -
  let ?dp = "unat dstride div 4" and ?sp = "unat sstride div 4"
  let ?f = "\<lambda>i j. dst_off + i * ?dp + j"
  let ?g = "\<lambda>i j. src ! (src_off + i * ?sp + j)"
  from assms(1) have ok: "rows_in_bounds (length dst) dst_off ?dp (unat width div 4) (unat height)"
    and d: "d = fold (\<lambda>i. fold (\<lambda>j d. d[?f i j := ?g i j]) [0..<unat width div 4]) [0..<unat height] dst"
    by (auto simp: memcpy2D_def Let_def split: if_splits)
  have inj: "\<And>i j i' j'. i < unat height \<Longrightarrow> j < unat width div 4 \<Longrightarrow> i' < unat height \<Longrightarrow>
      j' < unat width div 4 \<Longrightarrow> ?f i j = ?f i' j' \<Longrightarrow> i = i' \<and> j = j'"
    using row_major_inj[OF assms(2)] by blast
  have b: "?f i j < length dst" by (rule rows_in_bounds_cell[OF ok assms(3,4)])
  show ?thesis unfolding d
    by (rule fold_rect_update_nth[where f = ?f and g = ?g, OF inj assms(3,4) b])
qed

lemma memcpy2D_other:
  assumes "memcpy2D dst dst_off dstride src src_off sstride width height = Inr d"
    and "\<And>i j. i < unat height \<Longrightarrow> j < unat width div 4 \<Longrightarrow> dst_off + i * (unat dstride div 4) + j \<noteq> k"
  shows "d ! k = dst ! k"
proof -
  from assms(1) have d: "d = fold (\<lambda>i. fold (\<lambda>j d. d[dst_off + i * (unat dstride div 4) + j
        := src ! (src_off + i * (unat sstride div 4) + j)]) [0..<unat width div 4]) [0..<unat height] dst"
    by (auto simp: memcpy2D_def Let_def split: if_splits)
  show ?thesis unfolding d
    by (rule fold_rect_update_other[where f = "\<lambda>i j. dst_off + i * (unat dstride div 4) + j"]) (rule assms(2))
qed

text \<open>The eight copies, array by array.\<close>

lemma memcpy2D_planes_Inr:
  assumes "memcpy2D_planes dst dst_idx dstride src src_idx sstride width height = Inr d"
  shows "memcpy2D (r00 dst) (unat dst_idx) dstride (r00 src) (unat src_idx) sstride width height = Inr (r00 d)"
    "memcpy2D (r01 dst) (unat dst_idx) dstride (r01 src) (unat src_idx) sstride width height = Inr (r01 d)"
    "memcpy2D (r10 dst) (unat dst_idx) dstride (r10 src) (unat src_idx) sstride width height = Inr (r10 d)"
    "memcpy2D (r11 dst) (unat dst_idx) dstride (r11 src) (unat src_idx) sstride width height = Inr (r11 d)"
    "memcpy2D (i00 dst) (unat dst_idx) dstride (i00 src) (unat src_idx) sstride width height = Inr (i00 d)"
    "memcpy2D (i01 dst) (unat dst_idx) dstride (i01 src) (unat src_idx) sstride width height = Inr (i01 d)"
    "memcpy2D (i10 dst) (unat dst_idx) dstride (i10 src) (unat src_idx) sstride width height = Inr (i10 d)"
    "memcpy2D (i11 dst) (unat dst_idx) dstride (i11 src) (unat src_idx) sstride width height = Inr (i11 d)"
  using assms unfolding memcpy2D_planes_def bind_res_def
  by (auto split: sum.splits)

lemma memcpy2D_planes_Inl:
  "memcpy2D_planes dst dst_idx dstride src src_idx sstride width height = Inl e \<Longrightarrow> e = OutOfBounds"
  unfolding memcpy2D_planes_def bind_res_def
  by (auto split: sum.splits dest: memcpy2D_Inl)

text \<open>All eight arrays of a generation, or of the block buffers, have one length.\<close>

definition plane_lengths :: "planes \<Rightarrow> nat \<Rightarrow> bool" where
  "plane_lengths p n =
     (length (r00 p) = n \<and> length (r01 p) = n \<and> length (r10 p) = n \<and> length (r11 p) = n \<and>
      length (i00 p) = n \<and> length (i01 p) = n \<and> length (i10 p) = n \<and> length (i11 p) = n)"

lemma memcpy2D_planes_lengths:
  assumes "memcpy2D_planes dst dst_idx dstride src src_idx sstride width height = Inr d"
    "plane_lengths dst n"
  shows "plane_lengths d n"
  using memcpy2D_planes_Inr[OF assms(1)] assms(2)
  by (auto simp: plane_lengths_def dest!: memcpy2D_length)

lemma memcpy2D_planes_defined:
  assumes "plane_lengths dst n" "plane_lengths src m"
    and "rows_in_bounds n (unat dst_idx) (unat dstride div 4) (unat width div 4) (unat height)"
    and "rows_in_bounds m (unat src_idx) (unat sstride div 4) (unat width div 4) (unat height)"
  shows "\<exists>d. memcpy2D_planes dst dst_idx dstride src src_idx sstride width height = Inr d"
proof -
  have "\<exists>d. memcpy2D (f dst) (unat dst_idx) dstride (f src) (unat src_idx) sstride width height = Inr d"
    if "length (f dst) = n" "length (f src) = m" for f :: "planes \<Rightarrow> plane"
    using memcpy2D_defined[of "f dst" "unat dst_idx" dstride width height "f src" "unat src_idx" sstride]
      assms(3,4) that by simp
  from this[of r00] this[of i00] this[of r01] this[of i01] this[of r10] this[of i10] this[of r11] this[of i11]
  show ?thesis using assms(1,2)
    unfolding memcpy2D_planes_def plane_lengths_def by auto
qed


section \<open>Lengths and definedness of the passes\<close>

lemma same_lengths_refl: "same_lengths P P"
  by (cases P) (simp add: same_lengths_def)

lemma same_lengths_trans: "same_lengths P Q \<Longrightarrow> same_lengths Q R \<Longrightarrow> same_lengths P R"
  by (cases P; cases Q; cases R) (simp add: same_lengths_def)

lemma rot_scalar_lengths: "same_lengths P (rot_scalar a b x y P)"
  by (cases P) (simp add: same_lengths_def rot_scalar_def Let_def)

lemma fold_rot_scalar_lengths:
  "same_lengths P (fold (\<lambda>j. rot_scalar a b (f j) (g j)) xs P)"
proof (induction xs arbitrary: P)
  case Nil
  show ?case by (simp add: same_lengths_refl)
next
  case (Cons x xs)
  show ?case
    using same_lengths_trans[OF rot_scalar_lengths Cons[of "rot_scalar a b (f x) (g x) P"]]
    by simp
qed

lemma rot_row_lengths: "same_lengths P (rot_row a b n x y P)"
  unfolding rot_row_scalar by (rule fold_rot_scalar_lengths)

lemma fold_rot_row_lengths:
  "same_lengths P (fold (\<lambda>i. rot_row a b n (f i) (g i)) xs P)"
proof (induction xs arbitrary: P)
  case Nil
  show ?case by (simp add: same_lengths_refl)
next
  case (Cons x xs)
  show ?case
    using same_lengths_trans[OF rot_row_lengths Cons[of "rot_row a b n (f x) (g x) P"]]
    by simp
qed

lemma update_shifty_sse_lengths:
  "update_shifty_sse offset_y stride width height a b P = Inr P' \<Longrightarrow> same_lengths P P'"
  by (auto simp: update_shifty_sse_def fold_rot_row_lengths split: if_splits)

lemma update_shiftx_sse_lengths:
  "update_shiftx_sse offset_x stride width height a b P = Inr P' \<Longrightarrow> same_lengths P P'"
  by (auto simp: update_shiftx_sse_def fold_rot_row_lengths split: if_splits)

lemma set_quad_lengths:
  assumes "plane_lengths p n" "length r = n" "length i = n"
  shows "plane_lengths (set_quad q r i p) n"
  using assms by (cases q) (simp_all add: plane_lengths_def)

lemma get_quad_lengths:
  "plane_lengths p n \<Longrightarrow> length (get_re q p) = n \<and> length (get_im q p) = n"
  by (cases q) (simp_all add: plane_lengths_def)

lemma apply_pass_lengths:
  assumes "apply_pass stride width height a b x p = Inr p'" "plane_lengths p n"
  shows "plane_lengths p' n"
proof (cases x)
  case (ShiftY oy q1 q2)
  obtain r1 i1 r2 i2 where u: "update_shifty_sse oy stride width height a b
        (get_re q1 p, get_im q1 p, get_re q2 p, get_im q2 p) = Inr (r1, i1, r2, i2)"
    and p': "p' = set_quad q2 r2 i2 (set_quad q1 r1 i1 p)"
    using assms(1) unfolding ShiftY by (auto simp: bind_res_def split: sum.splits)
  have "length r1 = n" "length i1 = n" "length r2 = n" "length i2 = n"
    using update_shifty_sse_lengths[OF u] get_quad_lengths[OF assms(2)]
    by (simp_all add: same_lengths_def)
  then show ?thesis unfolding p' by (intro set_quad_lengths assms(2))
next
  case (ShiftX ox q1 q2)
  obtain r1 i1 r2 i2 where u: "update_shiftx_sse ox stride width height a b
        (get_re q1 p, get_im q1 p, get_re q2 p, get_im q2 p) = Inr (r1, i1, r2, i2)"
    and p': "p' = set_quad q2 r2 i2 (set_quad q1 r1 i1 p)"
    using assms(1) unfolding ShiftX by (auto simp: bind_res_def split: sum.splits)
  have "length r1 = n" "length i1 = n" "length r2 = n" "length i2 = n"
    using update_shiftx_sse_lengths[OF u] get_quad_lengths[OF assms(2)]
    by (simp_all add: same_lengths_def)
  then show ?thesis unfolding p' by (intro set_quad_lengths assms(2))
qed

lemma run_passes_lengths:
  "run_passes stride width height a b xs p = Inr p' \<Longrightarrow> plane_lengths p n \<Longrightarrow> plane_lengths p' n"
proof (induction xs arbitrary: p)
  case Nil
  then show ?case by simp
next
  case (Cons x xs)
  then obtain q where q: "apply_pass stride width height a b x p = Inr q"
    and r: "run_passes stride width height a b xs q = Inr p'"
    by (auto simp: bind_res_def split: sum.splits)
  show ?case by (rule Cons.IH[OF r apply_pass_lengths[OF q Cons.prems(2)]])
qed

lemma full_step_sse_lengths:
  "full_step_sse stride width height a b p = Inr p' \<Longrightarrow> plane_lengths p n \<Longrightarrow> plane_lengths p' n"
  unfolding full_step_sse_def by (rule run_passes_lengths)

text \<open>
  A full step over \<open>height \<ge> 1\<close> rows of \<open>width \<ge> 1\<close> cells stays inside arrays that
  hold the last cell of the last row.
\<close>

definition step_fits :: "nat \<Rightarrow> nat \<Rightarrow> nat \<Rightarrow> nat \<Rightarrow> bool" where
  "step_fits stride width height n = (1 \<le> width \<and> 1 \<le> height \<and> (height - 1) * stride + width \<le> n)"

lemma pass_in_bounds_fits_y:
  assumes "step_fits stride width height n" "oy = 0 \<or> oy = 1"
    "length r1 = n" "length i1 = n" "length r2 = n" "length i2 = n"
  shows "oy \<le> height \<and> pass_in_bounds stride width (height - oy) (oy * stride) (r1, i1, r2, i2)"
proof -
  obtain m where m: "height = Suc m" "m * stride + width \<le> n" "1 \<le> width"
    using assms(1) by (cases height) (auto simp: step_fits_def)
  show ?thesis
  proof (cases "oy = 0")
    case True
    then show ?thesis using m assms(3-6) by (simp add: pass_in_bounds_def)
  next
    case False
    then have oy: "oy = 1" using assms(2) by simp
    show ?thesis
    proof (cases m)
      case 0
      then show ?thesis using m oy by (simp add: pass_in_bounds_def)
    next
      case (Suc l)
      then show ?thesis using m oy assms(3-6) by (simp add: pass_in_bounds_def)
    qed
  qed
qed

lemma pass_in_bounds_fits_x:
  assumes "step_fits stride width height n" "ox = 0 \<or> ox = 1"
    "length r1 = n" "length i1 = n" "length r2 = n" "length i2 = n"
  shows "ox \<le> width \<and> pass_in_bounds stride (width - ox) height ox (r1, i1, r2, i2)"
proof -
  obtain m where m: "height = Suc m" "m * stride + width \<le> n" "1 \<le> width"
    using assms(1) by (cases height) (auto simp: step_fits_def)
  show ?thesis using m assms(2-6) by (auto simp: pass_in_bounds_def)
qed

definition unit_offset :: "pass \<Rightarrow> bool" where
  "unit_offset x = (case x of ShiftY oy q1 q2 \<Rightarrow> oy = 0 \<or> oy = 1 | ShiftX ox q1 q2 \<Rightarrow> ox = 0 \<or> ox = 1)"

lemma apply_pass_defined:
  assumes "step_fits stride width height n" "plane_lengths p n" "unit_offset x"
  shows "\<exists>p'. apply_pass stride width height a b x p = Inr p'"
proof (cases x)
  case (ShiftY oy q1 q2)
  have "oy = 0 \<or> oy = 1" using assms(3) by (simp add: unit_offset_def ShiftY)
  from pass_in_bounds_fits_y[OF assms(1) this, of "get_re q1 p" "get_im q1 p" "get_re q2 p" "get_im q2 p"]
    get_quad_lengths[OF assms(2)]
  show ?thesis by (simp add: ShiftY update_shifty_sse_def split: prod.splits)
next
  case (ShiftX ox q1 q2)
  have "ox = 0 \<or> ox = 1" using assms(3) by (simp add: unit_offset_def ShiftX)
  from pass_in_bounds_fits_x[OF assms(1) this, of "get_re q1 p" "get_im q1 p" "get_re q2 p" "get_im q2 p"]
    get_quad_lengths[OF assms(2)]
  show ?thesis by (simp add: ShiftX update_shiftx_sse_def split: prod.splits)
qed

lemma run_passes_defined:
  assumes "step_fits stride width height n" "plane_lengths p n" "list_all unit_offset xs"
  shows "\<exists>p'. run_passes stride width height a b xs p = Inr p'"
  using assms(2,3)
proof (induction xs arbitrary: p)
  case Nil
  show ?case by simp
next
  case (Cons x xs)
  have "unit_offset x" using Cons.prems(2) by simp
  from apply_pass_defined[OF assms(1) Cons.prems(1) this, of a b]
  obtain q where q: "apply_pass stride width height a b x p = Inr q" by blast
  have "plane_lengths q n" by (rule apply_pass_lengths[OF q Cons.prems(1)])
  then show ?case using Cons.IH[of q] Cons.prems(2) q by simp
qed

lemma full_step_passes_unit: "list_all unit_offset full_step_passes"
  by (simp add: full_step_passes_def full_step_substeps_def step1_def step2_def step3_def
      step4_def unit_offset_def)

lemma full_step_sse_defined:
  assumes "step_fits stride width height n" "plane_lengths p n"
  shows "\<exists>p'. full_step_sse stride width height a b p = Inr p'"
  unfolding full_step_sse_def
  by (rule run_passes_defined[OF assms full_step_passes_unit])

section \<open>The pass with coefficients 1 and 0\<close>

lemma rot_scalar_unit: "rot_scalar 1 0 x y P = P"
  by (cases P) (simp add: rot_scalar_def)

lemma rot_row_unit: "rot_row 1 0 n x y P = P"
  unfolding rot_row_scalar by (induction n) (simp_all add: rot_scalar_unit)

lemma fold_rot_row_unit: "fold (\<lambda>i. rot_row 1 0 n (f i) (g i)) xs P = P"
  by (induction xs) (simp_all add: rot_row_unit)

lemma set_get_quad: "set_quad q (get_re q p) (get_im q p) p = p"
  by (cases q) simp_all

lemma apply_pass_unit:
  "apply_pass stride width height 1 0 x p = Inr p' \<Longrightarrow> p' = p"
  by (cases x)
     (auto simp: update_shifty_sse_def update_shiftx_sse_def fold_rot_row_unit set_get_quad
       split: if_splits)

lemma run_passes_unit:
  "run_passes stride width height 1 0 xs p = Inr p' \<Longrightarrow> p' = p"
proof (induction xs arbitrary: p)
  case Nil
  then show ?case by simp
next
  case (Cons x xs)
  then obtain q where q: "apply_pass stride width height 1 0 x p = Inr q"
    and r: "run_passes stride width height 1 0 xs q = Inr p'"
    by (auto simp: bind_res_def split: sum.splits)
  show ?case using Cons.IH[OF r] apply_pass_unit[OF q] by simp
qed

lemma full_step_sse_unit:
  assumes "step_fits stride width height n" "plane_lengths p n"
  shows "full_step_sse stride width height 1 0 p = Inr p"
proof -
  obtain p' where p': "full_step_sse stride width height 1 0 p = Inr p'"
    using full_step_sse_defined[OF assms] by blast
  then have "p' = p" unfolding full_step_sse_def by (rule run_passes_unit)
  then show ?thesis using p' by simp
qed


section \<open>Bands of a kernel\<close>

lemma for_blocks_unfold:
  "for_blocks n x limit step body s =
     (if x < limit
      then (if n = 0 then Inl Diverges
            else bind_res (body x s) (for_blocks (n - 1) (x + step) limit step body))
      else Inr (x, s))"
  by (cases n) simp_all

lemma for_blocks_exit: "\<not> x < limit \<Longrightarrow> for_blocks n x limit step body s = Inr (x, s)"
  by (cases n) simp_all

lemma gen_set_gen:
  assumes "s = 0 \<or> s = 1"
  shows "gen (set_gen (1 - s) p k) s = gen k s" "gen (set_gen (1 - s) p k) (1 - s) = p"
    "sense (set_gen i p k) = sense k" "tile_width (set_gen i p k) = tile_width k"
    "tile_height (set_gen i p k) = tile_height k" "halo_x (set_gen i p k) = halo_x k"
    "halo_y (set_gen i p k) = halo_y k" "coeff_a (set_gen i p k) = coeff_a k"
    "coeff_b (set_gen i p k) = coeff_b k"
    "set_gen (1 - s) q (set_gen (1 - s) p k) = set_gen (1 - s) q k"
    "set_gen (1 - s) (gen k (1 - s)) k = k"
  using assms by (auto simp: gen_def set_gen_def)

lemma band_set_gen:
  assumes "sense k = 0 \<or> sense k = 1"
  shows "band bw bh (set_gen (1 - sense k) nxt k) ry rh wo wh inner sides =
         bind_res (process_band_sse ry rh wo wh bw bh (tile_width k) (halo_x k) (coeff_a k) (coeff_b k)
                     (gen k (sense k)) nxt inner sides)
           (\<lambda>nxt'. Inr (set_gen (1 - sense k) nxt' k))"
  unfolding band_def by (simp add: gen_set_gen[OF assms])

section \<open>A tile that fits one block\<close>

lemma copy_through:
  assumes b1: "memcpy2D b 0 bs c 0 ms w h = Inr b1"
    and n': "memcpy2D n 0 ms b1 0 bs w h = Inr n'"
    and sz: "unat w div 4 = W" "unat ms div 4 = W" "unat bs div 4 = BW" "W \<le> BW" "unat h = H"
    and len: "length c = W * H" "length n = W * H"
  shows "n' = c"
proof (rule nth_equalityI)
  show l: "length n' = length c" using memcpy2D_length[OF n'] len by simp
  fix k assume "k < length n'"
  then have k: "k < W * H" using l len by simp
  then have W: "0 < W" by (cases W) auto
  let ?i = "k div W" and ?j = "k mod W"
  have i: "?i < unat h" using k sz(5) by (simp add: less_mult_imp_div_less mult.commute)
  have j: "?j < unat w div 4" using W sz(1) by simp
  have kk: "0 + ?i * (unat ms div 4) + ?j = k" by (simp add: sz(2))
  have 1: "n' ! (0 + ?i * (unat ms div 4) + ?j) = b1 ! (0 + ?i * (unat bs div 4) + ?j)"
    by (rule memcpy2D_nth[OF n' _ i j]) (simp add: sz)
  have 2: "b1 ! (0 + ?i * (unat bs div 4) + ?j) = c ! (0 + ?i * (unat ms div 4) + ?j)"
    by (rule memcpy2D_nth[OF b1 _ i j]) (simp add: sz)
  show "n' ! k = c ! k" using 1 2 unfolding kk by simp
qed

lemma block_buffers_lengths:
  "plane_lengths (block_buffers bw bh) (unat ((bh div 2) * (bw div 2)))"
  by (simp add: block_buffers_def plane_lengths_def Let_def)

lemma one_block_unit:
  assumes cur: "plane_lengths cur 1792" and nxt: "plane_lengths nxt 1792"
  shows "process_band_sse 0 128 0 128 128 128 56 4 1 0 cur nxt inner 1 = Inr cur"
proof -
  let ?blk = "block_buffers 128 128"
  have bl: "plane_lengths ?blk 4096" using block_buffers_lengths[of 128 128] by simp
  obtain blk1 where m1: "memcpy2D_planes ?blk 0 256 cur 0 112 112 64 = Inr blk1"
    using memcpy2D_planes_defined[OF bl cur, of 0 256 112 64 0 112] by (auto simp: rows_in_bounds_def)
  have bl1: "plane_lengths blk1 4096" by (rule memcpy2D_planes_lengths[OF m1 bl])
  have f: "full_step_sse 64 28 64 1 0 blk1 = Inr blk1"
    by (rule full_step_sse_unit[OF _ bl1]) (simp add: step_fits_def)
  obtain nxt' where m2: "memcpy2D_planes nxt 0 112 blk1 0 256 112 64 = Inr nxt'"
    using memcpy2D_planes_defined[OF nxt bl1, of 0 112 112 64 0 256] by (auto simp: rows_in_bounds_def)
  note a = memcpy2D_planes_Inr[OF m1]
  note c = memcpy2D_planes_Inr[OF m2]
  have l: "length (r00 cur) = 28 * 64" "length (r01 cur) = 28 * 64" "length (r10 cur) = 28 * 64"
    "length (r11 cur) = 28 * 64" "length (i00 cur) = 28 * 64" "length (i01 cur) = 28 * 64"
    "length (i10 cur) = 28 * 64" "length (i11 cur) = 28 * 64"
    "length (r00 nxt) = 28 * 64" "length (r01 nxt) = 28 * 64" "length (r10 nxt) = 28 * 64"
    "length (r11 nxt) = 28 * 64" "length (i00 nxt) = 28 * 64" "length (i01 nxt) = 28 * 64"
    "length (i10 nxt) = 28 * 64" "length (i11 nxt) = 28 * 64"
    using cur nxt by (simp_all add: plane_lengths_def)
  have s: "unat (112 :: size_t) div 4 = 28" "unat (256 :: size_t) div 4 = 64" "(28::nat) \<le> 64"
    "unat (64 :: size_t) = 64" by simp_all
  have e: "r00 nxt' = r00 cur" "r01 nxt' = r01 cur" "r10 nxt' = r10 cur" "r11 nxt' = r11 cur"
    "i00 nxt' = i00 cur" "i01 nxt' = i01 cur" "i10 nxt' = i10 cur" "i11 nxt' = i11 cur"
    using a c l s
    by (auto intro: copy_through[where W = 28 and BW = 64 and H = 64] simp del: unat_numeral)
  have "nxt' = cur" by (rule planes.equality) (simp_all add: e)
  then have m2': "memcpy2D_planes nxt 0 112 blk1 0 256 112 64 = Inr cur" using m2 by simp
  show ?thesis
    by (simp add: process_band_sse_def Let_def sizeof_float_def m1 f m2')
qed


section \<open>A tile of 56 columns in blocks of 32\<close>

lemma memcpy2D_column_other:
  assumes m: "memcpy2D dst off dstride src src_off sstride width height = Inr d"
    and off: "off = r * W + cl"
    and W: "unat dstride div 4 = W" and w: "cl + unat width div 4 \<le> W"
    and c: "c < cl \<or> cl + unat width div 4 \<le> c" "c < W"
  shows "d ! (r' * W + c) = dst ! (r' * W + c)"
proof (rule memcpy2D_other[OF m])
  fix i j assume "i < unat height" "j < unat width div 4"
  then have j: "cl + j < W" using w by simp
  show "off + i * (unat dstride div 4) + j \<noteq> r' * W + c"
  proof
    assume "off + i * (unat dstride div 4) + j = r' * W + c"
    then have "r * W + cl + i * (unat dstride div 4) + j = r' * W + c" by (simp add: off)
    then have e: "(r + i) * W + (cl + j) = r' * W + c" by (simp add: W add_mult_distrib)
    have "((r + i) * W + (cl + j)) mod W = cl + j" using j by simp
    moreover have "(r' * W + c) mod W = c" using c(2) by simp
    ultimately have "cl + j = c" using e by simp
    then show False using c(1) \<open>j < unat width div 4\<close> by auto
  qed
qed

lemma gap_band:
  assumes cur: "plane_lengths cur 1792" and nxt: "plane_lengths nxt 1792"
    and RH: "unat (rh div 2) = RH" "1 \<le> RH" "RH \<le> 16"
    and R: "unat ((ry div 2) * 28) = R * 28" "unat ((ry div 2) * 28 + 24) = R * 28 + 24" "R + RH \<le> 64"
    and WH: "unat (wh div 2) = WH" "WO + WH \<le> RH"
    and WO: "unat ((wo div 2) * 16) = WO * 16" "unat ((wo div 2) * 16 + 2) = WO * 16 + 2"
    and RW: "unat ((ry div 2 + wo div 2) * 28) = (R + WO) * 28"
      "unat ((ry div 2 + wo div 2) * 28 + 26) = (R + WO) * 28 + 26"
  shows "\<exists>nxt'. process_band_sse ry rh wo wh 32 32 56 4 1 0 cur nxt inner 1 = Inr nxt' \<and>
           plane_lengths nxt' 1792 \<and> r00 nxt' ! 14 = r00 nxt ! 14"
proof -
  let ?blk = "block_buffers 32 32"
  have bl: "plane_lengths ?blk 256" using block_buffers_lengths[of 32 32] by simp
  have le: "(RH - 1) * 16 + 16 \<le> 256" "(R + RH - 1) * 28 + 28 \<le> 1792"
    "(WO + WH - 1) * 16 + 16 \<le> 256" "(R + WO + WH - 1) * 28 + 28 \<le> 1792"
    using RH R WH by simp_all
  have le': "(RH - 1) * 16 \<le> 240" "R * 28 + (RH - 1) * 28 \<le> 1764"
    "WH = 0 \<or> WO * 16 + (WH - 1) * 16 \<le> 240" "WH = 0 \<or> (R + WO) * 28 + (WH - 1) * 28 \<le> 1764"
    using RH R WH by auto
  \<comment> \<open>first block\<close>
  obtain blk1 where m1: "memcpy2D_planes ?blk 0 64 cur ((ry div 2) * 28) 112 64 (rh div 2) = Inr blk1"
    using memcpy2D_planes_defined[OF bl cur, of 0 64 64 "rh div 2" "(ry div 2) * 28" 112] RH R le'
    by (auto simp: rows_in_bounds_def)
  have bl1: "plane_lengths blk1 256" by (rule memcpy2D_planes_lengths[OF m1 bl])
  have f1: "full_step_sse 16 16 RH 1 0 blk1 = Inr blk1"
    by (rule full_step_sse_unit[OF _ bl1]) (use RH le' in \<open>simp add: step_fits_def\<close>)
  obtain nxt1 where m2: "memcpy2D_planes nxt ((ry div 2 + wo div 2) * 28) 112 blk1 ((wo div 2) * 16) 64
        56 (wh div 2) = Inr nxt1"
    using memcpy2D_planes_defined[OF nxt bl1, of "(ry div 2 + wo div 2) * 28" 112 56 "wh div 2"
        "(wo div 2) * 16" 64] WH WO RW le'
    by (auto simp: rows_in_bounds_def)
  have nl1: "plane_lengths nxt1 1792" by (rule memcpy2D_planes_lengths[OF m2 nxt])
  have g1: "r00 nxt1 ! 14 = r00 nxt ! 14"
  proof -
    have "r00 nxt1 ! (0 * 28 + 14) = r00 nxt ! (0 * 28 + 14)"
      by (rule memcpy2D_column_other[OF memcpy2D_planes_Inr(1)[OF m2, unfolded RW],
          where r = "R + WO" and cl = 0]) simp_all
    then show ?thesis by simp
  qed
  \<comment> \<open>last block\<close>
  obtain blk2 where m3: "memcpy2D_planes blk1 0 64 cur ((ry div 2) * 28 + 24) 112 16 (rh div 2) = Inr blk2"
    using memcpy2D_planes_defined[OF bl1 cur, of 0 64 16 "rh div 2" "(ry div 2) * 28 + 24" 112] RH R le'
    by (auto simp: rows_in_bounds_def)
  have bl2: "plane_lengths blk2 256" by (rule memcpy2D_planes_lengths[OF m3 bl1])
  have f2: "full_step_sse 16 4 RH 1 0 blk2 = Inr blk2"
    by (rule full_step_sse_unit[OF _ bl2]) (use RH le' in \<open>simp add: step_fits_def\<close>)
  obtain nxt2 where m4: "memcpy2D_planes nxt1 ((ry div 2 + wo div 2) * 28 + 26) 112 blk2
        ((wo div 2) * 16 + 2) 64 8 (wh div 2) = Inr nxt2"
    using memcpy2D_planes_defined[OF nl1 bl2, of "(ry div 2 + wo div 2) * 28 + 26" 112 8 "wh div 2"
        "(wo div 2) * 16 + 2" 64] WH WO RW le'
    by (auto simp: rows_in_bounds_def)
  have nl2: "plane_lengths nxt2 1792" by (rule memcpy2D_planes_lengths[OF m4 nl1])
  have g2: "r00 nxt2 ! 14 = r00 nxt1 ! 14"
  proof -
    have "r00 nxt2 ! (0 * 28 + 14) = r00 nxt1 ! (0 * 28 + 14)"
      by (rule memcpy2D_column_other[OF memcpy2D_planes_Inr(1)[OF m4, unfolded RW],
          where r = "R + WO" and cl = 26]) simp_all
    then show ?thesis by simp
  qed
  have "process_band_sse ry rh wo wh 32 32 56 4 1 0 cur nxt inner 1 = Inr nxt2"
    using m1 f1 m2 m3 f2 m4
    by (simp add: process_band_sse_def process_sides_sse_def Let_def sizeof_float_def
        RH for_blocks_exit)
  then show ?thesis using nl2 g1 g2 by simp
qed


section \<open>A tile of 56 by 128 sites\<close>

text \<open>
  The field that is 1 at every site, on a tile of 56 columns and 128 rows with a halo of 4,
  and the coefficients \<open>a = 1\<close>, \<open>b = 0\<close>, for which every rotation leaves its four
  values as they are: one full step returns the field.
\<close>

definition ones_field :: planes where
  "ones_field = \<lparr>r00 = replicate 1792 1, r01 = replicate 1792 1, r10 = replicate 1792 1,
                  r11 = replicate 1792 1, i00 = replicate 1792 0, i01 = replicate 1792 0,
                  i10 = replicate 1792 0, i11 = replicate 1792 0\<rparr>"

definition zero_field :: planes where
  "zero_field = \<lparr>r00 = replicate 1792 0, r01 = replicate 1792 0, r10 = replicate 1792 0,
                  r11 = replicate 1792 0, i00 = replicate 1792 0, i01 = replicate 1792 0,
                  i10 = replicate 1792 0, i11 = replicate 1792 0\<rparr>"

definition kernel_56x128 :: kernel where
  "kernel_56x128 = \<lparr>coeff_a = 1, coeff_b = 0, tile_width = 56, tile_height = 128, halo_x = 4,
     halo_y = 4, sense = 0, gen0 = ones_field, gen1 = zero_field,
     start_x = 0, inner_end_x = 0, start_y = 0, inner_start_y = 0, inner_end_y = 0\<rparr>"

lemma kernel_56x128_fields:
  "coeff_a kernel_56x128 = 1" "coeff_b kernel_56x128 = 0" "tile_width kernel_56x128 = 56"
  "tile_height kernel_56x128 = 128" "halo_x kernel_56x128 = 4" "halo_y kernel_56x128 = 4"
  "sense kernel_56x128 = 0" "gen0 kernel_56x128 = ones_field" "gen1 kernel_56x128 = zero_field"
  by (simp_all add: kernel_56x128_def)

lemma field_lengths: "plane_lengths ones_field 1792" "plane_lengths zero_field 1792"
  by (simp_all add: plane_lengths_def ones_field_def zero_field_def)

lemma ones_zero_differ: "r00 ones_field ! 14 = 1" "r00 zero_field ! 14 = 0"
  by (simp_all add: ones_field_def zero_field_def)

text \<open>With blocks of 128 by 128 the tile is one band of one block.\<close>

lemma run_kernel_on_halo_56x128:
  "run_kernel_on_halo kernel_56x128 = Inr (kernel_56x128\<lparr>gen1 := ones_field\<rparr>)"
  using one_block_unit[OF field_lengths, of 1]
  by (simp add: run_kernel_on_halo_def run_kernel_on_halo_blocks_def BLOCK_WIDTH_def BLOCK_HEIGHT_def
      band_def kernel_56x128_fields gen_def set_gen_def)

lemma run_kernel_128_flip:
  assumes "tile_height k = 128"
  shows "run_kernel k = Inr (k\<lparr>sense := 1 - sense k\<rparr>)"
  using assms
  by (simp add: run_kernel_def run_kernel_blocks_def BLOCK_WIDTH_def BLOCK_HEIGHT_def for_blocks_exit)

text \<open>With blocks of 32 by 32 it is five bands of two side blocks each, and no middle block.\<close>

lemma inner_band_32:
  "process_band_sse ry rh wo wh 32 32 56 4 a b cur nxt 1 0 = Inr nxt"
  by (simp add: process_band_sse_def Let_def for_blocks_exit)

lemma run_kernel_on_halo_32:
  "\<exists>nxt. run_kernel_on_halo_blocks 32 32 kernel_56x128 = Inr (kernel_56x128\<lparr>gen1 := nxt\<rparr>) \<and>
         plane_lengths nxt 1792 \<and> r00 nxt ! 14 = 0"
proof -
  note c = field_lengths(1)
  obtain n1 where n1: "process_band_sse 24 32 4 24 32 32 56 4 1 0 ones_field zero_field 0 1 = Inr n1"
    "plane_lengths n1 1792" "r00 n1 ! 14 = r00 zero_field ! 14"
    using gap_band[OF c field_lengths(2), of 32 16 24 12 24 12 2 4 0] by auto
  obtain n2 where n2: "process_band_sse 48 32 4 24 32 32 56 4 1 0 ones_field n1 0 1 = Inr n2"
    "plane_lengths n2 1792" "r00 n2 ! 14 = r00 n1 ! 14"
    using gap_band[OF c n1(2), of 32 16 48 24 24 12 2 4 0] by auto
  obtain n3 where n3: "process_band_sse 72 32 4 24 32 32 56 4 1 0 ones_field n2 0 1 = Inr n3"
    "plane_lengths n3 1792" "r00 n3 ! 14 = r00 n2 ! 14"
    using gap_band[OF c n2(2), of 32 16 72 36 24 12 2 4 0] by auto
  obtain n4 where n4: "process_band_sse 0 32 0 28 32 32 56 4 1 0 ones_field n3 1 1 = Inr n4"
    "plane_lengths n4 1792" "r00 n4 ! 14 = r00 n3 ! 14"
    using gap_band[OF c n3(2), of 32 16 0 0 28 14 0 0 1] by auto
  obtain n5 where n5: "process_band_sse 96 32 4 28 32 32 56 4 1 0 ones_field n4 1 1 = Inr n5"
    "plane_lengths n5 1792" "r00 n5 ! 14 = r00 n4 ! 14"
    using gap_band[OF c n4(2), of 32 16 96 48 28 14 2 4 1] by auto
  have "run_kernel_on_halo_blocks 32 32 kernel_56x128 = Inr (kernel_56x128\<lparr>gen1 := n5\<rparr>)"
    using n1(1) n2(1) n3(1) n4(1) n5(1)
    by (simp add: run_kernel_on_halo_blocks_def kernel_56x128_fields loop_fuel_def
        for_blocks_unfold band_def gen_def set_gen_def)
  moreover have "r00 n5 ! 14 = 0"
    using n1(3) n2(3) n3(3) n4(3) n5(3) ones_zero_differ(2) by simp
  ultimately show ?thesis using n5(2) by blast
qed

lemma run_kernel_32:
  assumes "tile_height k = 128" "tile_width k = 56" "halo_x k = 4" "halo_y k = 4" "sense k = 0"
  shows "run_kernel_blocks 32 32 k = Inr (k\<lparr>sense := 1\<rparr>)"
proof -
  have "k\<lparr>gen1 := gen1 k\<rparr> = k" by simp
  then show ?thesis
    using assms
    by (simp add: run_kernel_blocks_def loop_fuel_def for_blocks_unfold band_def gen_def set_gen_def
      inner_band_32)
qed


lemma pack_quadrant_const:
  assumes "even W" "(H div 2) * (W div 2) = m" "H * W \<le> n" "even H" "di < 2" "dj < 2"
  shows "pack_quadrant (replicate n c) W H di dj (replicate m z) = replicate m c"
proof (rule nth_equalityI)
  show "length (pack_quadrant (replicate n c) W H di dj (replicate m z)) = length (replicate m c)"
    by (simp add: pack_quadrant_length)
  fix k assume "k < length (pack_quadrant (replicate n c) W H di dj (replicate m z))"
  then have k: "k < (H div 2) * (W div 2)" by (simp add: pack_quadrant_length assms(2))
  then have W: "0 < W div 2" by (cases "W div 2") auto
  let ?i = "k div (W div 2)" and ?j = "k mod (W div 2)"
  have i: "?i < H div 2" using k by (simp add: less_mult_imp_div_less)
  have j: "?j < W div 2" using W by simp
  have "2 * ?i + di < H" using i assms(4,5) by (auto elim!: evenE)
  then have "Suc (2 * ?i + di) * W \<le> H * W" by (intro mult_le_mono1) simp
  moreover have "2 * ?j + dj < W" using j assms(1,6) by (auto elim!: evenE)
  ultimately have b: "(2 * ?i + di) * W + 2 * ?j + dj < n" using assms(3) by simp
  have "pack_quadrant (replicate n c) W H di dj (replicate m z) ! (?i * (W div 2) + ?j)
          = replicate n c ! ((2 * ?i + di) * W + 2 * ?j + dj)"
    by (rule pack_quadrant_nth[OF assms(1) i j]) (simp add: assms(2))
  moreover have "?i * (W div 2) + ?j = k" by (rule div_mult_mod_eq)
  ultimately show "pack_quadrant (replicate n c) W H di dj (replicate m z) ! k = replicate m c ! k"
    using b k assms(2) by (simp only: nth_replicate)
qed

lemma kernel_56x128_constructed:
  "CPUBlockSSEKernel (replicate 7168 1) (replicate 7168 0) 1 0 56 128 4 4 = Inr kernel_56x128"
proof -
  have p: "pack_quadrant (replicate 7168 c) 56 128 di dj (replicate 1792 0) = replicate 1792 c"
    if "di < 2" "dj < 2" for c :: real and di dj
    by (rule pack_quadrant_const) (use that in simp_all)
  show ?thesis
    by (simp add: CPUBlockSSEKernel_def Let_def kernel_56x128_def ones_field_def zero_field_def p)
qed

section \<open>A tile lower than one block\<close>

definition zero_planes :: "nat \<Rightarrow> planes" where
  "zero_planes n = \<lparr>r00 = replicate n 0, r01 = replicate n 0, r10 = replicate n 0,
                     r11 = replicate n 0, i00 = replicate n 0, i01 = replicate n 0,
                     i10 = replicate n 0, i11 = replicate n 0\<rparr>"

definition kernel_256x64 :: kernel where
  "kernel_256x64 = \<lparr>coeff_a = 1, coeff_b = 0, tile_width = 256, tile_height = 64, halo_x = 4,
     halo_y = 4, sense = 0, gen0 = zero_planes 4096, gen1 = zero_planes 4096,
     start_x = 0, inner_end_x = 0, start_y = 0, inner_start_y = 0, inner_end_y = 0\<rparr>"

lemma kernel_256x64_constructed:
  "CPUBlockSSEKernel (replicate 16384 0) (replicate 16384 0) 1 0 256 64 4 4 = Inr kernel_256x64"
proof -
  have p: "pack_quadrant (replicate 16384 c) 256 64 di dj (replicate 4096 0) = replicate 4096 c"
    if "di < 2" "dj < 2" for c :: real and di dj
    by (rule pack_quadrant_const) (use that in simp_all)
  show ?thesis
    by (simp add: CPUBlockSSEKernel_def Let_def kernel_256x64_def zero_planes_def p)
qed

lemma first_band_256x64:
  "band 128 128 kernel_256x64 120 128 4 120 1 0 = Inl OutOfBounds"
proof -
  have "memcpy2D (r00 (block_buffers 128 128)) 0 256 (r00 (zero_planes 4096)) 7740 512 256 64
          = Inl OutOfBounds"
    by (simp add: memcpy2D_def rows_in_bounds_def block_buffers_def Let_def zero_planes_def)
  then have "memcpy2D_planes (block_buffers 128 128) 0 256 (zero_planes 4096) 7740 512 256 64
          = Inl OutOfBounds"
    by (simp add: memcpy2D_planes_def)
  then show ?thesis
    by (simp add: band_def kernel_256x64_def gen_def process_band_sse_def Let_def sizeof_float_def
        loop_fuel_def for_blocks_unfold)
qed

text \<open>
  Claim C10. On the tile of 256 by 64 sites, whose height is below the block height, the
  bound \<^verbatim>\<open>tile_height - block_height\<close> of the loop of \<^verbatim>\<open>run_kernel\<close> wraps to
  \<open>2\<^sup>6\<^sup>4 - 64\<close>, the loop is entered at \<^verbatim>\<open>block_start = 120\<close>, and its first band
  reads 64 rows of the current generation from the row 60 on, beyond the 32 rows that the
  arrays have.
\<close>

theorem run_kernel_low_tile:
  "tile_height kernel_256x64 \<le> BLOCK_HEIGHT \<and>
   BLOCK_HEIGHT - 2 * halo_y kernel_256x64 < tile_height kernel_256x64 - BLOCK_HEIGHT \<and>
   run_kernel kernel_256x64 = Inl OutOfBounds"
proof -
  have f: "tile_height kernel_256x64 = 64" "halo_y kernel_256x64 = 4"
    by (simp_all add: kernel_256x64_def)
  show ?thesis
    using first_band_256x64
    by (simp add: run_kernel_def run_kernel_blocks_def BLOCK_WIDTH_def BLOCK_HEIGHT_def f
        loop_fuel_def for_blocks_unfold)
qed


lemma run_passes_Inl:
  "run_passes stride width height a b xs p = Inl e \<Longrightarrow> e = OutOfBounds"
proof (induction xs arbitrary: p)
  case Nil
  then show ?case by simp
next
  case (Cons x xs)
  show ?case
  proof (cases "apply_pass stride width height a b x p")
    case (Inl e')
    then have "e' = e" using Cons.prems by simp
    then show ?thesis using Inl
      by (cases x) (auto simp: bind_res_def split: sum.splits prod.splits
          dest: update_shifty_sse_Inl update_shiftx_sse_Inl)
  next
    case (Inr q)
    then show ?thesis using Cons by simp
  qed
qed

lemma full_step_sse_Inl:
  "full_step_sse stride width height a b p = Inl e \<Longrightarrow> e = OutOfBounds"
  unfolding full_step_sse_def by (rule run_passes_Inl)

lemma low_tile_write:
  "memcpy2D (r00 (gen1 kernel_256x64)) 7998 512 src 130 256 240 60 = Inl OutOfBounds"
  by (simp add: memcpy2D_def rows_in_bounds_def kernel_256x64_def zero_planes_def)

lemma low_tile_band:
  "band 128 128 (kernel_256x64\<lparr>gen0 := cur\<rparr>) 120 128 4 120 1 0 = Inl OutOfBounds"
proof -
  have w: "memcpy2D_planes (zero_planes 4096) 7998 512 blk 130 256 240 60 = Inl OutOfBounds" for blk
    using low_tile_write[of "r00 blk"]
    by (simp add: memcpy2D_planes_def kernel_256x64_def)
  have "bind_res (memcpy2D_planes (block_buffers 128 128) 0 256 cur 7740 512 256 64)
          (\<lambda>blk. bind_res (full_step_sse 64 64 64 1 0 blk)
             (\<lambda>blk. bind_res (memcpy2D_planes (zero_planes 4096) 7998 512 blk 130 256 240 60)
                (\<lambda>nxt. Inr (nxt, blk)))) = Inl OutOfBounds"
  proof (cases "memcpy2D_planes (block_buffers 128 128) 0 256 cur 7740 512 256 64")
    case (Inl e)
    then show ?thesis using memcpy2D_planes_Inl[OF Inl] by simp
  next
    case (Inr blk)
    show ?thesis
    proof (cases "full_step_sse 64 64 64 1 0 blk")
      case (Inl e)
      then show ?thesis using full_step_sse_Inl[OF Inl] Inr by simp
    next
      case r: (Inr blk')
      show ?thesis using Inr r w by simp
    qed
  qed
  then show ?thesis
    by (simp add: band_def kernel_256x64_def gen_def process_band_sse_def Let_def sizeof_float_def
        loop_fuel_def for_blocks_unfold)
qed

text \<open>
  Claim C9. On the tile of 256 by 64 sites the first band of \<^verbatim>\<open>run_kernel\<close> copies its
  result into the next generation from float \<open>(60 + 2) * 128 + 62 = 7998\<close> on, in
  arrays that hold 4096 floats: the write lands outside the planes of the other
  generation. Whatever the arrays of the current generation hold, and however long they
  are, the call does not complete.
\<close>

theorem low_tile_write_outside:
  "memcpy2D (r00 (gen1 kernel_256x64)) 7998 512 src 130 256 240 60 = Inl OutOfBounds \<and>
   run_kernel (kernel_256x64\<lparr>gen0 := cur\<rparr>) = Inl OutOfBounds"
proof -
  have f: "tile_height kernel_256x64 = 64" "halo_y kernel_256x64 = 4"
    by (simp_all add: kernel_256x64_def)
  show ?thesis
    using low_tile_band[of cur] low_tile_write[of src]
    by (simp add: run_kernel_def run_kernel_blocks_def BLOCK_WIDTH_def BLOCK_HEIGHT_def f
        loop_fuel_def for_blocks_unfold)
qed


section \<open>A tile of 248 columns in blocks of 128\<close>

definition ones_planes :: "nat \<Rightarrow> planes" where
  "ones_planes n = \<lparr>r00 = replicate n 1, r01 = replicate n 1, r10 = replicate n 1,
                     r11 = replicate n 1, i00 = replicate n 0, i01 = replicate n 0,
                     i10 = replicate n 0, i11 = replicate n 0\<rparr>"

definition kernel_248x128 :: kernel where
  "kernel_248x128 = \<lparr>coeff_a = 1, coeff_b = 0, tile_width = 248, tile_height = 128, halo_x = 4,
     halo_y = 4, sense = 0, gen0 = ones_planes 7936, gen1 = zero_planes 7936,
     start_x = 0, inner_end_x = 0, start_y = 0, inner_start_y = 0, inner_end_y = 0\<rparr>"

lemma kernel_248x128_constructed:
  "CPUBlockSSEKernel (replicate 31744 1) (replicate 31744 0) 1 0 248 128 4 4 = Inr kernel_248x128"
proof -
  have p: "pack_quadrant (replicate 31744 c) 248 128 di dj (replicate 7936 0) = replicate 7936 c"
    if "di < 2" "dj < 2" for c :: real and di dj
    by (rule pack_quadrant_const) (use that in simp_all)
  show ?thesis
    by (simp add: CPUBlockSSEKernel_def Let_def kernel_248x128_def zero_planes_def ones_planes_def p)
qed

lemma planes_lengths: "plane_lengths (ones_planes n) n" "plane_lengths (zero_planes n) n"
  by (simp_all add: plane_lengths_def ones_planes_def zero_planes_def)

text \<open>
  The band of a tile 248 wide in blocks of 128 with a halo of 4: the first block writes the
  quadrant columns 0 to 61, the loop of the middle blocks starts at \<open>120\<close> with the bound
  \<open>248 - 128 = 120\<close> and makes no iteration, and the last block starts at
  \<open>((248 - 128) / 120 + 1) * 120 = 240\<close> and writes the columns 122 and 123. The columns
  62 to 121 keep what the next generation held.
\<close>

lemma gap_band_248:
  assumes cur: "plane_lengths cur 7936" and nxt: "plane_lengths nxt 7936"
  shows "\<exists>nxt'. process_band_sse 0 128 0 128 128 128 248 4 1 0 cur nxt 1 1 = Inr nxt' \<and>
           plane_lengths nxt' 7936 \<and> r00 nxt' ! 62 = r00 nxt ! 62"
proof -
  let ?blk = "block_buffers 128 128"
  have bl: "plane_lengths ?blk 4096" using block_buffers_lengths[of 128 128] by simp
  obtain blk1 where m1: "memcpy2D_planes ?blk 0 256 cur 0 496 256 64 = Inr blk1"
    using memcpy2D_planes_defined[OF bl cur, of 0 256 256 64 0 496]
    by (auto simp: rows_in_bounds_def)
  have bl1: "plane_lengths blk1 4096" by (rule memcpy2D_planes_lengths[OF m1 bl])
  have f1: "full_step_sse 64 64 64 1 0 blk1 = Inr blk1"
    by (rule full_step_sse_unit[OF _ bl1]) (simp add: step_fits_def)
  obtain nxt1 where m2: "memcpy2D_planes nxt 0 496 blk1 0 256 248 64 = Inr nxt1"
    using memcpy2D_planes_defined[OF nxt bl1, of 0 496 248 64 0 256]
    by (auto simp: rows_in_bounds_def)
  have nl1: "plane_lengths nxt1 7936" by (rule memcpy2D_planes_lengths[OF m2 nxt])
  have g1: "r00 nxt1 ! 62 = r00 nxt ! 62"
  proof -
    have "r00 nxt1 ! (0 * 124 + 62) = r00 nxt ! (0 * 124 + 62)"
      by (rule memcpy2D_column_other[OF memcpy2D_planes_Inr(1)[OF m2],
          where r = 0 and cl = 0]) simp_all
    then show ?thesis by simp
  qed
  obtain blk2 where m3: "memcpy2D_planes blk1 0 256 cur 120 496 16 64 = Inr blk2"
    using memcpy2D_planes_defined[OF bl1 cur, of 0 256 16 64 120 496]
    by (auto simp: rows_in_bounds_def)
  have bl2: "plane_lengths blk2 4096" by (rule memcpy2D_planes_lengths[OF m3 bl1])
  have f2: "full_step_sse 64 4 64 1 0 blk2 = Inr blk2"
    by (rule full_step_sse_unit[OF _ bl2]) (simp add: step_fits_def)
  obtain nxt2 where m4: "memcpy2D_planes nxt1 122 496 blk2 2 256 8 64 = Inr nxt2"
    using memcpy2D_planes_defined[OF nl1 bl2, of 122 496 8 64 2 256]
    by (auto simp: rows_in_bounds_def)
  have nl2: "plane_lengths nxt2 7936" by (rule memcpy2D_planes_lengths[OF m4 nl1])
  have g2: "r00 nxt2 ! 62 = r00 nxt1 ! 62"
  proof -
    have "r00 nxt2 ! (0 * 124 + 62) = r00 nxt1 ! (0 * 124 + 62)"
      by (rule memcpy2D_column_other[OF memcpy2D_planes_Inr(1)[OF m4],
          where r = 0 and cl = 122]) simp_all
    then show ?thesis by simp
  qed
  have "process_band_sse 0 128 0 128 128 128 248 4 1 0 cur nxt 1 1 = Inr nxt2"
    using m1 f1 m2 m3 f2 m4
    by (simp add: process_band_sse_def process_sides_sse_def Let_def sizeof_float_def
        for_blocks_exit)
  then show ?thesis using nl2 g1 g2 by simp
qed

lemma run_kernel_on_halo_248x128:
  "\<exists>nxt. run_kernel_on_halo kernel_248x128 = Inr (kernel_248x128\<lparr>gen1 := nxt\<rparr>) \<and> r00 nxt ! 62 = 0"
proof -
  obtain nxt where n: "process_band_sse 0 128 0 128 128 128 248 4 1 0 (ones_planes 7936)
      (zero_planes 7936) 1 1 = Inr nxt" "r00 nxt ! 62 = r00 (zero_planes 7936) ! 62"
    using gap_band_248[OF planes_lengths] by blast
  have "run_kernel_on_halo kernel_248x128 = Inr (kernel_248x128\<lparr>gen1 := nxt\<rparr>)"
    using n(1)
    by (simp add: run_kernel_on_halo_def run_kernel_on_halo_blocks_def BLOCK_WIDTH_def
        BLOCK_HEIGHT_def band_def kernel_248x128_def gen_def set_gen_def)
  moreover have "r00 nxt ! 62 = 0" using n(2) by (simp add: zero_planes_def)
  ultimately show ?thesis by blast
qed

section \<open>One iteration\<close>

text \<open>
  The two kernel calls of one iteration in the order the kernel is written for:
  \<^verbatim>\<open>run_kernel_on_halo\<close>, then \<^verbatim>\<open>run_kernel\<close>, which ends with the flip of
  \<^verbatim>\<open>sense\<close>; and a cell of the array \<^verbatim>\<open>r00[sense]\<close> of the result.
\<close>

definition kernel_calls :: "size_t \<Rightarrow> size_t \<Rightarrow> kernel \<Rightarrow> error + kernel" where
  "kernel_calls block_width block_height k =
     bind_res (run_kernel_on_halo_blocks block_width block_height k)
       (run_kernel_blocks block_width block_height)"

definition current_r00 :: "error + kernel \<Rightarrow> nat \<Rightarrow> real option" where
  "current_r00 r n = (case r of Inl e \<Rightarrow> None | Inr k \<Rightarrow> Some (r00 (gen k (sense k)) ! n))"

text \<open>
  Claim C6. The field that is 1 at every site stays as it is under a full step with the
  coefficients \<open>a = 1\<close>, \<open>b = 0\<close>. On the tile of 56 by 128 sites with a halo of 4, one
  iteration in blocks of 128 gives the value 1 in the cell 14 of \<^verbatim>\<open>r00\<close> (row 0,
  column 28 of the tile), and one iteration in blocks of 32 leaves there the 0 that the
  other generation held before. On the tile of 248 by 128 sites the blocks of 128 leave
  the cell 62 (row 0, column 124) at 0. Both kernels are what the constructor builds from
  the field of ones (\<open>kernel_56x128_constructed\<close>, \<open>kernel_248x128_constructed\<close>).
\<close>

theorem block_size_visible:
  "current_r00 (kernel_calls 128 128 kernel_56x128) 14 = Some 1 \<and>
   current_r00 (kernel_calls 32 32 kernel_56x128) 14 = Some 0 \<and>
   current_r00 (kernel_calls BLOCK_WIDTH BLOCK_HEIGHT kernel_248x128) 62 = Some 0 \<and>
   full_step_sse 124 124 64 1 0 (gen0 kernel_248x128) = Inr (gen0 kernel_248x128) \<and>
   r00 (gen0 kernel_248x128) ! 62 = 1"
proof -
  have a: "kernel_calls 128 128 kernel_56x128 = Inr (kernel_56x128\<lparr>gen1 := ones_field, sense := 1\<rparr>)"
    using run_kernel_on_halo_56x128 run_kernel_128_flip[of "kernel_56x128\<lparr>gen1 := ones_field\<rparr>"]
    by (simp add: kernel_calls_def run_kernel_on_halo_def run_kernel_def BLOCK_WIDTH_def
        BLOCK_HEIGHT_def kernel_56x128_fields)
  obtain n32 where b: "run_kernel_on_halo_blocks 32 32 kernel_56x128 = Inr (kernel_56x128\<lparr>gen1 := n32\<rparr>)"
    "r00 n32 ! 14 = 0"
    using run_kernel_on_halo_32 by blast
  have b': "kernel_calls 32 32 kernel_56x128 = Inr (kernel_56x128\<lparr>gen1 := n32, sense := 1\<rparr>)"
    using b(1) run_kernel_32[of "kernel_56x128\<lparr>gen1 := n32\<rparr>"]
    by (simp add: kernel_calls_def kernel_56x128_fields)
  obtain n248 where c: "run_kernel_on_halo kernel_248x128 = Inr (kernel_248x128\<lparr>gen1 := n248\<rparr>)"
    "r00 n248 ! 62 = 0"
    using run_kernel_on_halo_248x128 by blast
  have c': "kernel_calls BLOCK_WIDTH BLOCK_HEIGHT kernel_248x128
              = Inr (kernel_248x128\<lparr>gen1 := n248, sense := 1\<rparr>)"
    using c(1) run_kernel_128_flip[of "kernel_248x128\<lparr>gen1 := n248\<rparr>"]
    by (simp add: kernel_calls_def run_kernel_on_halo_def run_kernel_def kernel_248x128_def)
  have d: "full_step_sse 124 124 64 1 0 (ones_planes 7936) = Inr (ones_planes 7936)"
    by (rule full_step_sse_unit[OF _ planes_lengths(1)]) (simp add: step_fits_def)
  have e: "gen0 kernel_248x128 = ones_planes 7936" by (simp add: kernel_248x128_def)
  show ?thesis
    unfolding a b' c' e
    using b(2) c(2) d
    by (simp add: current_r00_def gen_def ones_field_def ones_planes_def)
qed


text \<open>The generation index of the array that a transfer addresses.\<close>

fun buffer_of :: "mpi_call \<Rightarrow> int option" where
  "buffer_of (MPI_Irecv x s off t n tag r) = Some s"
| "buffer_of (MPI_Isend x s off t n tag r) = Some s"
| "buffer_of (MPI_Waitall n) = None"

lemma start_halo_exchange_buffer:
  "set (map buffer_of (start_halo_exchange k)) = {Some (1 - sense k)}"
  by (simp add: start_halo_exchange_def Let_def)

lemma finish_halo_exchange_buffer:
  "set (map buffer_of (finish_halo_exchange k)) = {None, Some (sense k)}"
  by (auto simp: finish_halo_exchange_def Let_def)

lemma run_kernel_on_halo_flipped_56x128:
  "run_kernel_on_halo (kernel_56x128\<lparr>sense := 1\<rparr>)
     = Inr (kernel_56x128\<lparr>sense := 1, gen0 := zero_field\<rparr>)"
  using one_block_unit[OF field_lengths(2) field_lengths(1), of 1]
  by (simp add: run_kernel_on_halo_def run_kernel_on_halo_blocks_def BLOCK_WIDTH_def BLOCK_HEIGHT_def
      band_def kernel_56x128_def gen_def set_gen_def)


section \<open>A pass on the cells of a grid\<close>

lemma in_pass_cells:
  assumes "n \<le> B" "j < B"
  shows "i * B + j \<in> set (pass_cells B n rows) \<longleftrightarrow> i < rows \<and> j < n"
proof
  assume "i * B + j \<in> set (pass_cells B n rows)"
  then obtain i' j' where c: "i' < rows" "j' < n" "i * B + j = i' * B + j'"
    unfolding set_pass_cells by blast
  have "j' < B" using c(2) assms(1) by simp
  then have "i = i' \<and> j = j'"
    using row_major_inj[of B B j j' 0 i i'] assms(2) c(3) by simp
  then show "i < rows \<and> j < n" using c by simp
next
  assume "i < rows \<and> j < n"
  then show "i * B + j \<in> set (pass_cells B n rows)"
    unfolding set_pass_cells by blast
qed

lemma partner_pass_cells:
  assumes "n + ox \<le> B" "j < B"
  shows "(oy * B + ox \<le> i * B + j \<and> i * B + j - (oy * B + ox) \<in> set (pass_cells B n rows))
           \<longleftrightarrow> oy \<le> i \<and> ox \<le> j \<and> i - oy < rows \<and> j - ox < n"
proof
  assume a: "oy * B + ox \<le> i * B + j \<and> i * B + j - (oy * B + ox) \<in> set (pass_cells B n rows)"
  then obtain i' j' where c: "i' < rows" "j' < n" "i * B + j - (oy * B + ox) = i' * B + j'"
    unfolding set_pass_cells by blast
  have "i * B + j = i' * B + j' + (oy * B + ox)" using a c(3) by linarith
  then have "i * B + j = (i' + oy) * B + (j' + ox)" by (simp add: add_mult_distrib)
  moreover have "j' + ox < B" using c(2) assms(1) by simp
  ultimately have "i = i' + oy \<and> j = j' + ox"
    using row_major_inj[of B B j "j' + ox" 0 i "i' + oy"] assms(2) by simp
  then show "oy \<le> i \<and> ox \<le> j \<and> i - oy < rows \<and> j - ox < n" using c by simp
next
  assume a: "oy \<le> i \<and> ox \<le> j \<and> i - oy < rows \<and> j - ox < n"
  have le: "oy * B \<le> i * B" using a by (intro mult_le_mono1) simp
  have "i * B = (i - oy) * B + oy * B" using a by (simp add: diff_mult_distrib)
  then have e: "i * B + j - (oy * B + ox) = (i - oy) * B + (j - ox)" using a by simp
  have "(i - oy) * B + (j - ox) \<in> set (pass_cells B n rows)"
    unfolding set_pass_cells using a by blast
  moreover have "oy * B + ox \<le> i * B + j" using a le by (intro add_mono) simp_all
  ultimately show "oy * B + ox \<le> i * B + j \<and> i * B + j - (oy * B + ox) \<in> set (pass_cells B n rows)"
    unfolding e by simp
qed

text \<open>
  The value of each array after a pass, at the cell of row \<open>i\<close> and column \<open>j\<close> of a
  grid of \<open>B\<close> columns. The pass couples the cell \<open>(i, j)\<close> of the first pair of arrays
  with the cell \<open>(i + oy, j + ox)\<close> of the second pair, for \<open>i < rows\<close> and \<open>j < n\<close>.
\<close>

lemma rot_spec_at:
  assumes "n + ox \<le> B" "j < B"
    and r: "rot_spec a b (set (pass_cells B n rows)) (oy * B + ox) (r1, i1, r2, i2) = (r1', i1', r2', i2')"
  shows "i * B + j < length r1 \<Longrightarrow> r1' ! (i * B + j) =
           (if i < rows \<and> j < n then a * r1 ! (i * B + j) - b * i2 ! ((i + oy) * B + (j + ox))
            else r1 ! (i * B + j))"
    and "i * B + j < length i1 \<Longrightarrow> i1' ! (i * B + j) =
           (if i < rows \<and> j < n then a * i1 ! (i * B + j) + b * r2 ! ((i + oy) * B + (j + ox))
            else i1 ! (i * B + j))"
    and "i * B + j < length r2 \<Longrightarrow> r2' ! (i * B + j) =
           (if oy \<le> i \<and> ox \<le> j \<and> i - oy < rows \<and> j - ox < n
            then a * r2 ! (i * B + j) - b * i1 ! ((i - oy) * B + (j - ox))
            else r2 ! (i * B + j))"
    and "i * B + j < length i2 \<Longrightarrow> i2' ! (i * B + j) =
           (if oy \<le> i \<and> ox \<le> j \<and> i - oy < rows \<and> j - ox < n
            then a * i2 ! (i * B + j) + b * r1 ! ((i - oy) * B + (j - ox))
            else i2 ! (i * B + j))"
proof -
  have n: "n \<le> B" using assms(1) by simp
  note c = in_pass_cells[OF n assms(2), of i rows]
  note p = partner_pass_cells[OF assms(1,2), of oy i rows]
  have f: "i * B + j + (oy * B + ox) = (i + oy) * B + (j + ox)" by (simp add: add_mult_distrib)
  have g: "i * B + j - (oy * B + ox) = (i - oy) * B + (j - ox)" if "oy \<le> i" "ox \<le> j"
  proof -
    have "i * B = (i - oy) * B + oy * B" using that by (simp add: diff_mult_distrib)
    then show ?thesis using that by simp
  qed
  from r have e: "r1' = map (\<lambda>k. if k \<in> set (pass_cells B n rows) then a * r1 ! k - b * i2 ! (k + (oy * B + ox)) else r1 ! k) [0..<length r1]"
    "i1' = map (\<lambda>k. if k \<in> set (pass_cells B n rows) then a * i1 ! k + b * r2 ! (k + (oy * B + ox)) else i1 ! k) [0..<length i1]"
    "r2' = map (\<lambda>k. if oy * B + ox \<le> k \<and> k - (oy * B + ox) \<in> set (pass_cells B n rows) then a * r2 ! k - b * i1 ! (k - (oy * B + ox)) else r2 ! k) [0..<length r2]"
    "i2' = map (\<lambda>k. if oy * B + ox \<le> k \<and> k - (oy * B + ox) \<in> set (pass_cells B n rows) then a * i2 ! k + b * r1 ! (k - (oy * B + ox)) else i2 ! k) [0..<length i2]"
    by (simp_all add: rot_spec_def)
  have v1: "r1' ! k = (if k \<in> set (pass_cells B n rows) then a * r1 ! k - b * i2 ! (k + (oy * B + ox)) else r1 ! k)"
    if "k < length r1" for k using that unfolding e(1) by simp
  have v2: "i1' ! k = (if k \<in> set (pass_cells B n rows) then a * i1 ! k + b * r2 ! (k + (oy * B + ox)) else i1 ! k)"
    if "k < length i1" for k using that unfolding e(2) by simp
  have v3: "r2' ! k = (if oy * B + ox \<le> k \<and> k - (oy * B + ox) \<in> set (pass_cells B n rows) then a * r2 ! k - b * i1 ! (k - (oy * B + ox)) else r2 ! k)"
    if "k < length r2" for k using that unfolding e(3) by simp
  have v4: "i2' ! k = (if oy * B + ox \<le> k \<and> k - (oy * B + ox) \<in> set (pass_cells B n rows) then a * i2 ! k + b * r1 ! (k - (oy * B + ox)) else i2 ! k)"
    if "k < length i2" for k using that unfolding e(4) by simp
  show "r1' ! (i * B + j) =
           (if i < rows \<and> j < n then a * r1 ! (i * B + j) - b * i2 ! ((i + oy) * B + (j + ox))
            else r1 ! (i * B + j))" if "i * B + j < length r1"
    using v1[OF that] unfolding c f .
  show "i1' ! (i * B + j) =
           (if i < rows \<and> j < n then a * i1 ! (i * B + j) + b * r2 ! ((i + oy) * B + (j + ox))
            else i1 ! (i * B + j))" if "i * B + j < length i1"
    using v2[OF that] unfolding c f .
  show "r2' ! (i * B + j) =
           (if oy \<le> i \<and> ox \<le> j \<and> i - oy < rows \<and> j - ox < n
            then a * r2 ! (i * B + j) - b * i1 ! ((i - oy) * B + (j - ox))
            else r2 ! (i * B + j))" if "i * B + j < length r2"
    using v3[OF that] g unfolding p by (simp split: if_splits)
  show "i2' ! (i * B + j) =
           (if oy \<le> i \<and> ox \<le> j \<and> i - oy < rows \<and> j - ox < n
            then a * i2 ! (i * B + j) + b * r1 ! ((i - oy) * B + (j - ox))
            else i2 ! (i * B + j))" if "i * B + j < length i2"
    using v4[OF that] g unfolding p by (simp split: if_splits)
qed


section \<open>A block as a window of the tile\<close>

text \<open>
  A window of \<open>win_rows\<close> by \<open>win_cols\<close> cells, kept in arrays of \<open>win_stride\<close> columns,
  that shows the cells from row \<open>row0\<close> and column \<open>col0\<close> on of a field of \<open>fld_rows\<close> by
  \<open>fld_cols\<close> cells, kept in arrays of \<open>fld_stride\<close> columns.
\<close>

record geometry =
  win_stride :: nat
  win_rows :: nat
  win_cols :: nat
  fld_stride :: nat
  fld_rows :: nat
  fld_cols :: nat
  row0 :: nat
  col0 :: nat

definition geometry_ok :: "geometry \<Rightarrow> bool" where
  "geometry_ok g = (1 \<le> win_rows g \<and> 1 \<le> win_cols g \<and> win_cols g \<le> win_stride g \<and>
     fld_cols g \<le> fld_stride g \<and> row0 g + win_rows g \<le> fld_rows g \<and>
     col0 g + win_cols g \<le> fld_cols g)"

text \<open>
  The cells of the window that lie at least \<open>t, b, l, r\<close> cells from its top, bottom,
  left and right edge; an edge of the window that is an edge of the field needs no
  distance.
\<close>

type_synonym margins = "nat \<times> nat \<times> nat \<times> nat"

definition inside :: "geometry \<Rightarrow> margins \<Rightarrow> nat \<Rightarrow> nat \<Rightarrow> bool" where
  "inside g m i j = (case m of (t, b, l, r) \<Rightarrow>
     i < win_rows g \<and> j < win_cols g \<and>
     (row0 g = 0 \<or> t \<le> i) \<and> (row0 g + win_rows g = fld_rows g \<or> i + b < win_rows g) \<and>
     (col0 g = 0 \<or> l \<le> j) \<and> (col0 g + win_cols g = fld_cols g \<or> j + r < win_cols g))"

definition agrees :: "geometry \<Rightarrow> margins \<Rightarrow> plane \<Rightarrow> plane \<Rightarrow> bool" where
  "agrees g m w f = (\<forall>i j. inside g m i j \<longrightarrow>
     w ! (i * win_stride g + j) = f ! ((row0 g + i) * fld_stride g + (col0 g + j)))"

definition grow_first :: "nat \<Rightarrow> nat \<Rightarrow> margins \<Rightarrow> margins \<Rightarrow> margins" where
  "grow_first oy ox m1 m2 = (case m1 of (t1, b1, l1, r1) \<Rightarrow> case m2 of (t2, b2, l2, r2) \<Rightarrow>
     (max t1 (t2 - oy), max b1 (b2 + oy), max l1 (l2 - ox), max r1 (r2 + ox)))"

definition grow_second :: "nat \<Rightarrow> nat \<Rightarrow> margins \<Rightarrow> margins \<Rightarrow> margins" where
  "grow_second oy ox m1 m2 = (case m1 of (t1, b1, l1, r1) \<Rightarrow> case m2 of (t2, b2, l2, r2) \<Rightarrow>
     (max t2 (t1 + oy), max b2 (b1 - oy), max l2 (l1 + ox), max r2 (r1 - ox)))"

lemma inside_first:
  assumes "geometry_ok g" "oy \<le> 1" "ox \<le> 1" "inside g (grow_first oy ox m1 m2) i j"
  shows "inside g m1 i j"
    and "(i < win_rows g - oy \<and> j < win_cols g - ox) \<longleftrightarrow>
         (row0 g + i < fld_rows g - oy \<and> col0 g + j < fld_cols g - ox)"
    and "i < win_rows g - oy \<and> j < win_cols g - ox \<Longrightarrow> inside g m2 (i + oy) (j + ox)"
proof -
  obtain t1 b1 l1 r1 where m1: "m1 = (t1, b1, l1, r1)" by (cases m1) auto
  obtain t2 b2 l2 r2 where m2: "m2 = (t2, b2, l2, r2)" by (cases m2) auto
  note a = assms(4)[unfolded inside_def grow_first_def m1 m2 prod.case]
  note g = assms(1)[unfolded geometry_ok_def]
  have i: "i < win_rows g" and j: "j < win_cols g" using a by simp_all
  have t: "row0 g = 0 \<or> (t1 \<le> i \<and> t2 \<le> i + oy)" using a by auto
  have b: "row0 g + win_rows g = fld_rows g \<or> (i + b1 < win_rows g \<and> i + b2 + oy < win_rows g)"
    using a by auto
  have l: "col0 g = 0 \<or> (l1 \<le> j \<and> l2 \<le> j + ox)" using a by auto
  have r: "col0 g + win_cols g = fld_cols g \<or> (j + r1 < win_cols g \<and> j + r2 + ox < win_cols g)"
    using a by auto
  show "inside g m1 i j" unfolding inside_def m1 prod.case using i j t b l r by auto
  have y: "i < win_rows g - oy \<longleftrightarrow> row0 g + i < fld_rows g - oy" using g i b assms(2) by auto
  have x: "j < win_cols g - ox \<longleftrightarrow> col0 g + j < fld_cols g - ox" using g j r assms(3) by auto
  show "(i < win_rows g - oy \<and> j < win_cols g - ox) \<longleftrightarrow>
         (row0 g + i < fld_rows g - oy \<and> col0 g + j < fld_cols g - ox)"
    using x y by simp
  show "inside g m2 (i + oy) (j + ox)" if "i < win_rows g - oy \<and> j < win_cols g - ox"
    unfolding inside_def m2 prod.case using that t b l r by auto
qed

lemma inside_second:
  assumes "geometry_ok g" "oy \<le> 1" "ox \<le> 1" "inside g (grow_second oy ox m1 m2) i j"
  shows "inside g m2 i j"
    and "(oy \<le> i \<and> ox \<le> j \<and> i - oy < win_rows g - oy \<and> j - ox < win_cols g - ox) \<longleftrightarrow>
         (oy \<le> row0 g + i \<and> ox \<le> col0 g + j \<and> row0 g + i - oy < fld_rows g - oy \<and>
          col0 g + j - ox < fld_cols g - ox)"
    and "oy \<le> i \<and> ox \<le> j \<Longrightarrow> inside g m1 (i - oy) (j - ox)"
proof -
  obtain t1 b1 l1 r1 where m1: "m1 = (t1, b1, l1, r1)" by (cases m1) auto
  obtain t2 b2 l2 r2 where m2: "m2 = (t2, b2, l2, r2)" by (cases m2) auto
  note a = assms(4)[unfolded inside_def grow_second_def m1 m2 prod.case]
  note g = assms(1)[unfolded geometry_ok_def]
  have i: "i < win_rows g" and j: "j < win_cols g" using a by simp_all
  have t: "row0 g = 0 \<or> (t2 \<le> i \<and> t1 + oy \<le> i)" using a by auto
  have b: "row0 g + win_rows g = fld_rows g \<or> (i + b2 < win_rows g \<and> i + (b1 - oy) < win_rows g)"
    using a by auto
  have l: "col0 g = 0 \<or> (l2 \<le> j \<and> l1 + ox \<le> j)" using a by auto
  have r: "col0 g + win_cols g = fld_cols g \<or> (j + r2 < win_cols g \<and> j + (r1 - ox) < win_cols g)"
    using a by auto
  show "inside g m2 i j" unfolding inside_def m2 prod.case using i j t b l r by auto
  have y: "(oy \<le> i \<and> i - oy < win_rows g - oy) \<longleftrightarrow>
           (oy \<le> row0 g + i \<and> row0 g + i - oy < fld_rows g - oy)"
    using g i t assms(2) by auto
  have x: "(ox \<le> j \<and> j - ox < win_cols g - ox) \<longleftrightarrow>
           (ox \<le> col0 g + j \<and> col0 g + j - ox < fld_cols g - ox)"
    using g j l assms(3) by auto
  show "(oy \<le> i \<and> ox \<le> j \<and> i - oy < win_rows g - oy \<and> j - ox < win_cols g - ox) \<longleftrightarrow>
         (oy \<le> row0 g + i \<and> ox \<le> col0 g + j \<and> row0 g + i - oy < fld_rows g - oy \<and>
          col0 g + j - ox < fld_cols g - ox)"
    using x y by blast
  show "inside g m1 (i - oy) (j - ox)" if "oy \<le> i \<and> ox \<le> j"
    unfolding inside_def m1 prod.case using that i j t b l r by auto
qed


lemma step_fits_cell:
  assumes "step_fits stride width height n" "i < height" "j < width"
  shows "i * stride + j < n"
proof -
  have "i \<le> height - 1" using assms(2) by simp
  then have "i * stride \<le> (height - 1) * stride" by (intro mult_le_mono1)
  moreover have "(height - 1) * stride + width \<le> n" using assms(1) unfolding step_fits_def by simp
  ultimately show ?thesis using assms(3) by linarith
qed

lemma inside_window: "inside g m i j \<Longrightarrow> i < win_rows g \<and> j < win_cols g"
  by (cases m) (simp add: inside_def)

lemma agreesD:
  "agrees g m w f \<Longrightarrow> inside g m i j \<Longrightarrow>
   w ! (i * win_stride g + j) = f ! ((row0 g + i) * fld_stride g + (col0 g + j))"
  by (simp add: agrees_def)

text \<open>
  One pass on the window and the same pass on the field: where the arrays agreed before,
  inside the margins, they agree after, inside the grown margins.
\<close>

lemma rot_agree:
  assumes g: "geometry_ok g" and o: "oy \<le> 1" "ox \<le> 1"
    and lw: "length wr1 = nw" "length wi1 = nw" "length wr2 = nw" "length wi2 = nw"
      "step_fits (win_stride g) (win_cols g) (win_rows g) nw"
    and lf: "length fr1 = nf" "length fi1 = nf" "length fr2 = nf" "length fi2 = nf"
      "step_fits (fld_stride g) (fld_cols g) (fld_rows g) nf"
    and w: "rot_spec a b (set (pass_cells (win_stride g) (win_cols g - ox) (win_rows g - oy)))
              (oy * win_stride g + ox) (wr1, wi1, wr2, wi2) = (wr1', wi1', wr2', wi2')"
    and f: "rot_spec a b (set (pass_cells (fld_stride g) (fld_cols g - ox) (fld_rows g - oy)))
              (oy * fld_stride g + ox) (fr1, fi1, fr2, fi2) = (fr1', fi1', fr2', fi2')"
    and a1: "agrees g m1 wr1 fr1" "agrees g m1 wi1 fi1"
    and a2: "agrees g m2 wr2 fr2" "agrees g m2 wi2 fi2"
  shows "agrees g (grow_first oy ox m1 m2) wr1' fr1'"
    and "agrees g (grow_first oy ox m1 m2) wi1' fi1'"
    and "agrees g (grow_second oy ox m1 m2) wr2' fr2'"
    and "agrees g (grow_second oy ox m1 m2) wi2' fi2'"
proof -
  let ?B = "win_stride g" and ?S = "fld_stride g"
  note gk = g[unfolded geometry_ok_def]
  have nB: "win_cols g - ox + ox \<le> ?B" using gk o by simp
  have nS: "fld_cols g - ox + ox \<le> ?S" using gk o by simp
  have first: "wr1' ! (i * ?B + j) = fr1' ! ((row0 g + i) * ?S + (col0 g + j)) \<and>
               wi1' ! (i * ?B + j) = fi1' ! ((row0 g + i) * ?S + (col0 g + j))"
    if ins: "inside g (grow_first oy ox m1 m2) i j" for i j
  proof -
    note s = inside_first[OF g o ins]
    have ij: "i < win_rows g" "j < win_cols g" using inside_window[OF ins] by simp_all
    have jB: "j < ?B" using ij gk by simp
    have jS: "col0 g + j < ?S" using ij gk by simp
    have kw: "i * ?B + j < nw" by (rule step_fits_cell[OF lw(5) ij])
    have kf: "(row0 g + i) * ?S + (col0 g + j) < nf"
      by (rule step_fits_cell[OF lf(5)]) (use ij gk in simp_all)
    note W = rot_spec_at(1,2)[OF nB jB w, of i, unfolded lw, OF kw]
    note F = rot_spec_at(1,2)[OF nS jS f, of "row0 g + i", unfolded lf, OF kf]
    note e1 = agreesD[OF a1(1) s(1)] agreesD[OF a1(2) s(1)]
    show ?thesis
    proof (cases "i < win_rows g - oy \<and> j < win_cols g - ox")
      case True
      then have T: "row0 g + i < fld_rows g - oy \<and> col0 g + j < fld_cols g - ox" using s(2) by simp
      note e2 = agreesD[OF a2(1) s(3)[OF True]] agreesD[OF a2(2) s(3)[OF True]]
      have c: "row0 g + (i + oy) = row0 g + i + oy" "col0 g + (j + ox) = col0 g + j + ox" by simp_all
      from W True have w': "wr1' ! (i * ?B + j) = a * wr1 ! (i * ?B + j) - b * wi2 ! ((i + oy) * ?B + (j + ox))"
        "wi1' ! (i * ?B + j) = a * wi1 ! (i * ?B + j) + b * wr2 ! ((i + oy) * ?B + (j + ox))"
        by simp_all
      from F T have f': "fr1' ! ((row0 g + i) * ?S + (col0 g + j)) =
          a * fr1 ! ((row0 g + i) * ?S + (col0 g + j)) - b * fi2 ! ((row0 g + i + oy) * ?S + (col0 g + j + ox))"
        "fi1' ! ((row0 g + i) * ?S + (col0 g + j)) =
          a * fi1 ! ((row0 g + i) * ?S + (col0 g + j)) + b * fr2 ! ((row0 g + i + oy) * ?S + (col0 g + j + ox))"
        by simp_all
      show ?thesis unfolding w' f' e1 e2 c by simp
    next
      case False
      then have T: "\<not> (row0 g + i < fld_rows g - oy \<and> col0 g + j < fld_cols g - ox)" using s(2) by simp
      from W False have w': "wr1' ! (i * ?B + j) = wr1 ! (i * ?B + j)" "wi1' ! (i * ?B + j) = wi1 ! (i * ?B + j)"
        by simp_all
      from F T have f': "fr1' ! ((row0 g + i) * ?S + (col0 g + j)) = fr1 ! ((row0 g + i) * ?S + (col0 g + j))"
        "fi1' ! ((row0 g + i) * ?S + (col0 g + j)) = fi1 ! ((row0 g + i) * ?S + (col0 g + j))"
        by simp_all
      show ?thesis unfolding w' f' e1 by simp
    qed
  qed
  have second: "wr2' ! (i * ?B + j) = fr2' ! ((row0 g + i) * ?S + (col0 g + j)) \<and>
                wi2' ! (i * ?B + j) = fi2' ! ((row0 g + i) * ?S + (col0 g + j))"
    if ins: "inside g (grow_second oy ox m1 m2) i j" for i j
  proof -
    note s = inside_second[OF g o ins]
    have ij: "i < win_rows g" "j < win_cols g" using inside_window[OF ins] by simp_all
    have jB: "j < ?B" using ij gk by simp
    have jS: "col0 g + j < ?S" using ij gk by simp
    have kw: "i * ?B + j < nw" by (rule step_fits_cell[OF lw(5) ij])
    have kf: "(row0 g + i) * ?S + (col0 g + j) < nf"
      by (rule step_fits_cell[OF lf(5)]) (use ij gk in simp_all)
    note W = rot_spec_at(3,4)[OF nB jB w, of i, unfolded lw, OF kw]
    note F = rot_spec_at(3,4)[OF nS jS f, of "row0 g + i", unfolded lf, OF kf]
    note e2 = agreesD[OF a2(1) s(1)] agreesD[OF a2(2) s(1)]
    show ?thesis
    proof (cases "oy \<le> i \<and> ox \<le> j \<and> i - oy < win_rows g - oy \<and> j - ox < win_cols g - ox")
      case True
      then have T: "oy \<le> row0 g + i \<and> ox \<le> col0 g + j \<and> row0 g + i - oy < fld_rows g - oy \<and>
          col0 g + j - ox < fld_cols g - ox" using s(2) by simp
      have le: "oy \<le> i \<and> ox \<le> j" using True by simp
      note e1 = agreesD[OF a1(1) s(3)[OF le]] agreesD[OF a1(2) s(3)[OF le]]
      have c: "row0 g + (i - oy) = row0 g + i - oy" "col0 g + (j - ox) = col0 g + j - ox"
        using le by simp_all
      from W True have w': "wr2' ! (i * ?B + j) = a * wr2 ! (i * ?B + j) - b * wi1 ! ((i - oy) * ?B + (j - ox))"
        "wi2' ! (i * ?B + j) = a * wi2 ! (i * ?B + j) + b * wr1 ! ((i - oy) * ?B + (j - ox))"
        by simp_all
      from F T have f': "fr2' ! ((row0 g + i) * ?S + (col0 g + j)) =
          a * fr2 ! ((row0 g + i) * ?S + (col0 g + j)) - b * fi1 ! ((row0 g + i - oy) * ?S + (col0 g + j - ox))"
        "fi2' ! ((row0 g + i) * ?S + (col0 g + j)) =
          a * fi2 ! ((row0 g + i) * ?S + (col0 g + j)) + b * fr1 ! ((row0 g + i - oy) * ?S + (col0 g + j - ox))"
        by simp_all
      show ?thesis unfolding w' f' e1 e2 c by simp
    next
      case False
      then have T: "\<not> (oy \<le> row0 g + i \<and> ox \<le> col0 g + j \<and> row0 g + i - oy < fld_rows g - oy \<and>
          col0 g + j - ox < fld_cols g - ox)" using s(2) by simp
      from W False have w': "wr2' ! (i * ?B + j) = wr2 ! (i * ?B + j)" "wi2' ! (i * ?B + j) = wi2 ! (i * ?B + j)"
        by auto
      from F T have f': "fr2' ! ((row0 g + i) * ?S + (col0 g + j)) = fr2 ! ((row0 g + i) * ?S + (col0 g + j))"
        "fi2' ! ((row0 g + i) * ?S + (col0 g + j)) = fi2 ! ((row0 g + i) * ?S + (col0 g + j))"
        by auto
      show ?thesis unfolding w' f' e2 by simp
    qed
  qed
  show "agrees g (grow_first oy ox m1 m2) wr1' fr1'" unfolding agrees_def using first by blast
  show "agrees g (grow_first oy ox m1 m2) wi1' fi1'" unfolding agrees_def using first by blast
  show "agrees g (grow_second oy ox m1 m2) wr2' fr2'" unfolding agrees_def using second by blast
  show "agrees g (grow_second oy ox m1 m2) wi2' fi2'" unfolding agrees_def using second by blast
qed


definition agree_planes :: "geometry \<Rightarrow> (quad \<Rightarrow> margins) \<Rightarrow> planes \<Rightarrow> planes \<Rightarrow> bool" where
  "agree_planes g m W F = (\<forall>q. agrees g (m q) (get_re q W) (get_re q F) \<and>
                                agrees g (m q) (get_im q W) (get_im q F))"

fun pass_margins :: "pass \<Rightarrow> (quad \<Rightarrow> margins) \<Rightarrow> (quad \<Rightarrow> margins)" where
  "pass_margins (ShiftY oy q1 q2) m =
     (m(q1 := grow_first oy 0 (m q1) (m q2)))(q2 := grow_second oy 0 (m q1) (m q2))"
| "pass_margins (ShiftX ox q1 q2) m =
     (m(q1 := grow_first 0 ox (m q1) (m q2)))(q2 := grow_second 0 ox (m q1) (m q2))"

definition proper_pass :: "pass \<Rightarrow> bool" where
  "proper_pass x = (case x of ShiftY oy q1 q2 \<Rightarrow> oy \<le> 1 \<and> q1 \<noteq> q2
                            | ShiftX ox q1 q2 \<Rightarrow> ox \<le> 1 \<and> q1 \<noteq> q2)"

lemma get_set_quad:
  "get_re q (set_quad q' r i p) = (if q = q' then r else get_re q p)"
  "get_im q (set_quad q' r i p) = (if q = q' then i else get_im q p)"
  by (cases q; cases q'; simp)+

lemma rot_spec_agree_planes:
  assumes g: "geometry_ok g" and o: "oy \<le> 1" "ox \<le> 1" and ne: "q1 \<noteq> q2"
    and lw: "plane_lengths W nw" "step_fits (win_stride g) (win_cols g) (win_rows g) nw"
    and lf: "plane_lengths F nf" "step_fits (fld_stride g) (fld_cols g) (fld_rows g) nf"
    and w: "rot_spec a b (set (pass_cells (win_stride g) (win_cols g - ox) (win_rows g - oy)))
              (oy * win_stride g + ox) (get_re q1 W, get_im q1 W, get_re q2 W, get_im q2 W)
              = (wr1, wi1, wr2, wi2)"
    and f: "rot_spec a b (set (pass_cells (fld_stride g) (fld_cols g - ox) (fld_rows g - oy)))
              (oy * fld_stride g + ox) (get_re q1 F, get_im q1 F, get_re q2 F, get_im q2 F)
              = (fr1, fi1, fr2, fi2)"
    and a: "agree_planes g m W F"
  shows "agree_planes g ((m(q1 := grow_first oy ox (m q1) (m q2)))(q2 := grow_second oy ox (m q1) (m q2)))
           (set_quad q2 wr2 wi2 (set_quad q1 wr1 wi1 W)) (set_quad q2 fr2 fi2 (set_quad q1 fr1 fi1 F))"
proof -
  note lW = get_quad_lengths[OF lw(1)]
  note lF = get_quad_lengths[OF lf(1)]
  have a1: "agrees g (m q1) (get_re q1 W) (get_re q1 F)" "agrees g (m q1) (get_im q1 W) (get_im q1 F)"
    and a2: "agrees g (m q2) (get_re q2 W) (get_re q2 F)" "agrees g (m q2) (get_im q2 W) (get_im q2 F)"
    using a by (simp_all add: agree_planes_def)
  note r = rot_agree[OF g o _ _ _ _ lw(2) _ _ _ _ lf(2) w f a1 a2]
  have r': "agrees g (grow_first oy ox (m q1) (m q2)) wr1 fr1"
    "agrees g (grow_first oy ox (m q1) (m q2)) wi1 fi1"
    "agrees g (grow_second oy ox (m q1) (m q2)) wr2 fr2"
    "agrees g (grow_second oy ox (m q1) (m q2)) wi2 fi2"
    by (rule r; simp add: lW lF)+
  show ?thesis
    unfolding agree_planes_def
  proof (intro allI)
    fix q
    show "agrees g (((m(q1 := grow_first oy ox (m q1) (m q2)))(q2 := grow_second oy ox (m q1) (m q2))) q)
            (get_re q (set_quad q2 wr2 wi2 (set_quad q1 wr1 wi1 W)))
            (get_re q (set_quad q2 fr2 fi2 (set_quad q1 fr1 fi1 F))) \<and>
          agrees g (((m(q1 := grow_first oy ox (m q1) (m q2)))(q2 := grow_second oy ox (m q1) (m q2))) q)
            (get_im q (set_quad q2 wr2 wi2 (set_quad q1 wr1 wi1 W)))
            (get_im q (set_quad q2 fr2 fi2 (set_quad q1 fr1 fi1 F)))"
      using r' a ne by (simp add: get_set_quad agree_planes_def)
  qed
qed

lemma apply_pass_agree:
  assumes g: "geometry_ok g" and x: "proper_pass x"
    and lw: "plane_lengths W nw" "step_fits (win_stride g) (win_cols g) (win_rows g) nw"
    and lf: "plane_lengths F nf" "step_fits (fld_stride g) (fld_cols g) (fld_rows g) nf"
    and w: "apply_pass (win_stride g) (win_cols g) (win_rows g) a b x W = Inr W'"
    and f: "apply_pass (fld_stride g) (fld_cols g) (fld_rows g) a b x F = Inr F'"
    and a: "agree_planes g m W F"
  shows "agree_planes g (pass_margins x m) W' F'"
proof (cases x)
  case (ShiftY oy q1 q2)
  have o: "oy \<le> 1" "(0::nat) \<le> 1" and ne: "q1 \<noteq> q2" using x by (simp_all add: proper_pass_def ShiftY)
  note gk = g[unfolded geometry_ok_def]
  have sw: "win_cols g \<le> win_stride g" and sf: "fld_cols g \<le> fld_stride g" using gk by simp_all
  obtain wr1 wi1 wr2 wi2 where
    w1: "update_shifty_sse oy (win_stride g) (win_cols g) (win_rows g) a b
           (get_re q1 W, get_im q1 W, get_re q2 W, get_im q2 W) = Inr (wr1, wi1, wr2, wi2)"
    and W': "W' = set_quad q2 wr2 wi2 (set_quad q1 wr1 wi1 W)"
    using w unfolding ShiftY by (auto simp: bind_res_def split: sum.splits)
  obtain fr1 fi1 fr2 fi2 where
    f1: "update_shifty_sse oy (fld_stride g) (fld_cols g) (fld_rows g) a b
           (get_re q1 F, get_im q1 F, get_re q2 F, get_im q2 F) = Inr (fr1, fi1, fr2, fi2)"
    and F': "F' = set_quad q2 fr2 fi2 (set_quad q1 fr1 fi1 F)"
    using f unfolding ShiftY by (auto simp: bind_res_def split: sum.splits)
  have w2: "rot_spec a b (set (pass_cells (win_stride g) (win_cols g - 0) (win_rows g - oy)))
              (oy * win_stride g + 0) (get_re q1 W, get_im q1 W, get_re q2 W, get_im q2 W)
              = (wr1, wi1, wr2, wi2)"
    using w1 unfolding update_shifty_sse_spec[OF sw] by (simp split: if_splits)
  have f2: "rot_spec a b (set (pass_cells (fld_stride g) (fld_cols g - 0) (fld_rows g - oy)))
              (oy * fld_stride g + 0) (get_re q1 F, get_im q1 F, get_re q2 F, get_im q2 F)
              = (fr1, fi1, fr2, fi2)"
    using f1 unfolding update_shifty_sse_spec[OF sf] by (simp split: if_splits)
  show ?thesis
    unfolding ShiftY pass_margins.simps W' F'
    by (rule rot_spec_agree_planes[OF g o ne lw lf w2 f2 a])
next
  case (ShiftX ox q1 q2)
  have o: "(0::nat) \<le> 1" "ox \<le> 1" and ne: "q1 \<noteq> q2" using x by (simp_all add: proper_pass_def ShiftX)
  note gk = g[unfolded geometry_ok_def]
  have sw: "win_cols g \<le> win_stride g" and sf: "fld_cols g \<le> fld_stride g" using gk by simp_all
  obtain wr1 wi1 wr2 wi2 where
    w1: "update_shiftx_sse ox (win_stride g) (win_cols g) (win_rows g) a b
           (get_re q1 W, get_im q1 W, get_re q2 W, get_im q2 W) = Inr (wr1, wi1, wr2, wi2)"
    and W': "W' = set_quad q2 wr2 wi2 (set_quad q1 wr1 wi1 W)"
    using w unfolding ShiftX by (auto simp: bind_res_def split: sum.splits)
  obtain fr1 fi1 fr2 fi2 where
    f1: "update_shiftx_sse ox (fld_stride g) (fld_cols g) (fld_rows g) a b
           (get_re q1 F, get_im q1 F, get_re q2 F, get_im q2 F) = Inr (fr1, fi1, fr2, fi2)"
    and F': "F' = set_quad q2 fr2 fi2 (set_quad q1 fr1 fi1 F)"
    using f unfolding ShiftX by (auto simp: bind_res_def split: sum.splits)
  have w2: "rot_spec a b (set (pass_cells (win_stride g) (win_cols g - ox) (win_rows g - 0)))
              (0 * win_stride g + ox) (get_re q1 W, get_im q1 W, get_re q2 W, get_im q2 W)
              = (wr1, wi1, wr2, wi2)"
    using w1 unfolding update_shiftx_sse_spec[OF sw] by (simp split: if_splits)
  have f2: "rot_spec a b (set (pass_cells (fld_stride g) (fld_cols g - ox) (fld_rows g - 0)))
              (0 * fld_stride g + ox) (get_re q1 F, get_im q1 F, get_re q2 F, get_im q2 F)
              = (fr1, fi1, fr2, fi2)"
    using f1 unfolding update_shiftx_sse_spec[OF sf] by (simp split: if_splits)
  show ?thesis
    unfolding ShiftX pass_margins.simps W' F'
    by (rule rot_spec_agree_planes[OF g o ne lw lf w2 f2 a])
qed

lemma run_passes_agree:
  assumes g: "geometry_ok g" and xs: "list_all proper_pass xs"
    and lw: "plane_lengths W nw" "step_fits (win_stride g) (win_cols g) (win_rows g) nw"
    and lf: "plane_lengths F nf" "step_fits (fld_stride g) (fld_cols g) (fld_rows g) nf"
    and w: "run_passes (win_stride g) (win_cols g) (win_rows g) a b xs W = Inr W'"
    and f: "run_passes (fld_stride g) (fld_cols g) (fld_rows g) a b xs F = Inr F'"
    and a: "agree_planes g m W F"
  shows "agree_planes g (fold pass_margins xs m) W' F'"
  using xs lw(1) lf(1) w f a
proof (induction xs arbitrary: W F m)
  case Nil
  then show ?case by simp
next
  case (Cons x xs)
  obtain W1 where W1: "apply_pass (win_stride g) (win_cols g) (win_rows g) a b x W = Inr W1"
    and W2: "run_passes (win_stride g) (win_cols g) (win_rows g) a b xs W1 = Inr W'"
    using Cons.prems(4) by (auto simp: bind_res_def split: sum.splits)
  obtain F1 where F1: "apply_pass (fld_stride g) (fld_cols g) (fld_rows g) a b x F = Inr F1"
    and F2: "run_passes (fld_stride g) (fld_cols g) (fld_rows g) a b xs F1 = Inr F'"
    using Cons.prems(5) by (auto simp: bind_res_def split: sum.splits)
  have x: "proper_pass x" and xs: "list_all proper_pass xs" using Cons.prems(1) by simp_all
  have a1: "agree_planes g (pass_margins x m) W1 F1"
    by (rule apply_pass_agree[OF g x Cons.prems(2) lw(2) Cons.prems(3) lf(2) W1 F1 Cons.prems(6)])
  have "agree_planes g (fold pass_margins xs (pass_margins x m)) W' F'"
    by (rule Cons.IH[OF xs apply_pass_lengths[OF W1 Cons.prems(2)]
          apply_pass_lengths[OF F1 Cons.prems(3)] W2 F2 a1])
  then show ?case by simp
qed

lemma full_step_passes_proper: "list_all proper_pass full_step_passes"
  by (simp add: full_step_passes_def full_step_substeps_def step1_def step2_def step3_def
      step4_def proper_pass_def)

lemma full_step_margins:
  "fold pass_margins full_step_passes (\<lambda>q. (0, 0, 0, 0)) =
     (\<lambda>q. case q of Q00 \<Rightarrow> (2, 2, 2, 1) | Q01 \<Rightarrow> (2, 1, 1, 2) | Q10 \<Rightarrow> (2, 2, 2, 1) | Q11 \<Rightarrow> (1, 2, 1, 2))"
  by (rule ext)
     (simp add: full_step_passes_def full_step_substeps_def step1_def step2_def step3_def
      step4_def grow_first_def grow_second_def split: quad.splits)

lemma inside_mono:
  assumes "inside g (t', b', l', r') i j" "t \<le> t'" "b \<le> b'" "l \<le> l'" "r \<le> r'"
  shows "inside g (t, b, l, r) i j"
  using assms unfolding inside_def by auto

text \<open>
  The full step on the window and the full step on the field agree on every cell of the
  window that lies two cells or more from each edge that is not an edge of the field.
\<close>

lemma full_step_agree:
  assumes g: "geometry_ok g"
    and lw: "plane_lengths W nw" "step_fits (win_stride g) (win_cols g) (win_rows g) nw"
    and lf: "plane_lengths F nf" "step_fits (fld_stride g) (fld_cols g) (fld_rows g) nf"
    and w: "full_step_sse (win_stride g) (win_cols g) (win_rows g) a b W = Inr W'"
    and f: "full_step_sse (fld_stride g) (fld_cols g) (fld_rows g) a b F = Inr F'"
    and a: "agree_planes g (\<lambda>q. (0, 0, 0, 0)) W F"
  shows "agree_planes g (\<lambda>q. (2, 2, 2, 2)) W' F'"
proof -
  have m: "agree_planes g (\<lambda>q. case q of Q00 \<Rightarrow> (2, 2, 2, 1) | Q01 \<Rightarrow> (2, 1, 1, 2)
              | Q10 \<Rightarrow> (2, 2, 2, 1) | Q11 \<Rightarrow> (1, 2, 1, 2)) W' F'"
    using run_passes_agree[OF g full_step_passes_proper lw lf w[unfolded full_step_sse_def]
        f[unfolded full_step_sse_def] a]
    unfolding full_step_margins .
  show ?thesis
    unfolding agree_planes_def agrees_def
  proof (intro allI conjI impI)
    fix q i j assume i: "inside g (2, 2, 2, 2) i j"
    have "inside g (case q of Q00 \<Rightarrow> (2, 2, 2, 1) | Q01 \<Rightarrow> (2, 1, 1, 2)
              | Q10 \<Rightarrow> (2, 2, 2, 1) | Q11 \<Rightarrow> (1, 2, 1, 2)) i j"
      by (cases q; simp; rule inside_mono[OF i]; simp)
    then show "get_re q W' ! (i * win_stride g + j) = get_re q F' ! ((row0 g + i) * fld_stride g + (col0 g + j))"
      and "get_im q W' ! (i * win_stride g + j) = get_im q F' ! ((row0 g + i) * fld_stride g + (col0 g + j))"
      using m unfolding agree_planes_def agrees_def by blast+
  qed
qed


section \<open>One block of a band\<close>

lemma memcpy2D_planes_quad:
  assumes "memcpy2D_planes dst dst_idx dstride src src_idx sstride width height = Inr d"
  shows "memcpy2D (get_re q dst) (unat dst_idx) dstride (get_re q src) (unat src_idx) sstride width height
           = Inr (get_re q d)"
    and "memcpy2D (get_im q dst) (unat dst_idx) dstride (get_im q src) (unat src_idx) sstride width height
           = Inr (get_im q d)"
  using memcpy2D_planes_Inr[OF assms] by (cases q; simp)+

text \<open>
  Two generations hold the same values in the cell of row \<open>i\<close> and column \<open>j\<close>, in all
  eight arrays.
\<close>

definition cell_eq :: "nat \<Rightarrow> planes \<Rightarrow> planes \<Rightarrow> nat \<Rightarrow> nat \<Rightarrow> bool" where
  "cell_eq S p p' i j = (\<forall>q. get_re q p ! (i * S + j) = get_re q p' ! (i * S + j) \<and>
                              get_im q p ! (i * S + j) = get_im q p' ! (i * S + j))"

definition rect :: "nat \<Rightarrow> nat \<Rightarrow> nat \<Rightarrow> nat \<Rightarrow> (nat \<times> nat) set" where
  "rect r c h w = {(i, j). r \<le> i \<and> i < r + h \<and> c \<le> j \<and> j < c + w}"

text \<open>
  The next generation \<open>nxt\<close> while it is written: on the cells of \<open>D\<close> it holds the
  values of \<open>T\<close>, on every other cell what \<open>nxt0\<close> held.
\<close>

definition written :: "nat \<Rightarrow> planes \<Rightarrow> planes \<Rightarrow> planes \<Rightarrow> (nat \<times> nat) set \<Rightarrow> bool" where
  "written S T nxt0 nxt D = ((\<forall>i j. j < S \<longrightarrow> (i, j) \<in> D \<longrightarrow> cell_eq S nxt T i j) \<and>
                             (\<forall>i j. j < S \<longrightarrow> (i, j) \<notin> D \<longrightarrow> cell_eq S nxt nxt0 i j))"

lemma written_start: "written S T nxt nxt {}"
  by (simp add: written_def cell_eq_def)

lemma written_mono:
  "written S T nxt0 nxt D \<Longrightarrow> D = D' \<Longrightarrow> written S T nxt0 nxt D'"
  by simp

lemma rows_in_bounds_within:
  assumes "(hh - 1) * P + ww \<le> len" "r + h \<le> hh" "c + w \<le> ww"
  shows "rows_in_bounds len (r * P + c) P w h"
proof (cases "h = 0")
  case True
  then show ?thesis by (simp add: rows_in_bounds_def)
next
  case False
  then have "r + (h - 1) \<le> hh - 1" using assms(2) by simp
  then have "(r + (h - 1)) * P \<le> (hh - 1) * P" by (intro mult_le_mono1)
  moreover have "r * P + c + (h - 1) * P + w = (r + (h - 1)) * P + (c + w)"
    by (simp add: add_mult_distrib)
  ultimately have "r * P + c + (h - 1) * P + w \<le> len" using assms(1,3) by linarith
  then show ?thesis unfolding rows_in_bounds_def by simp
qed

lemma block_step:
  assumes g: "geometry_ok g" and fc: "fld_cols g = fld_stride g"
    and inv: "written (fld_stride g) T nxt0 nxt D"
    and lb: "plane_lengths blk nb" "step_fits (win_stride g) (win_cols g) (win_rows g) nb"
    and lc: "plane_lengths cur (fld_rows g * fld_stride g)"
    and ln: "plane_lengths nxt (fld_rows g * fld_stride g)"
    and T: "full_step_sse (fld_stride g) (fld_cols g) (fld_rows g) a b cur = Inr T"
    and rd: "unat bstride div 4 = win_stride g" "unat mstride div 4 = fld_stride g"
      "unat read_idx = row0 g * fld_stride g + col0 g" "unat read_width div 4 = win_cols g"
      "unat rows = win_rows g"
    and wr: "unat write_idx = (row0 g + wo) * fld_stride g + (col0 g + wc)"
      "unat block_read_idx = wo * win_stride g + wc" "unat write_width div 4 = ww"
      "unat write_rows = wh"
    and ins: "wo + wh \<le> win_rows g" "wc + ww \<le> win_cols g"
      "row0 g = 0 \<or> 2 \<le> wo" "row0 g + win_rows g = fld_rows g \<or> wo + wh + 2 \<le> win_rows g"
      "col0 g = 0 \<or> 2 \<le> wc" "col0 g + win_cols g = fld_cols g \<or> wc + ww + 2 \<le> win_cols g"
  shows "\<exists>blk1 blk2 nxt'.
           memcpy2D_planes blk 0 bstride cur read_idx mstride read_width rows = Inr blk1 \<and>
           full_step_sse (win_stride g) (win_cols g) (win_rows g) a b blk1 = Inr blk2 \<and>
           memcpy2D_planes nxt write_idx mstride blk2 block_read_idx bstride write_width write_rows
             = Inr nxt' \<and>
           plane_lengths blk2 nb \<and> plane_lengths nxt' (fld_rows g * fld_stride g) \<and>
           written (fld_stride g) T nxt0 nxt' (D \<union> rect (row0 g + wo) (col0 g + wc) wh ww)"
proof -
  let ?B = "win_stride g" and ?S = "fld_stride g" and ?h = "win_rows g" and ?w = "win_cols g"
  let ?H = "fld_rows g" and ?R = "row0 g" and ?C = "col0 g"
  note gk = g[unfolded geometry_ok_def fc]
  have fit: "(?h - 1) * ?B + ?w \<le> nb" using lb(2) by (simp add: step_fits_def)
  have fS: "step_fits ?S (fld_cols g) ?H (?H * ?S)"
  proof -
    have "1 \<le> ?H" "1 \<le> ?S" using gk by simp_all
    moreover from this have "(?H - 1) * ?S + ?S = ?H * ?S"
      by (cases ?H) simp_all
    ultimately show ?thesis unfolding step_fits_def fc by simp
  qed
  have fitS: "(?H - 1) * ?S + ?S \<le> ?H * ?S"
    using fS unfolding step_fits_def fc by simp
  \<comment> \<open>the copy into the block\<close>
  have b1: "rows_in_bounds nb (unat (0::size_t)) (unat bstride div 4) (unat read_width div 4) (unat rows)"
    unfolding rd using rows_in_bounds_within[OF fit, of 0 ?h 0 ?w] by simp
  have b2: "rows_in_bounds (?H * ?S) (unat read_idx) (unat mstride div 4) (unat read_width div 4) (unat rows)"
    unfolding rd by (rule rows_in_bounds_within[OF fitS]) (use gk in simp_all)
  obtain blk1 where m1: "memcpy2D_planes blk 0 bstride cur read_idx mstride read_width rows = Inr blk1"
    using memcpy2D_planes_defined[OF lb(1) lc b1 b2] by blast
  have l1: "plane_lengths blk1 nb" by (rule memcpy2D_planes_lengths[OF m1 lb(1)])
  have wB: "unat read_width div 4 \<le> unat bstride div 4" unfolding rd using gk by simp
  have a0: "agree_planes g (\<lambda>q. (0, 0, 0, 0)) blk1 cur"
    unfolding agree_planes_def agrees_def
  proof (intro allI conjI impI)
    fix q i j assume "inside g (0, 0, 0, 0) i j"
    then have ij: "i < unat rows" "j < unat read_width div 4"
      unfolding rd by (simp_all add: inside_def)
    have e: "(?R + i) * ?S + (?C + j) = unat read_idx + i * (unat mstride div 4) + j"
      unfolding rd by (simp add: add_mult_distrib)
    show "get_re q blk1 ! (i * ?B + j) = get_re q cur ! ((?R + i) * ?S + (?C + j))"
      using memcpy2D_nth[OF memcpy2D_planes_quad(1)[OF m1] wB ij] unfolding e rd by simp
    show "get_im q blk1 ! (i * ?B + j) = get_im q cur ! ((?R + i) * ?S + (?C + j))"
      using memcpy2D_nth[OF memcpy2D_planes_quad(2)[OF m1] wB ij] unfolding e rd by simp
  qed
  \<comment> \<open>the full step on the block\<close>
  obtain blk2 where f: "full_step_sse ?B ?w ?h a b blk1 = Inr blk2"
    using full_step_sse_defined[OF lb(2) l1] by blast
  have l2: "plane_lengths blk2 nb" by (rule full_step_sse_lengths[OF f l1])
  have a2: "agree_planes g (\<lambda>q. (2, 2, 2, 2)) blk2 T"
    by (rule full_step_agree[OF g l1 lb(2) lc fS f T a0])
  \<comment> \<open>the copy into the next generation\<close>
  have b3: "rows_in_bounds (?H * ?S) (unat write_idx) (unat mstride div 4) (unat write_width div 4)
              (unat write_rows)"
    unfolding wr rd by (rule rows_in_bounds_within[OF fitS]) (use gk ins(1,2) in simp_all)
  have b4: "rows_in_bounds nb (unat block_read_idx) (unat bstride div 4) (unat write_width div 4)
              (unat write_rows)"
    unfolding wr rd by (rule rows_in_bounds_within[OF fit]) (use ins(1,2) in simp_all)
  obtain nxt' where m2: "memcpy2D_planes nxt write_idx mstride blk2 block_read_idx bstride
      write_width write_rows = Inr nxt'"
    using memcpy2D_planes_defined[OF ln l2 b3 b4] by blast
  have l3: "plane_lengths nxt' (?H * ?S)" by (rule memcpy2D_planes_lengths[OF m2 ln])
  have wS: "unat write_width div 4 \<le> unat mstride div 4" unfolding wr rd using ins(2) gk by simp
  have new: "cell_eq ?S nxt' T i j" if "(i, j) \<in> rect (?R + wo) (?C + wc) wh ww" for i j
  proof -
    define i' where "i' = i - (?R + wo)"
    define j' where "j' = j - (?C + wc)"
    have ij: "i = ?R + wo + i'" "j = ?C + wc + j'" "i' < wh" "j' < ww"
      using that unfolding rect_def i'_def j'_def by auto
    have ins2: "inside g (2, 2, 2, 2) (wo + i') (wc + j')"
      unfolding inside_def using ij(3,4) ins by auto
    have e1: "i * ?S + j = unat write_idx + i' * (unat mstride div 4) + j'"
      unfolding wr rd ij by (simp add: add_mult_distrib)
    have e2: "unat block_read_idx + i' * (unat bstride div 4) + j' = (wo + i') * ?B + (wc + j')"
      unfolding wr rd by (simp add: add_mult_distrib)
    have e3: "(?R + (wo + i')) * ?S + (?C + (wc + j')) = i * ?S + j"
      unfolding ij by (simp add: add_mult_distrib)
    have i4: "i' < unat write_rows" "j' < unat write_width div 4" unfolding wr using ij by simp_all
    show ?thesis
      unfolding cell_eq_def
    proof (intro allI conjI)
      fix q
      have "get_re q nxt' ! (i * ?S + j) = get_re q blk2 ! ((wo + i') * ?B + (wc + j'))"
        using memcpy2D_nth[OF memcpy2D_planes_quad(1)[OF m2] wS i4] unfolding e1 e2 .
      also have "\<dots> = get_re q T ! (i * ?S + j)"
        using a2 ins2 unfolding agree_planes_def agrees_def e3[symmetric] by blast
      finally show "get_re q nxt' ! (i * ?S + j) = get_re q T ! (i * ?S + j)" .
      have "get_im q nxt' ! (i * ?S + j) = get_im q blk2 ! ((wo + i') * ?B + (wc + j'))"
        using memcpy2D_nth[OF memcpy2D_planes_quad(2)[OF m2] wS i4] unfolding e1 e2 .
      also have "\<dots> = get_im q T ! (i * ?S + j)"
        using a2 ins2 unfolding agree_planes_def agrees_def e3[symmetric] by blast
      finally show "get_im q nxt' ! (i * ?S + j) = get_im q T ! (i * ?S + j)" .
    qed
  qed
  have old: "cell_eq ?S nxt' nxt i j" if "j < ?S" "(i, j) \<notin> rect (?R + wo) (?C + wc) wh ww" for i j
  proof -
    have ne: "unat write_idx + i' * (unat mstride div 4) + j' \<noteq> i * ?S + j"
      if "i' < unat write_rows" "j' < unat write_width div 4" for i' j'
    proof
      assume "unat write_idx + i' * (unat mstride div 4) + j' = i * ?S + j"
      then have "(?R + wo + i') * ?S + (?C + wc + j') = i * ?S + j"
        unfolding wr rd by (simp add: add_mult_distrib)
      moreover have "?C + wc + j' < ?S" using that(2) ins(2) gk unfolding wr by simp
      ultimately have "?R + wo + i' = i \<and> ?C + wc + j' = j"
        using row_major_inj[of ?S ?S "?C + wc + j'" j 0 "?R + wo + i'" i] \<open>j < ?S\<close> by simp
      then have "(i, j) \<in> rect (?R + wo) (?C + wc) wh ww"
        using that unfolding rect_def wr by auto
      then show False using \<open>(i, j) \<notin> rect (?R + wo) (?C + wc) wh ww\<close> by simp
    qed
    show ?thesis
      unfolding cell_eq_def
      using memcpy2D_other[OF memcpy2D_planes_quad(1)[OF m2], of "i * ?S + j"]
        memcpy2D_other[OF memcpy2D_planes_quad(2)[OF m2], of "i * ?S + j"] ne
      by blast
  qed
  have "written ?S T nxt0 nxt' (D \<union> rect (?R + wo) (?C + wc) wh ww)"
    unfolding written_def
  proof (intro conjI allI impI)
    fix i j assume j: "j < ?S" and d: "(i, j) \<in> D \<union> rect (?R + wo) (?C + wc) wh ww"
    show "cell_eq ?S nxt' T i j"
    proof (cases "(i, j) \<in> rect (?R + wo) (?C + wc) wh ww")
      case True
      then show ?thesis by (rule new)
    next
      case False
      then have "(i, j) \<in> D" using d by simp
      then have "cell_eq ?S nxt T i j" using inv j unfolding written_def by blast
      then show ?thesis using old[OF j False] unfolding cell_eq_def by simp
    qed
  next
    fix i j assume "j < ?S" "(i, j) \<notin> D \<union> rect (?R + wo) (?C + wc) wh ww"
    then show "cell_eq ?S nxt' nxt0 i j"
      using old[of j i] inv unfolding written_def cell_eq_def by simp
  qed
  then show ?thesis using m1 f m2 l2 l3 by blast
qed


section \<open>Loops over blocks\<close>

lemma unat_mul: "unat a * unat b < 2 ^ 64 \<Longrightarrow> unat (a * b :: size_t) = unat a * unat b"
  using unat_mult_lem[of a b] by simp

lemma unat_plus: "unat a + unat b < 2 ^ 64 \<Longrightarrow> unat (a + b :: size_t) = unat a + unat b"
  using unat_add_lem[of a b] by simp

lemma unat_half: "unat (a div 2 :: size_t) = unat a div 2"
  by (simp add: unat_div)

text \<open>
  A loop whose counter does not wrap around: it leaves, with enough fuel, at the first
  value of the counter that is not below the limit, and an invariant of the body holds
  of the state it returns.
\<close>

lemma for_blocks_invariant:
  fixes I :: "nat \<Rightarrow> 's \<Rightarrow> bool"
  assumes d: "0 < unat step" and L: "unat limit + unat step < 2 ^ 64"
    and body: "\<And>x s. unat x < unat limit \<Longrightarrow> unat x0 \<le> unat x \<Longrightarrow> I (unat x) s \<Longrightarrow>
                 \<exists>s'. body x s = Inr s' \<and> I (unat x + unat step) s'"
    and I0: "I (unat x0) s0"
    and fuel: "unat limit \<le> n * unat step + unat x0"
  shows "\<exists>x' s'. for_blocks n x0 limit step body s0 = Inr (x', s') \<and> I (unat x') s' \<and>
           unat x0 \<le> unat x' \<and> unat limit \<le> unat x' \<and>
           (unat x0 < unat limit \<longrightarrow> unat x' < unat limit + unat step) \<and>
           (unat limit \<le> unat x0 \<longrightarrow> x' = x0) \<and>
           unat step dvd unat x' - unat x0"
  using I0 fuel body
proof (induction n arbitrary: x0 s0)
  case 0
  then have "\<not> x0 < limit" by (simp add: word_less_nat_alt)
  then show ?case using 0 by (auto simp: for_blocks_exit word_less_nat_alt)
next
  case (Suc n)
  show ?case
  proof (cases "x0 < limit")
    case False
    then show ?thesis using Suc.prems(1) by (auto simp: for_blocks_exit word_less_nat_alt)
  next
    case True
    then have lt: "unat x0 < unat limit" by (simp add: word_less_nat_alt)
    obtain s1 where s1: "body x0 s0 = Inr s1" "I (unat x0 + unat step) s1"
      using Suc.prems(3)[OF lt _ Suc.prems(1)] by auto
    have u: "unat (x0 + step) = unat x0 + unat step"
      by (rule unat_plus) (use lt L in simp)
    have f: "unat limit \<le> n * unat step + unat (x0 + step)"
      using Suc.prems(2) unfolding u by simp
    have b: "\<exists>s'. body x s = Inr s' \<and> I (unat x + unat step) s'"
      if "unat x < unat limit" "unat (x0 + step) \<le> unat x" "I (unat x) s" for x s
      by (rule Suc.prems(3)[OF that(1) _ that(3)]) (use that(2) u in simp)
    from Suc.IH[of "x0 + step" s1, OF _ f b] s1(2)
    obtain x' s' where r: "for_blocks n (x0 + step) limit step body s1 = Inr (x', s')"
      "I (unat x') s'" "unat (x0 + step) \<le> unat x'" "unat limit \<le> unat x'"
      "unat (x0 + step) < unat limit \<longrightarrow> unat x' < unat limit + unat step"
      "unat limit \<le> unat (x0 + step) \<longrightarrow> x' = x0 + step"
      "unat step dvd unat x' - unat (x0 + step)"
      unfolding u by blast
    have e: "for_blocks (Suc n) x0 limit step body s0 = Inr (x', s')"
      using True s1(1) r(1) by simp
    have up: "unat x' < unat limit + unat step"
      using r(5,6) u lt by (cases "unat (x0 + step) < unat limit") auto
    have "unat x' - unat x0 = (unat x' - unat (x0 + step)) + unat step"
      using r(3) unfolding u by simp
    then have dv: "unat step dvd unat x' - unat x0" using r(7) by simp
    show ?thesis using e r(2,3,4) up dv lt unfolding u by auto
  qed
qed


section \<open>The blocks of a band\<close>

text \<open>
  What the bands of one step share: the width of the tile, its number \<open>H\<close> of quadrant
  rows, the current generation, and the result \<open>T\<close> of the full step on the whole of it.
\<close>

definition field_ok :: "size_t \<Rightarrow> nat \<Rightarrow> real \<Rightarrow> real \<Rightarrow> planes \<Rightarrow> planes \<Rightarrow> bool" where
  "field_ok tile_w H a b cur T =
     (1 \<le> unat (tile_w div 2) \<and> 1 \<le> H \<and> H * unat (tile_w div 2) < 2 ^ 60 \<and>
      plane_lengths cur (H * unat (tile_w div 2)) \<and>
      full_step_sse (unat (tile_w div 2)) (unat (tile_w div 2)) H a b cur = Inr T)"

text \<open>
  A band reads \<open>read_height / 2\<close> quadrant rows from row \<open>read_y / 2\<close> and writes
  \<open>write_height / 2\<close> of them from row \<open>write_offset / 2\<close> of the block. The rows written
  keep two quadrant rows from each edge of the band that is not an edge of the tile.
\<close>

definition band_ok :: "nat \<Rightarrow> size_t \<Rightarrow> size_t \<Rightarrow> size_t \<Rightarrow> size_t \<Rightarrow> bool" where
  "band_ok H read_y read_height write_offset write_height =
     (unat (read_y div 2) + unat (read_height div 2) \<le> H \<and>
      1 \<le> unat (read_height div 2) \<and> unat (read_height div 2) \<le> 64 \<and>
      unat (write_offset div 2) + unat (write_height div 2) \<le> unat (read_height div 2) \<and>
      (unat (read_y div 2) = 0 \<or> 2 \<le> unat (write_offset div 2)) \<and>
      (unat (read_y div 2) + unat (read_height div 2) = H \<or>
       unat (write_offset div 2) + unat (write_height div 2) + 2 \<le> unat (read_height div 2)))"

text \<open>The state of a band: the next generation written so far, and the block buffers.\<close>

definition band_state :: "nat \<Rightarrow> nat \<Rightarrow> planes \<Rightarrow> planes \<Rightarrow> (nat \<times> nat) set \<Rightarrow> planes \<times> planes \<Rightarrow> bool" where
  "band_state S H T nxt0 D = (\<lambda>(nxt, blk).
     plane_lengths blk 4096 \<and> plane_lengths nxt (H * S) \<and> written S T nxt0 nxt D)"

text \<open>The body of the loop over the middle blocks in \<^verbatim>\<open>process_band_sse\<close>.\<close>

definition middle_block ::
  "size_t \<Rightarrow> size_t \<Rightarrow> size_t \<Rightarrow> size_t \<Rightarrow> size_t \<Rightarrow> size_t \<Rightarrow> size_t \<Rightarrow> real \<Rightarrow> real \<Rightarrow> planes \<Rightarrow>
   size_t \<Rightarrow> planes \<times> planes \<Rightarrow> error + planes \<times> planes" where
  "middle_block read_y read_height write_offset write_height block_width tile_w halo a b cur
       block_start =
     (\<lambda>(nxt, blk).
        bind_res (memcpy2D_planes blk 0 ((block_width div 2) * sizeof_float) cur
                    ((read_y div 2) * (tile_w div 2) + block_start div 2)
                    ((tile_w div 2) * sizeof_float) ((block_width div 2) * sizeof_float)
                    (read_height div 2)) (\<lambda>blk.
        bind_res (full_step_sse (unat (block_width div 2)) (unat (block_width div 2))
                    (unat (read_height div 2)) a b blk) (\<lambda>blk.
        bind_res (memcpy2D_planes nxt
                    ((read_y div 2 + write_offset div 2) * (tile_w div 2)
                       + (block_start + halo) div 2)
                    ((tile_w div 2) * sizeof_float) blk
                    ((write_offset div 2) * (block_width div 2) + halo div 2)
                    ((block_width div 2) * sizeof_float)
                    (((block_width - 2 * halo) div 2) * sizeof_float) (write_height div 2)) (\<lambda>nxt.
        Inr (nxt, blk)))))"

lemma band_block:
  assumes fo: "field_ok tile_w H a b cur T"
    and bo: "band_ok H ry rh wo wh"
    and st: "band_state (unat (tile_w div 2)) H T nxt0 D (nxt, blk)"
    and cols: "unat cw = C" "unat rw div 4 = w" "1 \<le> w" "w \<le> 64" "C + w \<le> unat (tile_w div 2)"
      "unat wcw = C + wc" "unat bcw = wc" "unat www div 4 = ww" "wc + ww \<le> w"
      "C = 0 \<or> 2 \<le> wc" "C + w = unat (tile_w div 2) \<or> wc + ww + 2 \<le> w"
  shows "\<exists>blk1 blk2 nxt'.
           memcpy2D_planes blk 0 ((128 div 2) * sizeof_float) cur ((ry div 2) * (tile_w div 2) + cw)
             ((tile_w div 2) * sizeof_float) rw (rh div 2) = Inr blk1 \<and>
           full_step_sse 64 w (unat (rh div 2)) a b blk1 = Inr blk2 \<and>
           memcpy2D_planes nxt ((ry div 2 + wo div 2) * (tile_w div 2) + wcw)
             ((tile_w div 2) * sizeof_float) blk2 ((wo div 2) * (128 div 2) + bcw)
             ((128 div 2) * sizeof_float) www (wh div 2) = Inr nxt' \<and>
           band_state (unat (tile_w div 2)) H T nxt0
             (D \<union> rect (unat (ry div 2) + unat (wo div 2)) (C + wc) (unat (wh div 2)) ww)
             (nxt', blk2)"
proof -
  define S where "S = unat (tile_w div 2)"
  define R where "R = unat (ry div 2)"
  define h where "h = unat (rh div 2)"
  define ov where "ov = unat (wo div 2)"
  define v where "v = unat (wh div 2)"
  note fk = fo[unfolded field_ok_def, folded S_def]
  note bk = bo[unfolded band_ok_def, folded R_def h_def ov_def v_def]
  note sk = st[unfolded band_state_def prod.case, folded S_def]
  note ck = cols[folded S_def]
  define g where "g = \<lparr>win_stride = 64, win_rows = h, win_cols = w, fld_stride = S, fld_rows = H,
                       fld_cols = S, row0 = R, col0 = C\<rparr>"
  have CS: "C + w \<le> S" using ck by simp
  have g: "geometry_ok g" unfolding geometry_ok_def g_def using bk ck by simp
  have HS: "H * S < 2 ^ 60" using fk by simp
  have S60: "S < 2 ^ 60" "R * S < 2 ^ 60" "(R + ov) * S < 2 ^ 60"
  proof -
    have "S \<le> H * S" using fk by (cases H) simp_all
    then show "S < 2 ^ 60" using HS by linarith
    have "R * S \<le> H * S" using bk by (intro mult_le_mono1) simp
    then show "R * S < 2 ^ 60" using HS by linarith
    have "(R + ov) * S \<le> H * S" using bk by (intro mult_le_mono1) simp
    then show "(R + ov) * S < 2 ^ 60" using HS by linarith
  qed
  have H60: "R + ov < 2 ^ 60"
  proof -
    have "H \<le> H * S" using fk by (cases S) simp_all
    moreover have "R + ov \<le> H" using bk by linarith
    ultimately show ?thesis using HS by linarith
  qed
  have w1: "unat ((128 div 2) * sizeof_float :: size_t) div 4 = win_stride g"
    by (simp add: sizeof_float_def g_def)
  have w2: "unat ((tile_w div 2) * sizeof_float) div 4 = fld_stride g"
  proof -
    have "unat ((tile_w div 2) * 4) = S * 4"
      using unat_mul[of "tile_w div 2" 4] S60(1) by (simp add: S_def)
    then show ?thesis by (simp add: sizeof_float_def g_def)
  qed
  have w3: "unat ((ry div 2) * (tile_w div 2) + cw) = row0 g * fld_stride g + col0 g"
  proof -
    have m: "unat ((ry div 2) * (tile_w div 2)) = R * S"
      unfolding R_def S_def by (rule unat_mul) (use S60(2) in \<open>simp add: R_def S_def\<close>)
    have "unat ((ry div 2) * (tile_w div 2) + cw) = R * S + C"
      unfolding m[symmetric] ck(1)[symmetric]
      by (rule unat_plus) (use S60 CS in \<open>simp add: m ck(1)\<close>)
    then show ?thesis by (simp add: g_def)
  qed
  have w4: "unat rw div 4 = win_cols g" using ck by (simp add: g_def)
  have w5: "unat (rh div 2) = win_rows g" by (simp add: g_def h_def)
  have w6: "unat ((ry div 2 + wo div 2) * (tile_w div 2) + wcw)
              = (row0 g + ov) * fld_stride g + (col0 g + wc)"
  proof -
    have s: "unat (ry div 2 + wo div 2) = R + ov"
      unfolding R_def ov_def
      by (rule unat_plus) (use H60 in \<open>simp add: R_def[symmetric] ov_def[symmetric]\<close>)
    have m: "unat ((ry div 2 + wo div 2) * (tile_w div 2)) = (R + ov) * S"
      unfolding s[symmetric] S_def
      by (rule unat_mul) (use S60(3) in \<open>simp add: s S_def[symmetric]\<close>)
    have "unat ((ry div 2 + wo div 2) * (tile_w div 2) + wcw) = (R + ov) * S + (C + wc)"
      unfolding m[symmetric] ck(6)[symmetric]
      by (rule unat_plus) (use S60 CS ck in \<open>simp add: m\<close>)
    then show ?thesis by (simp add: g_def)
  qed
  have w7: "unat ((wo div 2) * (128 div 2) + bcw) = ov * win_stride g + wc"
  proof -
    have o64: "ov \<le> 64" using bk by simp
    have m: "unat ((wo div 2) * 64) = ov * 64"
      using unat_mul[of "wo div 2" 64] o64 by (simp add: ov_def)
    have "unat ((wo div 2) * 64 + bcw) = ov * 64 + wc"
      using unat_plus[of "(wo div 2) * 64" bcw] o64 ck by (simp add: m)
    then show ?thesis by (simp add: g_def)
  qed
  have w8: "unat www div 4 = ww" using ck by simp
  have w9: "unat (wh div 2) = v" by (simp add: v_def)
  have fc: "fld_cols g = fld_stride g" by (simp add: g_def)
  have inv: "written (fld_stride g) T nxt0 nxt D" using sk by (simp add: g_def)
  have h64: "1 \<le> h" "h \<le> 64" using bk by simp_all
  have fit: "(h - 1) * 64 + w \<le> 4096" using h64 ck by simp
  have lb: "plane_lengths blk 4096" "step_fits (win_stride g) (win_cols g) (win_rows g) 4096"
    using sk h64 ck fit by (simp_all add: g_def step_fits_def)
  have lc: "plane_lengths cur (fld_rows g * fld_stride g)" using fk by (simp add: g_def)
  have ln: "plane_lengths nxt (fld_rows g * fld_stride g)" using sk by (simp add: g_def)
  have T: "full_step_sse (fld_stride g) (fld_cols g) (fld_rows g) a b cur = Inr T"
    using fk by (simp add: g_def)
  have ins: "ov + v \<le> win_rows g" "wc + ww \<le> win_cols g" "row0 g = 0 \<or> 2 \<le> ov"
    "row0 g + win_rows g = fld_rows g \<or> ov + v + 2 \<le> win_rows g"
    "col0 g = 0 \<or> 2 \<le> wc" "col0 g + win_cols g = fld_cols g \<or> wc + ww + 2 \<le> win_cols g"
    using bk ck by (simp_all add: g_def)
  from block_step[OF g fc inv lb lc ln T w1 w2 w3 w4 w5 w6 w7 w8 w9 ins]
  obtain blk1 blk2 nxt' where
    m1: "memcpy2D_planes blk 0 ((128 div 2) * sizeof_float) cur ((ry div 2) * (tile_w div 2) + cw)
           ((tile_w div 2) * sizeof_float) rw (rh div 2) = Inr blk1"
    and f: "full_step_sse (win_stride g) (win_cols g) (win_rows g) a b blk1 = Inr blk2"
    and m2: "memcpy2D_planes nxt ((ry div 2 + wo div 2) * (tile_w div 2) + wcw)
           ((tile_w div 2) * sizeof_float) blk2 ((wo div 2) * (128 div 2) + bcw)
           ((128 div 2) * sizeof_float) www (wh div 2) = Inr nxt'"
    and l: "plane_lengths blk2 4096" "plane_lengths nxt' (fld_rows g * fld_stride g)"
    and wn: "written (fld_stride g) T nxt0 nxt' (D \<union> rect (row0 g + ov) (col0 g + wc) v ww)"
    by blast
  have f': "full_step_sse 64 w (unat (rh div 2)) a b blk1 = Inr blk2"
    using f by (simp add: g_def h_def)
  have "band_state S H T nxt0 (D \<union> rect (R + ov) (C + wc) v ww) (nxt', blk2)"
    unfolding band_state_def prod.case using l wn by (simp add: g_def)
  then show ?thesis
    using m1 f' m2 unfolding S_def R_def ov_def v_def by blast
qed

lemma middle_block_step:
  assumes fo: "field_ok tile_w H a b cur T"
    and bo: "band_ok H ry rh wo wh"
    and st: "band_state (unat (tile_w div 2)) H T nxt0 D (nxt, blk)"
    and bs: "unat bs + 128 \<le> unat tile_w"
  shows "\<exists>s'. middle_block ry rh wo wh 128 tile_w 4 a b cur bs (nxt, blk) = Inr s' \<and>
           band_state (unat (tile_w div 2)) H T nxt0
             (D \<union> rect (unat (ry div 2) + unat (wo div 2)) (unat (bs div 2) + 2)
                    (unat (wh div 2)) 60) s'"
proof -
  define S where "S = unat (tile_w div 2)"
  define R where "R = unat (ry div 2)"
  define h where "h = unat (rh div 2)"
  define ov where "ov = unat (wo div 2)"
  define v where "v = unat (wh div 2)"
  define C where "C = unat (bs div 2)"
  note fk = fo[unfolded field_ok_def, folded S_def]
  note bk = bo[unfolded band_ok_def, folded R_def h_def ov_def v_def]
  note sk = st[unfolded band_state_def prod.case, folded S_def]
  define g where "g = \<lparr>win_stride = 64, win_rows = h, win_cols = 64, fld_stride = S, fld_rows = H,
                       fld_cols = S, row0 = R, col0 = C\<rparr>"
  have CS: "C + 64 \<le> S" using bs unfolding C_def S_def unat_half by simp
  have g: "geometry_ok g" unfolding geometry_ok_def g_def using bk CS by simp
  have HS: "H * S < 2 ^ 60" using fk by simp
  have S60: "S < 2 ^ 60" "R * S < 2 ^ 60" "(R + ov) * S < 2 ^ 60"
  proof -
    have "S \<le> H * S" using fk by (cases H) simp_all
    then show "S < 2 ^ 60" using HS by linarith
    have "R * S \<le> H * S" using bk by (intro mult_le_mono1) simp
    then show "R * S < 2 ^ 60" using HS by linarith
    have "(R + ov) * S \<le> H * S" using bk by (intro mult_le_mono1) simp
    then show "(R + ov) * S < 2 ^ 60" using HS by linarith
  qed
  have H60: "R + ov < 2 ^ 60"
  proof -
    have "H \<le> H * S" using fk by (cases S) simp_all
    moreover have "R + ov \<le> H" using bk by linarith
    ultimately show ?thesis using HS by linarith
  qed
  have p60: "(2::nat) ^ 60 * 4 < 2 ^ 64" "(2::nat) ^ 60 + 2 ^ 60 < 2 ^ 64" by simp_all
  have w1: "unat ((128 div 2) * sizeof_float :: size_t) div 4 = win_stride g"
    by (simp add: sizeof_float_def g_def)
  have w2: "unat ((tile_w div 2) * sizeof_float) div 4 = fld_stride g"
  proof -
    have "unat ((tile_w div 2) * 4) = S * 4"
      using unat_mul[of "tile_w div 2" 4] S60(1) by (simp add: S_def)
    then show ?thesis by (simp add: sizeof_float_def g_def)
  qed
  have w3: "unat ((ry div 2) * (tile_w div 2) + bs div 2) = row0 g * fld_stride g + col0 g"
  proof -
    have m: "unat ((ry div 2) * (tile_w div 2)) = R * S"
      unfolding R_def S_def by (rule unat_mul) (use S60(2) in \<open>simp add: R_def S_def\<close>)
    have "unat ((ry div 2) * (tile_w div 2) + bs div 2) = R * S + C"
      unfolding m[symmetric] C_def
      by (rule unat_plus) (use S60 CS in \<open>simp add: m C_def[symmetric]\<close>)
    then show ?thesis by (simp add: g_def)
  qed
  have w4: "unat ((128 div 2) * sizeof_float :: size_t) div 4 = win_cols g"
    by (simp add: sizeof_float_def g_def)
  have w5: "unat (rh div 2) = win_rows g" by (simp add: g_def h_def)
  have tw62: "unat tile_w < 2 ^ 62" using S60(1) unfolding S_def unat_half by simp
  have b4: "unat (bs + 4) = unat bs + 4"
    using unat_plus[of bs 4] bs tw62 by simp
  have w6: "unat ((ry div 2 + wo div 2) * (tile_w div 2) + (bs + 4) div 2)
              = (row0 g + ov) * fld_stride g + (col0 g + 2)"
  proof -
    have s: "unat (ry div 2 + wo div 2) = R + ov"
      unfolding R_def ov_def
      by (rule unat_plus) (use H60 in \<open>simp add: R_def[symmetric] ov_def[symmetric]\<close>)
    have m: "unat ((ry div 2 + wo div 2) * (tile_w div 2)) = (R + ov) * S"
      unfolding s[symmetric] S_def
      by (rule unat_mul) (use S60(3) in \<open>simp add: s S_def[symmetric]\<close>)
    have c: "unat ((bs + 4) div 2) = C + 2"
      unfolding unat_half b4 C_def by simp
    have "unat ((ry div 2 + wo div 2) * (tile_w div 2) + (bs + 4) div 2) = (R + ov) * S + (C + 2)"
      unfolding m[symmetric] c[symmetric]
      by (rule unat_plus) (use S60 CS in \<open>simp add: m c\<close>)
    then show ?thesis by (simp add: g_def)
  qed
  have w7: "unat ((wo div 2) * (128 div 2) + 4 div 2) = ov * win_stride g + 2"
  proof -
    have o64: "ov \<le> 64" using bk by simp
    have m: "unat ((wo div 2) * 64) = ov * 64"
      using unat_mul[of "wo div 2" 64] o64 by (simp add: ov_def)
    have "unat ((wo div 2) * 64 + 2) = ov * 64 + 2"
      using unat_plus[of "(wo div 2) * 64" 2] o64 by (simp add: m)
    then show ?thesis by (simp add: g_def)
  qed
  have w8: "unat (((128 - 2 * 4) div 2) * sizeof_float :: size_t) div 4 = 60"
    by (simp add: sizeof_float_def)
  have w9: "unat (wh div 2) = v" by (simp add: v_def)
  have fc: "fld_cols g = fld_stride g" by (simp add: g_def)
  have inv: "written (fld_stride g) T nxt0 nxt D" using sk by (simp add: g_def)
  have h64: "1 \<le> h" "h \<le> 64" using bk by simp_all
  have lb: "plane_lengths blk 4096" "step_fits (win_stride g) (win_cols g) (win_rows g) 4096"
    using sk h64 by (simp_all add: g_def step_fits_def)
  have lc: "plane_lengths cur (fld_rows g * fld_stride g)" using fk by (simp add: g_def)
  have ln: "plane_lengths nxt (fld_rows g * fld_stride g)" using sk by (simp add: g_def)
  have T: "full_step_sse (fld_stride g) (fld_cols g) (fld_rows g) a b cur = Inr T"
    using fk by (simp add: g_def)
  have ins: "ov + v \<le> win_rows g" "2 + 60 \<le> win_cols g" "row0 g = 0 \<or> 2 \<le> ov"
    "row0 g + win_rows g = fld_rows g \<or> ov + v + 2 \<le> win_rows g"
    "col0 g = 0 \<or> (2::nat) \<le> 2" "col0 g + win_cols g = fld_cols g \<or> 2 + 60 + 2 \<le> win_cols g"
    using bk by (simp_all add: g_def)
  from block_step[OF g fc inv lb lc ln T w1 w2 w3 w4 w5 w6 w7 w8 w9 ins]
  obtain blk1 blk2 nxt' where
    m1: "memcpy2D_planes blk 0 ((128 div 2) * sizeof_float) cur ((ry div 2) * (tile_w div 2) + bs div 2)
           ((tile_w div 2) * sizeof_float) ((128 div 2) * sizeof_float) (rh div 2) = Inr blk1"
    and f: "full_step_sse (win_stride g) (win_cols g) (win_rows g) a b blk1 = Inr blk2"
    and m2: "memcpy2D_planes nxt ((ry div 2 + wo div 2) * (tile_w div 2) + (bs + 4) div 2)
           ((tile_w div 2) * sizeof_float) blk2 ((wo div 2) * (128 div 2) + 4 div 2)
           ((128 div 2) * sizeof_float) (((128 - 2 * 4) div 2) * sizeof_float) (wh div 2) = Inr nxt'"
    and l: "plane_lengths blk2 4096" "plane_lengths nxt' (fld_rows g * fld_stride g)"
    and wn: "written (fld_stride g) T nxt0 nxt' (D \<union> rect (row0 g + ov) (col0 g + 2) v 60)"
    by blast
  have f': "full_step_sse (unat (128 div 2 :: size_t)) (unat (128 div 2 :: size_t)) (unat (rh div 2)) a b blk1
              = Inr blk2"
    using f by (simp add: g_def h_def)
  have "middle_block ry rh wo wh 128 tile_w 4 a b cur bs (nxt, blk) = Inr (nxt', blk2)"
    unfolding middle_block_def prod.case m1 bind_res_Inr f' m2 ..
  moreover have "band_state S H T nxt0 (D \<union> rect (R + ov) (C + 2) v 60) (nxt', blk2)"
    unfolding band_state_def prod.case using l wn by (simp add: g_def)
  ultimately show ?thesis
    unfolding S_def R_def ov_def C_def v_def by blast
qed


lemma rect_union_cols:
  "rect r c v w1 \<union> rect r (c + w1) v w2 = rect r c v (w1 + w2)"
  unfolding rect_def by auto

lemma rect_empty [simp]: "rect r c v 0 = {}" "rect r c 0 w = {}"
  unfolding rect_def by auto

lemma middle_loop:
  assumes fo: "field_ok tile_w H a b cur T"
    and bo: "band_ok H ry rh wo wh"
    and st: "band_state (unat (tile_w div 2)) H T nxt0 D (nxt, blk)"
    and wide: "128 < unat tile_w"
  shows "\<exists>ex s'. for_blocks loop_fuel 120 (tile_w - 128) 120
                   (middle_block ry rh wo wh 128 tile_w 4 a b cur) (nxt, blk) = Inr (ex, s') \<and>
           band_state (unat (tile_w div 2)) H T nxt0
             (D \<union> rect (unat (ry div 2) + unat (wo div 2)) 62 (unat (wh div 2))
                    ((unat ex - 120) div 2)) s' \<and>
           120 \<le> unat ex \<and> unat tile_w - 128 \<le> unat ex \<and>
           (120 < unat tile_w - 128 \<longrightarrow> unat ex < unat tile_w - 128 + 120) \<and>
           (unat tile_w - 128 \<le> 120 \<longrightarrow> ex = 120) \<and>
           120 dvd unat ex - 120"
proof -
  define S where "S = unat (tile_w div 2)"
  define r where "r = unat (ry div 2) + unat (wo div 2)"
  define v where "v = unat (wh div 2)"
  define I where "I = (\<lambda>x. band_state S H T nxt0 (D \<union> rect r 62 v ((x - 120) div 2)))"
  have le: "(128 :: size_t) \<le> tile_w" using wide by (simp add: word_le_nat_alt)
  have L: "unat (tile_w - 128) = unat tile_w - 128" using unat_sub[OF le] by simp
  have S60: "S < 2 ^ 60"
  proof -
    have "S \<le> H * S" using fo unfolding field_ok_def by (cases H) simp_all
    then show ?thesis using fo unfolding field_ok_def S_def by linarith
  qed
  have tw62: "unat tile_w < 2 ^ 62" using S60 unfolding S_def unat_half by simp
  have d: "0 < unat (120 :: size_t)" by simp
  have Lb: "unat (tile_w - 128) + unat (120 :: size_t) < 2 ^ 64" unfolding L using tw62 by simp
  have body: "\<exists>s'. middle_block ry rh wo wh 128 tile_w 4 a b cur x s = Inr s' \<and>
                I (unat x + unat (120 :: size_t)) s'"
    if x: "unat x < unat (tile_w - 128)" "unat (120 :: size_t) \<le> unat x" and i: "I (unat x) s" for x s
  proof -
    obtain n b' where s: "s = (n, b')" by (cases s) auto
    have x128: "unat x + 128 \<le> unat tile_w" using x(1) unfolding L by simp
    have x120: "120 \<le> unat x" using x(2) by simp
    from middle_block_step[OF fo bo i[unfolded I_def s S_def] x128]
    obtain s' where s': "middle_block ry rh wo wh 128 tile_w 4 a b cur x (n, b') = Inr s'"
      "band_state S H T nxt0 (D \<union> rect r 62 v ((unat x - 120) div 2)
          \<union> rect r (unat (x div 2) + 2) v 60) s'"
      unfolding S_def r_def v_def by blast
    have c: "unat (x div 2) + 2 = 62 + (unat x - 120) div 2"
      unfolding unat_half using x120 by simp
    have w: "(unat x - 120) div 2 + 60 = (unat x + 120 - 120) div 2" using x120 by simp
    have "D \<union> rect r 62 v ((unat x - 120) div 2) \<union> rect r (unat (x div 2) + 2) v 60
            = D \<union> rect r 62 v ((unat x + 120 - 120) div 2)"
      unfolding c Un_assoc rect_union_cols w ..
    then show ?thesis using s' unfolding s I_def by simp
  qed
  have I0: "I (unat (120 :: size_t)) (nxt, blk)" unfolding I_def using st by (simp add: S_def)
  have fuel: "unat (tile_w - 128) \<le> loop_fuel * unat (120 :: size_t) + unat (120 :: size_t)"
    unfolding L loop_fuel_def using tw62 by simp
  from for_blocks_invariant[of 120 "tile_w - 128" 120 I "middle_block ry rh wo wh 128 tile_w 4 a b cur"
      "(nxt, blk)" loop_fuel, OF d Lb body I0 fuel]
  obtain ex s' where r: "for_blocks loop_fuel 120 (tile_w - 128) 120
      (middle_block ry rh wo wh 128 tile_w 4 a b cur) (nxt, blk) = Inr (ex, s')"
    "I (unat ex) s'" "unat (120 :: size_t) \<le> unat ex" "unat (tile_w - 128) \<le> unat ex"
    "unat (120 :: size_t) < unat (tile_w - 128) \<longrightarrow> unat ex < unat (tile_w - 128) + unat (120 :: size_t)"
    "unat (tile_w - 128) \<le> unat (120 :: size_t) \<longrightarrow> ex = 120"
    "unat (120 :: size_t) dvd unat ex - unat (120 :: size_t)"
    by blast
  show ?thesis
    using r unfolding L I_def S_def r_def v_def by (intro exI[of _ ex] exI[of _ s']) simp
qed


text \<open>
  The start of the last block of a band, \<^verbatim>\<open>((tile_width - block_width) / (block_width -
  2 * halo_x) + 1) * (block_width - 2 * halo_x)\<close>, for blocks of 128 and a halo of 4.
\<close>

definition last_start :: "nat \<Rightarrow> nat" where
  "last_start tw = ((tw - 128) div 120 + 1) * 120"

lemma last_start_bounds:
  assumes "128 < tw"
  shows "tw - 128 < last_start tw" "last_start tw + 8 \<le> tw" "even (last_start tw)"
proof -
  have "(tw - 128) div 120 * 120 \<le> tw - 128" by simp
  then show "last_start tw + 8 \<le> tw" using assms unfolding last_start_def by simp
  have "tw - 128 < (tw - 128) div 120 * 120 + 120"
    using mod_less_divisor[of 120 "tw - 128"] div_mult_mod_eq[of "tw - 128" 120] by linarith
  then show "tw - 128 < last_start tw" unfolding last_start_def by simp
  show "even (last_start tw)" unfolding last_start_def by simp
qed

lemma sides_step:
  assumes fo: "field_ok tile_w H a b cur T"
    and bo: "band_ok H ry rh wo wh"
    and st: "band_state (unat (tile_w div 2)) H T nxt0 D (nxt, blk)"
    and wide: "128 < unat tile_w"
  shows "\<exists>s'. process_sides_sse ry rh wo wh 128 128 tile_w 4 a b cur nxt blk = Inr s' \<and>
           band_state (unat (tile_w div 2)) H T nxt0
             (D \<union> rect (unat (ry div 2) + unat (wo div 2)) 0 (unat (wh div 2)) 62
                \<union> rect (unat (ry div 2) + unat (wo div 2)) (last_start (unat tile_w) div 2 + 2)
                    (unat (wh div 2)) (unat (tile_w div 2) - last_start (unat tile_w) div 2 - 2)) s'"
proof -
  define S where "S = unat (tile_w div 2)"
  define r where "r = unat (ry div 2) + unat (wo div 2)"
  define v where "v = unat (wh div 2)"
  define tw where "tw = unat tile_w"
  define LS where "LS = last_start tw"
  define ls :: size_t where "ls = ((tile_w - 128) div (128 - 2 * 4) + 1) * (128 - 2 * 4)"
  note lb = last_start_bounds[OF wide, folded tw_def LS_def]
  have S60: "S < 2 ^ 60"
  proof -
    have "S \<le> H * S" using fo unfolding field_ok_def by (cases H) simp_all
    then show ?thesis using fo unfolding field_ok_def S_def by linarith
  qed
  have tw62: "tw < 2 ^ 62" using S60 unfolding S_def tw_def unat_half by simp
  have S2: "S = tw div 2" unfolding S_def tw_def unat_half ..
  have le: "(128 :: size_t) \<le> tile_w" using wide by (simp add: word_le_nat_alt)
  have L: "unat (tile_w - 128) = tw - 128" using unat_sub[OF le] by (simp add: tw_def)
  have q: "unat ((tile_w - 128) div 120) = (tw - 128) div 120" by (simp add: unat_div L)
  have q1: "unat ((tile_w - 128) div 120 + 1) = (tw - 128) div 120 + 1"
    using unat_plus[of "(tile_w - 128) div 120" 1] tw62 by (simp add: q)
  have uls: "unat ls = LS"
    using unat_mul[of "(tile_w - 128) div 120 + 1" 120] lb(2) tw62
    by (simp add: ls_def q1 LS_def last_start_def)
  define C where "C = LS div 2"
  have C: "unat (ls div 2) = C" by (simp add: unat_half uls C_def)
  have CS: "C + 4 \<le> S" "S \<le> C + 64" using lb unfolding C_def S2 by (auto elim!: evenE)
  have lsle: "ls div 2 \<le> tile_w div 2" using CS by (simp add: word_le_nat_alt C S_def[symmetric])
  have wd: "unat (tile_w div 2 - ls div 2) = S - C"
    using unat_sub[OF lsle] by (simp add: C S_def)
  have le2: "(2 :: size_t) \<le> tile_w div 2 - ls div 2" using CS by (simp add: word_le_nat_alt wd)
  have wd2: "unat (tile_w div 2 - ls div 2 - 2) = S - C - 2"
    using unat_sub[OF le2] by (simp add: wd)
  \<comment> \<open>first block\<close>
  have S64: "64 \<le> S" using wide unfolding S2 tw_def by simp
  from band_block[OF fo bo st, of 0 0 "(128 div 2) * sizeof_float" 64 0 0 0
      "((128 - 4) div 2) * sizeof_float" 62]
  obtain blk1 blk2 nxt1 where
    m1: "memcpy2D_planes blk 0 ((128 div 2) * sizeof_float) cur ((ry div 2) * (tile_w div 2) + 0)
           ((tile_w div 2) * sizeof_float) ((128 div 2) * sizeof_float) (rh div 2) = Inr blk1"
    and f1: "full_step_sse 64 64 (unat (rh div 2)) a b blk1 = Inr blk2"
    and m2: "memcpy2D_planes nxt ((ry div 2 + wo div 2) * (tile_w div 2) + 0)
           ((tile_w div 2) * sizeof_float) blk2 ((wo div 2) * (128 div 2) + 0)
           ((128 div 2) * sizeof_float) (((128 - 4) div 2) * sizeof_float) (wh div 2) = Inr nxt1"
    and s1: "band_state S H T nxt0 (D \<union> rect r (0 + 0) v 62) (nxt1, blk2)"
    using S64 unfolding S_def r_def v_def by (auto simp: sizeof_float_def)
  \<comment> \<open>last block\<close>
  have st1: "band_state (unat (tile_w div 2)) H T nxt0 (D \<union> rect r 0 v 62) (nxt1, blk2)"
    using s1 by (simp add: S_def)
  have rw: "unat ((tile_w div 2 - ls div 2) * sizeof_float) div 4 = S - C"
    using unat_mul[of "tile_w div 2 - ls div 2" 4] S60 by (simp add: sizeof_float_def wd)
  have ww: "unat ((tile_w div 2 - ls div 2 - 4 div 2) * sizeof_float) div 4 = S - C - 2"
    using unat_mul[of "tile_w div 2 - ls div 2 - 2" 4] S60 by (simp add: sizeof_float_def wd2)
  have ls4: "unat ((ls + 4) div 2) = C + 2"
    using unat_plus[of ls 4] lb tw62 by (simp add: unat_half uls C_def)
  have p: "1 \<le> S - C" "S - C \<le> 64" "C + (S - C) \<le> unat (tile_w div 2)"
    "unat (4 div 2 :: size_t) = 2" "2 + (S - C - 2) \<le> S - C" "C = 0 \<or> (2::nat) \<le> 2"
    "C + (S - C) = unat (tile_w div 2) \<or> 2 + (S - C - 2) + 2 \<le> S - C"
    using CS by (simp_all add: S_def)
  from band_block[OF fo bo st1, of "ls div 2" C "(tile_w div 2 - ls div 2) * sizeof_float" "S - C"
      "(ls + 4) div 2" 2 "4 div 2" "(tile_w div 2 - ls div 2 - 4 div 2) * sizeof_float" "S - C - 2",
      OF C rw p(1,2,3) ls4 p(4) ww p(5,6,7)]
  obtain blk3 blk4 nxt2 where
    m3: "memcpy2D_planes blk2 0 ((128 div 2) * sizeof_float) cur ((ry div 2) * (tile_w div 2) + ls div 2)
           ((tile_w div 2) * sizeof_float) ((tile_w div 2 - ls div 2) * sizeof_float) (rh div 2) = Inr blk3"
    and f2: "full_step_sse 64 (S - C) (unat (rh div 2)) a b blk3 = Inr blk4"
    and m4: "memcpy2D_planes nxt1 ((ry div 2 + wo div 2) * (tile_w div 2) + (ls + 4) div 2)
           ((tile_w div 2) * sizeof_float) blk4 ((wo div 2) * (128 div 2) + 4 div 2)
           ((128 div 2) * sizeof_float) ((tile_w div 2 - ls div 2 - 4 div 2) * sizeof_float) (wh div 2)
           = Inr nxt2"
    and s2: "band_state S H T nxt0 (D \<union> rect r 0 v 62 \<union> rect r (C + 2) v (S - C - 2)) (nxt2, blk4)"
    unfolding S_def[symmetric] r_def[symmetric] v_def[symmetric] by blast
  have "process_sides_sse ry rh wo wh 128 128 tile_w 4 a b cur nxt blk = Inr (nxt2, blk4)"
    using m1 f1 m2 m3 f2 m4 wd
    by (simp add: process_sides_sse_def Let_def ls_def)
  then show ?thesis
    using s2 unfolding S_def r_def v_def C_def LS_def tw_def by blast
qed


section \<open>A band\<close>

lemma process_band_sse_wide:
  assumes "\<not> tile_w \<le> 128"
  shows "process_band_sse ry rh wo wh 128 128 tile_w 4 a b cur nxt inner sides =
     bind_res (if sides \<noteq> 0
               then process_sides_sse ry rh wo wh 128 128 tile_w 4 a b cur nxt (block_buffers 128 128)
               else Inr (nxt, block_buffers 128 128)) (\<lambda>(nxt, blk).
     if inner \<noteq> 0 then
       bind_res (for_blocks loop_fuel 120 (tile_w - 128) 120
                   (middle_block ry rh wo wh 128 tile_w 4 a b cur) (nxt, blk))
         (\<lambda>(block_start, nxt, blk). Inr nxt)
     else Inr nxt)"
  using assms
  unfolding process_band_sse_def middle_block_def[abs_def] Let_def
  by simp


text \<open>
  The quadrant columns that the first and last block of a band write, and those that its
  middle blocks write, on a tile of \<open>tw\<close> columns.
\<close>

definition side_cols :: "nat \<Rightarrow> nat set" where
  "side_cols tw = (if tw \<le> 128 then {0..<tw div 2}
                   else {0..<62} \<union> {last_start tw div 2 + 2..<tw div 2})"

definition inner_cols :: "nat \<Rightarrow> nat set" where
  "inner_cols tw = (if tw \<le> 128 then {} else {62..<last_start tw div 2 + 2})"

definition band_cols :: "nat \<Rightarrow> int \<Rightarrow> int \<Rightarrow> nat set" where
  "band_cols tw inner sides =
     (if sides \<noteq> 0 then side_cols tw else {}) \<union> (if inner \<noteq> 0 then inner_cols tw else {})"

definition region :: "nat \<Rightarrow> nat \<Rightarrow> nat set \<Rightarrow> (nat \<times> nat) set" where
  "region r v cols = {(i, j). r \<le> i \<and> i < r + v \<and> j \<in> cols}"

lemma rect_region: "rect r c v w = region r v {c..<c + w}"
  unfolding rect_def region_def by auto

lemma region_union: "region r v A \<union> region r v B = region r v (A \<union> B)"
  unfolding region_def by auto

lemma region_empty [simp]: "region r v {} = {}"
  unfolding region_def by simp

lemma loop_exit_last_start:
  assumes "128 < tw" "(tw - 128) mod 120 \<noteq> 0"
    and "120 \<le> ex" "tw - 128 \<le> ex" "120 < tw - 128 \<longrightarrow> ex < tw - 128 + 120"
      "tw - 128 \<le> 120 \<longrightarrow> ex = 120" "120 dvd ex - 120"
  shows "ex = last_start tw"
proof (cases "tw - 128 \<le> 120")
  case True
  then have "tw - 128 < 120" using assms(2) by (cases "tw - 128 = 120") auto
  then show ?thesis using assms(6) True by (simp add: last_start_def)
next
  case False
  define L where "L = tw - 128"
  have ex: "L \<le> ex" "ex < L + 120" using assms(4,5) False unfolding L_def by simp_all
  have "120 dvd ex" using assms(3,7) by (metis dvd_add_triv_right_iff le_add_diff_inverse2)
  then obtain k where k: "ex = 120 * k" by (auto simp: dvd_def)
  have "L \<noteq> ex" using assms(2) k unfolding L_def by auto
  then have lo: "L < 120 * k" using ex(1) k by simp
  have hi: "120 * k < L + 120" using ex(2) k by simp
  define q where "q = L div 120"
  have "120 * q \<le> L" unfolding q_def by simp
  moreover have "L < 120 * q + 120"
    using mod_less_divisor[of 120 L] mult_div_mod_eq[of 120 L] unfolding q_def by linarith
  ultimately have "k = q + 1" using lo hi by linarith
  then have "k = L div 120 + 1" unfolding q_def .
  then show ?thesis unfolding k last_start_def L_def by simp
qed


lemma band_step:
  assumes fo: "field_ok tile_w H a b cur T"
    and bo: "band_ok H ry rh wo wh"
    and ln: "plane_lengths nxt (H * unat (tile_w div 2))"
    and wr: "written (unat (tile_w div 2)) T nxt0 nxt D"
    and nogap: "unat tile_w \<le> 128 \<or> (unat tile_w - 128) mod 120 \<noteq> 0"
  shows "\<exists>nxt'. process_band_sse ry rh wo wh 128 128 tile_w 4 a b cur nxt inner sides = Inr nxt' \<and>
           plane_lengths nxt' (H * unat (tile_w div 2)) \<and>
           written (unat (tile_w div 2)) T nxt0 nxt'
             (D \<union> region (unat (ry div 2) + unat (wo div 2)) (unat (wh div 2))
                    (band_cols (unat tile_w) inner sides))"
proof -
  define S where "S = unat (tile_w div 2)"
  define r where "r = unat (ry div 2) + unat (wo div 2)"
  define v where "v = unat (wh div 2)"
  define tw where "tw = unat tile_w"
  define blk0 where "blk0 = block_buffers 128 128"
  have lb0: "plane_lengths blk0 4096" unfolding blk0_def using block_buffers_lengths[of 128 128] by simp
  have st0: "band_state (unat (tile_w div 2)) H T nxt0 D (nxt, blk0)"
    unfolding band_state_def using lb0 ln wr by simp
  have S2: "S = tw div 2" unfolding S_def tw_def unat_half ..
  have S60: "S < 2 ^ 60"
  proof -
    have "S \<le> H * S" using fo unfolding field_ok_def by (cases H) simp_all
    then show ?thesis using fo unfolding field_ok_def S_def by linarith
  qed
  show ?thesis
  proof (cases "tile_w \<le> 128")
    case True
    then have n: "tw \<le> 128" by (simp add: word_le_nat_alt tw_def)
    show ?thesis
    proof (cases "sides = 0")
      case s0: True
      have "process_band_sse ry rh wo wh 128 128 tile_w 4 a b cur nxt inner sides = Inr nxt"
        using True s0 by (simp add: process_band_sse_def Let_def)
      moreover have "band_cols tw inner sides = {}"
        using s0 n by (simp add: band_cols_def inner_cols_def)
      ultimately show ?thesis using ln wr unfolding tw_def by simp
    next
      case s1: False
      have rw: "unat ((tile_w div 2) * sizeof_float) div 4 = S"
        using unat_mul[of "tile_w div 2" 4] S60 by (simp add: sizeof_float_def S_def)
      have p: "unat (0 :: size_t) = 0" "1 \<le> S" "S \<le> 64" "0 + S \<le> unat (tile_w div 2)"
        "unat (0 :: size_t) = 0 + 0" "0 + S \<le> S" "(0::nat) = 0 \<or> (2::nat) \<le> 0"
        "0 + S = unat (tile_w div 2) \<or> 0 + S + 2 \<le> S"
        using fo n unfolding field_ok_def S2 by (simp_all add: S_def[symmetric] S2)
      from band_block[OF fo bo st0, of 0 0 "(tile_w div 2) * sizeof_float" S 0 0 0
          "(tile_w div 2) * sizeof_float" S, OF p(1) rw p(2,3,4,5,1) rw p(6,7,8)]
      obtain blk1 blk2 nxt' where
        m1: "memcpy2D_planes blk0 0 ((128 div 2) * sizeof_float) cur ((ry div 2) * (tile_w div 2) + 0)
               ((tile_w div 2) * sizeof_float) ((tile_w div 2) * sizeof_float) (rh div 2) = Inr blk1"
        and f1: "full_step_sse 64 S (unat (rh div 2)) a b blk1 = Inr blk2"
        and m2: "memcpy2D_planes nxt ((ry div 2 + wo div 2) * (tile_w div 2) + 0)
               ((tile_w div 2) * sizeof_float) blk2 ((wo div 2) * (128 div 2) + 0)
               ((128 div 2) * sizeof_float) ((tile_w div 2) * sizeof_float) (wh div 2) = Inr nxt'"
        and s: "band_state S H T nxt0 (D \<union> rect r (0 + 0) v S) (nxt', blk2)"
        unfolding S_def[symmetric] r_def[symmetric] v_def[symmetric] by blast
      have "process_band_sse ry rh wo wh 128 128 tile_w 4 a b cur nxt inner sides = Inr nxt'"
        using True s1 m1 f1 m2
        by (simp add: process_band_sse_def Let_def blk0_def S_def)
      moreover have "band_cols tw inner sides = {0..<S}"
        using s1 n by (simp add: band_cols_def inner_cols_def side_cols_def S2)
      moreover have "rect r (0 + 0) v S = region r v {0..<S}" by (simp add: rect_region)
      ultimately show ?thesis
        using s unfolding band_state_def S_def r_def v_def tw_def by auto
    qed
  next
    case False
    then have wide: "128 < unat tile_w" by (simp add: word_le_nat_alt)
    have w128: "\<not> tw \<le> 128" using wide by (simp add: tw_def)
    have ng: "(tw - 128) mod 120 \<noteq> 0" using nogap wide by (simp add: tw_def)
    note lsb = last_start_bounds[OF wide, folded tw_def]
    \<comment> \<open>the first and the last block\<close>
    obtain nxt1 blk1 where
      e1: "(if sides \<noteq> 0
            then process_sides_sse ry rh wo wh 128 128 tile_w 4 a b cur nxt (block_buffers 128 128)
            else Inr (nxt, block_buffers 128 128)) = Inr (nxt1, blk1)"
      and s1: "band_state (unat (tile_w div 2)) H T nxt0
                 (D \<union> region r v (if sides \<noteq> 0 then side_cols tw else {})) (nxt1, blk1)"
    proof (cases "sides = 0")
      case True
      show ?thesis using that[of nxt blk0] True st0 by (simp add: blk0_def)
    next
      case s: False
      from sides_step[OF fo bo st0 wide]
      obtain s' where s': "process_sides_sse ry rh wo wh 128 128 tile_w 4 a b cur nxt blk0 = Inr s'"
        "band_state S H T nxt0
           (D \<union> rect r 0 v 62 \<union> rect r (last_start tw div 2 + 2) v (S - last_start tw div 2 - 2)) s'"
        unfolding S_def r_def v_def tw_def by blast
      obtain n1 b1 where nb: "s' = (n1, b1)" by (cases s') auto
      have le: "last_start tw div 2 + 2 \<le> S" using lsb unfolding S2 by (auto elim!: evenE)
      have e: "last_start tw div 2 + 2 + (S - last_start tw div 2 - 2) = S" using le by simp
      have "rect r 0 v 62 \<union> rect r (last_start tw div 2 + 2) v (S - last_start tw div 2 - 2)
              = region r v (side_cols tw)"
        unfolding rect_region region_union e side_cols_def S2[symmetric] using w128 by simp
      then have "band_state S H T nxt0 (D \<union> region r v (side_cols tw)) s'"
        using s'(2) by (simp add: Un_assoc)
      then show ?thesis using that[of n1 b1] s s'(1) nb by (simp add: blk0_def S_def)
    qed
    \<comment> \<open>the middle blocks\<close>
    obtain nxt2 where
      e2: "(if inner \<noteq> 0 then
              bind_res (for_blocks loop_fuel 120 (tile_w - 128) 120
                          (middle_block ry rh wo wh 128 tile_w 4 a b cur) (nxt1, blk1))
                (\<lambda>(block_start, nxt, blk). Inr nxt)
            else Inr nxt1) = Inr nxt2"
      and s2: "plane_lengths nxt2 (H * S) \<and>
               written S T nxt0 nxt2 (D \<union> region r v (if sides \<noteq> 0 then side_cols tw else {})
                  \<union> region r v (if inner \<noteq> 0 then inner_cols tw else {}))"
    proof (cases "inner = 0")
      case True
      show ?thesis using that[of nxt1] True s1 by (simp add: band_state_def S_def)
    next
      case i: False
      from middle_loop[OF fo bo s1 wide]
      obtain ex s' where l: "for_blocks loop_fuel 120 (tile_w - 128) 120
          (middle_block ry rh wo wh 128 tile_w 4 a b cur) (nxt1, blk1) = Inr (ex, s')"
        "band_state S H T nxt0 (D \<union> region r v (if sides \<noteq> 0 then side_cols tw else {})
           \<union> rect r 62 v ((unat ex - 120) div 2)) s'"
        and x: "120 \<le> unat ex" "tw - 128 \<le> unat ex" "120 < tw - 128 \<longrightarrow> unat ex < tw - 128 + 120"
          "tw - 128 \<le> 120 \<longrightarrow> ex = 120" "120 dvd unat ex - 120"
        unfolding S_def r_def v_def tw_def by blast
      have x4: "tw - 128 \<le> 120 \<longrightarrow> unat ex = 120" using x(4) by auto
      have ex: "unat ex = last_start tw"
        by (rule loop_exit_last_start[OF wide[folded tw_def] ng x(1,2,3) x4 x(5)])
      obtain n2 b2 where nb: "s' = (n2, b2)" by (cases s') auto
      have e: "62 + (last_start tw - 120) div 2 = last_start tw div 2 + 2"
        using lsb w128 unfolding last_start_def by simp
      have "rect r 62 v ((unat ex - 120) div 2) = region r v (inner_cols tw)"
        unfolding rect_region ex e inner_cols_def using w128 by simp
      then have "band_state S H T nxt0 (D \<union> region r v (if sides \<noteq> 0 then side_cols tw else {})
           \<union> region r v (inner_cols tw)) s'"
        using l(2) by simp
      then show ?thesis using that[of n2] i l(1) nb by (simp add: band_state_def)
    qed
    have "process_band_sse ry rh wo wh 128 128 tile_w 4 a b cur nxt inner sides = Inr nxt2"
      unfolding process_band_sse_wide[OF False] e1 using e2 by simp
    moreover have "D \<union> region r v (if sides \<noteq> 0 then side_cols tw else {})
           \<union> region r v (if inner \<noteq> 0 then inner_cols tw else {})
           = D \<union> region r v (band_cols tw inner sides)"
      unfolding band_cols_def Un_assoc region_union ..
    ultimately show ?thesis
      using s2 unfolding S_def r_def v_def tw_def by auto
  qed
qed


section \<open>The bands of a kernel\<close>

lemma region_union_rows: "region r v1 A \<union> region (r + v1) v2 A = region r (v1 + v2) A"
  unfolding region_def by auto

lemma cols_all:
  "side_cols tw \<union> inner_cols tw = {0..<tw div 2}"
proof (cases "tw \<le> 128")
  case True
  then show ?thesis by (simp add: side_cols_def inner_cols_def)
next
  case False
  then have w: "128 < tw" by simp
  note b = last_start_bounds[OF w]
  have "62 \<le> last_start tw div 2 + 2" unfolding last_start_def by simp
  moreover have "last_start tw div 2 + 2 \<le> tw div 2" using b by (auto elim!: evenE)
  ultimately show ?thesis using False unfolding side_cols_def inner_cols_def by auto
qed

lemma band_cols_all [simp]: "band_cols tw 1 1 = {0..<tw div 2}"
  unfolding band_cols_def using cols_all by simp

lemma written_all:
  assumes w: "written S T nxt0 nxt D" and ln: "plane_lengths nxt (H * S)"
    and lt: "plane_lengths T (H * S)" and all: "\<And>i j. i < H \<Longrightarrow> j < S \<Longrightarrow> (i, j) \<in> D"
  shows "nxt = T"
proof -
  have c: "get_re q nxt = get_re q T \<and> get_im q nxt = get_im q T" for q
  proof -
    have e: "get_re q nxt ! k = get_re q T ! k \<and> get_im q nxt ! k = get_im q T ! k" if "k < H * S" for k
    proof -
      have S: "0 < S" using that by (cases S) simp_all
      have i: "k div S < H" using that S by (simp add: less_mult_imp_div_less)
      have j: "k mod S < S" using S by simp
      have "cell_eq S nxt T (k div S) (k mod S)"
        using w all[OF i j] j unfolding written_def by blast
      then show ?thesis unfolding cell_eq_def by simp
    qed
    note l1 = get_quad_lengths[OF ln, of q]
    note l2 = get_quad_lengths[OF lt, of q]
    show ?thesis using e l1 l2 by (auto intro!: nth_equalityI)
  qed
  show ?thesis
    using c[of Q00] c[of Q01] c[of Q10] c[of Q11] by (intro planes.equality) simp_all
qed

text \<open>
  A kernel whose tile is at least one block high and has no column left between its
  middle blocks and its last block, with a halo of four sites and arrays of
  \<^verbatim>\<open>(tile_width / 2) * (tile_height / 2)\<close> floats.
\<close>

definition kernel_ok :: "kernel \<Rightarrow> bool" where
  "kernel_ok k =
     ((sense k = 0 \<or> sense k = 1) \<and> halo_x k = 4 \<and> halo_y k = 4 \<and>
      2 \<le> unat (tile_width k) \<and> unat (tile_width k) < 2 ^ 31 \<and>
      128 \<le> unat (tile_height k) \<and> unat (tile_height k) < 2 ^ 31 \<and>
      (unat (tile_width k) \<le> 128 \<or> (unat (tile_width k) - 128) mod 120 \<noteq> 0) \<and>
      plane_lengths (gen0 k) (unat (tile_height k div 2) * unat (tile_width k div 2)) \<and>
      plane_lengths (gen1 k) (unat (tile_height k div 2) * unat (tile_width k div 2)))"

lemma kernel_okD:
  assumes "kernel_ok k"
  shows "sense k = 0 \<or> sense k = 1" "halo_x k = 4" "halo_y k = 4"
    "2 \<le> unat (tile_width k)" "unat (tile_width k) < 2 ^ 31"
    "128 \<le> unat (tile_height k)" "unat (tile_height k) < 2 ^ 31"
    "unat (tile_width k) \<le> 128 \<or> (unat (tile_width k) - 128) mod 120 \<noteq> 0"
    "plane_lengths (gen0 k) (unat (tile_height k div 2) * unat (tile_width k div 2))"
    "plane_lengths (gen1 k) (unat (tile_height k div 2) * unat (tile_width k div 2))"
  using assms unfolding kernel_ok_def by blast+

lemma kernel_ok_field:
  assumes "kernel_ok k"
  shows "\<exists>T. field_ok (tile_width k) (unat (tile_height k div 2)) (coeff_a k) (coeff_b k)
               (gen k (sense k)) T \<and>
             plane_lengths T (unat (tile_height k div 2) * unat (tile_width k div 2))"
proof -
  let ?S = "unat (tile_width k div 2)" and ?H = "unat (tile_height k div 2)"
  note k = kernel_okD[OF assms]
  have S: "1 \<le> ?S" "?S < 2 ^ 30" using k(4,5) unfolding unat_half by simp_all
  have H: "1 \<le> ?H" "?H < 2 ^ 30" using k(6,7) unfolding unat_half by simp_all
  have "?H * ?S < 2 ^ 30 * 2 ^ 30" using S(2) H(2) by (intro mult_strict_mono') simp_all
  then have HS: "?H * ?S < 2 ^ 60" by simp
  have lc: "plane_lengths (gen k (sense k)) (?H * ?S)" using k(1,9,10) by (auto simp: gen_def)
  have fit: "step_fits ?S ?S ?H (?H * ?S)"
  proof -
    have "(?H - 1) * ?S + ?S = ?H * ?S" using H(1) by (cases ?H) simp_all
    then show ?thesis unfolding step_fits_def using S H by simp
  qed
  obtain T where T: "full_step_sse ?S ?S ?H (coeff_a k) (coeff_b k) (gen k (sense k)) = Inr T"
    using full_step_sse_defined[OF fit lc] by blast
  have "plane_lengths T (?H * ?S)" by (rule full_step_sse_lengths[OF T lc])
  then show ?thesis using S H HS lc T unfolding field_ok_def by blast
qed

text \<open>
  The kernel while a step writes its next generation: it is the kernel \<open>k\<close> of the start
  but for the arrays of the generation \<open>1 - sense\<close>, which hold the values of \<open>T\<close> on the
  cells of \<open>D\<close> and what they held at the start everywhere else.
\<close>

definition kstate :: "kernel \<Rightarrow> planes \<Rightarrow> (nat \<times> nat) set \<Rightarrow> kernel \<Rightarrow> bool" where
  "kstate k T D k' = (\<exists>nxt. k' = set_gen (1 - sense k) nxt k \<and>
     plane_lengths nxt (unat (tile_height k div 2) * unat (tile_width k div 2)) \<and>
     written (unat (tile_width k div 2)) T (gen k (1 - sense k)) nxt D)"

lemma kstate_start:
  assumes "kernel_ok k"
  shows "kstate k T {} k"
proof -
  note k = kernel_okD[OF assms]
  have s: "sense k = 0 \<or> sense k = 1" using k(1) .
  have "k = set_gen (1 - sense k) (gen k (1 - sense k)) k" using gen_set_gen(11)[OF s] by simp
  moreover have "plane_lengths (gen k (1 - sense k)) (unat (tile_height k div 2) * unat (tile_width k div 2))"
    using k(1,9,10) by (auto simp: gen_def)
  ultimately show ?thesis unfolding kstate_def using written_start by blast
qed

lemma kband_step:
  assumes ok: "kernel_ok k"
    and fo: "field_ok (tile_width k) (unat (tile_height k div 2)) (coeff_a k) (coeff_b k)
               (gen k (sense k)) T"
    and st: "kstate k T D k'"
    and bo: "band_ok (unat (tile_height k div 2)) ry rh wo wh"
  shows "\<exists>k''. band 128 128 k' ry rh wo wh inner sides = Inr k'' \<and>
           kstate k T (D \<union> region (unat (ry div 2) + unat (wo div 2)) (unat (wh div 2))
                              (band_cols (unat (tile_width k)) inner sides)) k''"
proof -
  note kk = kernel_okD[OF ok]
  note s = kk(1) and hx = kk(2) and ng = kk(8)
  obtain nxt where n: "k' = set_gen (1 - sense k) nxt k"
    "plane_lengths nxt (unat (tile_height k div 2) * unat (tile_width k div 2))"
    "written (unat (tile_width k div 2)) T (gen k (1 - sense k)) nxt D"
    using st unfolding kstate_def by blast
  from band_step[OF fo bo n(2,3) ng, of inner sides]
  obtain nxt' where p: "process_band_sse ry rh wo wh 128 128 (tile_width k) 4 (coeff_a k) (coeff_b k)
        (gen k (sense k)) nxt inner sides = Inr nxt'"
    "plane_lengths nxt' (unat (tile_height k div 2) * unat (tile_width k div 2))"
    "written (unat (tile_width k div 2)) T (gen k (1 - sense k)) nxt'
       (D \<union> region (unat (ry div 2) + unat (wo div 2)) (unat (wh div 2))
              (band_cols (unat (tile_width k)) inner sides))"
    by blast
  have "band 128 128 k' ry rh wo wh inner sides = Inr (set_gen (1 - sense k) nxt' k)"
    unfolding n(1) band_set_gen[OF s] hx p(1) by simp
  then show ?thesis using p(2,3) unfolding kstate_def by blast
qed


text \<open>
  The value of \<^verbatim>\<open>block_start\<close> when the loop over the bands is left, for blocks of 128
  rows and a halo of 4: the first of 120, 240, ... that is not below
  \<^verbatim>\<open>tile_height - 128\<close>.
\<close>

definition band_exit :: "nat \<Rightarrow> nat" where
  "band_exit th = (if th - 128 \<le> 120 then 120 else ((th - 128 + 119) div 120) * 120)"

lemma band_exit_unique:
  assumes "120 \<le> ex" "th - 128 \<le> ex" "120 < th - 128 \<longrightarrow> ex < th - 128 + 120"
    "th - 128 \<le> 120 \<longrightarrow> ex = 120" "120 dvd ex - 120"
  shows "ex = band_exit th"
proof (cases "th - 128 \<le> 120")
  case True
  then show ?thesis using assms(4) by (simp add: band_exit_def)
next
  case False
  define L where "L = th - 128"
  have ex: "L \<le> ex" "ex < L + 120" using assms(2,3) False unfolding L_def by simp_all
  have "120 dvd ex" using assms(1,5) by (metis dvd_add_triv_right_iff le_add_diff_inverse2)
  then obtain k where k: "ex = 120 * k" by (auto simp: dvd_def)
  define q where "q = (L + 119) div 120"
  have "120 * q \<le> L + 119" unfolding q_def by simp
  moreover have "L + 119 < 120 * q + 120"
    using mod_less_divisor[of 120 "L + 119"] mult_div_mod_eq[of 120 "L + 119"] unfolding q_def
    by linarith
  ultimately have "k = q" using ex k by linarith
  then show ?thesis using False unfolding k band_exit_def q_def L_def by simp
qed

lemma band_exit_bounds:
  assumes "128 \<le> th"
  shows "even (band_exit th)" "120 \<le> band_exit th" "th \<le> band_exit th + 128"
    "band_exit th + 8 \<le> th"
proof -
  show "even (band_exit th)" unfolding band_exit_def by simp
  define L where "L = th - 128"
  define q where "q = (L + 119) div 120"
  have a: "120 * q \<le> L + 119" unfolding q_def by simp
  have b: "L + 119 < 120 * q + 120"
    using mod_less_divisor[of 120 "L + 119"] mult_div_mod_eq[of 120 "L + 119"] unfolding q_def
    by linarith
  show "120 \<le> band_exit th"
    using a b assms unfolding band_exit_def L_def[symmetric] q_def[symmetric]
    by (auto simp: L_def)
  show "th \<le> band_exit th + 128"
    using a b assms unfolding band_exit_def L_def[symmetric] q_def[symmetric]
    by (auto simp: L_def)
  show "band_exit th + 8 \<le> th"
    using a b assms unfolding band_exit_def L_def[symmetric] q_def[symmetric]
    by (auto simp: L_def)
qed

lemma region_no_rows [simp]: "region r 0 A = {}"
  unfolding region_def by simp

text \<open>The loop over the bands of \<^verbatim>\<open>run_kernel\<close> and of \<^verbatim>\<open>run_kernel_on_halo\<close>.\<close>

lemma band_loop:
  assumes ok: "kernel_ok k"
    and fo: "field_ok (tile_width k) (unat (tile_height k div 2)) (coeff_a k) (coeff_b k)
               (gen k (sense k)) T"
    and st: "kstate k T D k0"
  shows "\<exists>ey k'. for_blocks loop_fuel 120 (tile_height k - 128) 120
                    (\<lambda>block_start k'. band 128 128 k' block_start 128 (halo_y k')
                                         (128 - 2 * halo_y k') inner sides) k0 = Inr (ey, k') \<and>
           unat ey = band_exit (unat (tile_height k)) \<and>
           kstate k T (D \<union> region 62 ((band_exit (unat (tile_height k)) - 120) div 2)
                              (band_cols (unat (tile_width k)) inner sides)) k'"
proof -
  note kk = kernel_okD[OF ok]
  define th where "th = unat (tile_height k)"
  define cols where "cols = band_cols (unat (tile_width k)) inner sides"
  define I where "I = (\<lambda>x. kstate k T (D \<union> region 62 ((x - 120) div 2) cols))"
  have le: "(128 :: size_t) \<le> tile_height k" using kk(6) by (simp add: word_le_nat_alt)
  have L: "unat (tile_height k - 128) = th - 128" using unat_sub[OF le] by (simp add: th_def)
  have d: "0 < unat (120 :: size_t)" by simp
  have Lb: "unat (tile_height k - 128) + unat (120 :: size_t) < 2 ^ 64"
    unfolding L using kk(7) by (simp add: th_def)
  have body: "\<exists>s'. band 128 128 s x 128 (halo_y s) (128 - 2 * halo_y s) inner sides = Inr s' \<and>
                I (unat x + unat (120 :: size_t)) s'"
    if x: "unat x < unat (tile_height k - 128)" "unat (120 :: size_t) \<le> unat x" and i: "I (unat x) s"
    for x s
  proof -
    have hy: "halo_y s = 4"
      using i kk(3) unfolding I_def kstate_def by (auto simp: gen_set_gen(7)[OF kk(1)])
    have x120: "120 \<le> unat x" using x(2) by simp
    have xth: "unat x + 128 < th" using x(1) unfolding L by simp
    have bo: "band_ok (unat (tile_height k div 2)) x 128 4 120"
      unfolding band_ok_def unat_half using xth by (simp add: th_def)
    from kband_step[OF ok fo i[unfolded I_def] bo, of inner sides]
    obtain s' where s': "band 128 128 s x 128 4 120 inner sides = Inr s'"
      "kstate k T (D \<union> region 62 ((unat x - 120) div 2) cols
         \<union> region (unat (x div 2) + unat (4 div 2 :: size_t)) (unat (120 div 2 :: size_t)) cols) s'"
      unfolding cols_def by blast
    have c: "unat (x div 2) + unat (4 div 2 :: size_t) = 62 + (unat x - 120) div 2"
      unfolding unat_half using x120 by simp
    have w: "(unat x - 120) div 2 + unat (120 div 2 :: size_t) = (unat x + 120 - 120) div 2"
      using x120 by simp
    have "D \<union> region 62 ((unat x - 120) div 2) cols
         \<union> region (unat (x div 2) + unat (4 div 2 :: size_t)) (unat (120 div 2 :: size_t)) cols
          = D \<union> region 62 ((unat x + 120 - 120) div 2) cols"
      unfolding c Un_assoc region_union_rows w ..
    then show ?thesis using s' unfolding I_def hy by simp
  qed
  have I0: "I (unat (120 :: size_t)) k0" unfolding I_def using st by simp
  have fuel: "unat (tile_height k - 128) \<le> loop_fuel * unat (120 :: size_t) + unat (120 :: size_t)"
    unfolding L loop_fuel_def using kk(7) by (simp add: th_def)
  from for_blocks_invariant[of 120 "tile_height k - 128" 120 I
      "\<lambda>block_start k'. band 128 128 k' block_start 128 (halo_y k') (128 - 2 * halo_y k') inner sides"
      k0 loop_fuel, OF d Lb body I0 fuel]
  obtain ey k' where r: "for_blocks loop_fuel 120 (tile_height k - 128) 120
      (\<lambda>block_start k'. band 128 128 k' block_start 128 (halo_y k') (128 - 2 * halo_y k') inner sides)
      k0 = Inr (ey, k')"
    "I (unat ey) k'" "unat (120 :: size_t) \<le> unat ey" "unat (tile_height k - 128) \<le> unat ey"
    "unat (120 :: size_t) < unat (tile_height k - 128) \<longrightarrow>
       unat ey < unat (tile_height k - 128) + unat (120 :: size_t)"
    "unat (tile_height k - 128) \<le> unat (120 :: size_t) \<longrightarrow> ey = 120"
    "unat (120 :: size_t) dvd unat ey - unat (120 :: size_t)"
    by blast
  have x4: "th - 128 \<le> 120 \<longrightarrow> unat ey = 120" using r(6) unfolding L by auto
  have ex: "unat ey = band_exit th"
    by (rule band_exit_unique[OF _ _ _ x4]) (use r(3,4,5,7) in \<open>simp_all add: L\<close>)
  show ?thesis
    using r(1,2) ex unfolding I_def cols_def th_def by auto
qed


section \<open>The two kernel calls of an iteration\<close>

text \<open>
  The quadrant cells that \<^verbatim>\<open>run_kernel\<close> writes, and those that
  \<^verbatim>\<open>run_kernel_on_halo\<close> writes, on a tile of \<open>tw\<close> by \<open>th\<close> sites.
\<close>

definition inner_cells :: "nat \<Rightarrow> nat \<Rightarrow> (nat \<times> nat) set" where
  "inner_cells tw th = region 62 ((band_exit th - 120) div 2) (inner_cols tw)"

definition halo_cells :: "nat \<Rightarrow> nat \<Rightarrow> (nat \<times> nat) set" where
  "halo_cells tw th =
     (if th \<le> 128 then region 0 (th div 2) {0..<tw div 2}
      else region 62 ((band_exit th - 120) div 2) (side_cols tw)
           \<union> region 0 62 {0..<tw div 2}
           \<union> region (band_exit th div 2 + 2) ((th - band_exit th - 4) div 2) {0..<tw div 2})"

lemma cells_cover:
  assumes "128 \<le> th" "i < th div 2" "j < tw div 2"
  shows "(i, j) \<in> halo_cells tw th \<union> inner_cells tw th"
proof (cases "th \<le> 128")
  case True
  then show ?thesis using assms unfolding halo_cells_def region_def by simp
next
  case False
  note b = band_exit_bounds[OF assms(1)]
  define e where "e = band_exit th div 2"
  have e: "60 \<le> e" "e + 4 \<le> th div 2" "(band_exit th - 120) div 2 = e - 60"
    "(th - band_exit th - 4) div 2 = th div 2 - e - 2"
    using b unfolding e_def by (auto elim!: evenE)
  have j: "j \<in> side_cols tw \<or> j \<in> inner_cols tw" using cols_all[of tw] assms(3) by auto
  consider "i < 62" | "62 \<le> i" "i < e + 2" | "e + 2 \<le> i" by linarith
  then show ?thesis
  proof cases
    case 1
    then show ?thesis using False assms(3) unfolding halo_cells_def region_def by simp
  next
    case 2
    then show ?thesis
      using False j e unfolding halo_cells_def inner_cells_def region_def by auto
  next
    case 3
    have t: "e + 2 + (th div 2 - e - 2) = th div 2" using e(1,2) by linarith
    have "(i, j) \<in> region (e + 2) (th div 2 - e - 2) {0..<tw div 2}"
      unfolding region_def t using 3 assms(2,3) by simp
    then show ?thesis
      using False unfolding halo_cells_def e(4) e_def[symmetric] by simp
  qed
qed

lemma run_kernel_step:
  assumes ok: "kernel_ok k"
    and fo: "field_ok (tile_width k) (unat (tile_height k div 2)) (coeff_a k) (coeff_b k)
               (gen k (sense k)) T"
    and st: "kstate k T D k1"
  shows "\<exists>k'. run_kernel k1 = Inr (k'\<lparr>sense := 1 - sense k\<rparr>) \<and>
           kstate k T (D \<union> inner_cells (unat (tile_width k)) (unat (tile_height k))) k'"
proof -
  note kk = kernel_okD[OF ok]
  obtain nxt where n: "k1 = set_gen (1 - sense k) nxt k" using st unfolding kstate_def by blast
  have f: "halo_y k1 = 4" "tile_height k1 = tile_height k"
    unfolding n using kk(3) by (simp_all add: gen_set_gen[OF kk(1)])
  from band_loop[OF ok fo st, of 1 0]
  obtain ey k' where l: "for_blocks loop_fuel 120 (tile_height k - 128) 120
        (\<lambda>block_start k'. band 128 128 k' block_start 128 (halo_y k') (128 - 2 * halo_y k') 1 0) k1
        = Inr (ey, k')"
    "kstate k T (D \<union> region 62 ((band_exit (unat (tile_height k)) - 120) div 2)
                       (band_cols (unat (tile_width k)) 1 0)) k'"
    by blast
  have s: "sense k' = sense k" using l(2) unfolding kstate_def by (auto simp: gen_set_gen[OF kk(1)])
  have "run_kernel k1 = Inr (k'\<lparr>sense := 1 - sense k\<rparr>)"
    unfolding run_kernel_def run_kernel_blocks_def BLOCK_WIDTH_def BLOCK_HEIGHT_def f
    using l(1) s by simp
  moreover have "band_cols (unat (tile_width k)) 1 0 = inner_cols (unat (tile_width k))"
    by (simp add: band_cols_def)
  ultimately show ?thesis using l(2) unfolding inner_cells_def by auto
qed


lemma kstate_fields:
  assumes "kernel_ok k" "kstate k T D k'"
  shows "halo_y k' = 4" "tile_height k' = tile_height k" "sense k' = sense k"
  using assms(2) kernel_okD(3)[OF assms(1)] unfolding kstate_def
  by (auto simp: gen_set_gen[OF kernel_okD(1)[OF assms(1)]])

lemma run_kernel_on_halo_step:
  assumes ok: "kernel_ok k"
    and fo: "field_ok (tile_width k) (unat (tile_height k div 2)) (coeff_a k) (coeff_b k)
               (gen k (sense k)) T"
  shows "\<exists>k1. run_kernel_on_halo k = Inr k1 \<and>
           kstate k T (halo_cells (unat (tile_width k)) (unat (tile_height k))) k1"
proof -
  note kk = kernel_okD[OF ok]
  define th where "th = unat (tile_height k)"
  define tw where "tw = unat (tile_width k)"
  define H where "H = unat (tile_height k div 2)"
  have H2: "H = th div 2" unfolding H_def th_def unat_half ..
  note st0 = kstate_start[OF ok, of T]
  show ?thesis
  proof (cases "tile_height k \<le> 128")
    case True
    then have t: "th = 128" using kk(6) by (simp add: word_le_nat_alt th_def)
    have bo: "band_ok (unat (tile_height k div 2)) 0 (tile_height k) 0 (tile_height k)"
      unfolding band_ok_def H_def[symmetric] using t H2 by simp
    from kband_step[OF ok fo st0 bo, of 1 1]
    obtain k1 where k1: "band 128 128 k 0 (tile_height k) 0 (tile_height k) 1 1 = Inr k1"
      "kstate k T ({} \<union> region (unat (0 div 2 :: size_t) + unat (0 div 2 :: size_t))
                          (unat (tile_height k div 2)) (band_cols tw 1 1)) k1"
      unfolding tw_def by blast
    have "run_kernel_on_halo k = Inr k1"
      unfolding run_kernel_on_halo_def run_kernel_on_halo_blocks_def BLOCK_WIDTH_def BLOCK_HEIGHT_def
      using True k1(1) by simp
    moreover have "halo_cells tw th = region 0 H {0..<tw div 2}"
      unfolding halo_cells_def H2 using t by simp
    ultimately show ?thesis using k1(2) unfolding th_def[symmetric] tw_def[symmetric] H_def[symmetric]
      by auto
  next
    case False
    then have t: "128 < th" by (simp add: word_le_nat_alt th_def)
    have t128: "128 \<le> th" using t by simp
    note be = band_exit_bounds[OF t128]
    define e where "e = band_exit th div 2"
    \<comment> \<open>the side blocks of the middle bands\<close>
    from band_loop[OF ok fo st0, of 0 1]
    obtain ey k' where l: "for_blocks loop_fuel 120 (tile_height k - 128) 120
          (\<lambda>block_start k'. band 128 128 k' block_start 128 (halo_y k') (128 - 2 * halo_y k') 0 1) k
          = Inr (ey, k')"
      "unat ey = band_exit th"
      "kstate k T ({} \<union> region 62 ((band_exit th - 120) div 2) (band_cols tw 0 1)) k'"
      unfolding th_def tw_def by blast
    note f1 = kstate_fields[OF ok l(3)]
    \<comment> \<open>the first band\<close>
    have bo1: "band_ok (unat (tile_height k div 2)) 0 128 0 124"
      unfolding band_ok_def H_def[symmetric] using t H2 by simp
    from kband_step[OF ok fo l(3) bo1, of 1 1]
    obtain k'' where b1: "band 128 128 k' 0 128 0 124 1 1 = Inr k''"
      "kstate k T ({} \<union> region 62 ((band_exit th - 120) div 2) (band_cols tw 0 1)
         \<union> region (unat (0 div 2 :: size_t) + unat (0 div 2 :: size_t)) (unat (124 div 2 :: size_t))
             (band_cols tw 1 1)) k''"
      unfolding tw_def by blast
    note f2 = kstate_fields[OF ok b1(2)]
    \<comment> \<open>the last band\<close>
    have ele: "ey \<le> tile_height k" using be l(2) by (simp add: word_le_nat_alt th_def[symmetric])
    have u1: "unat (tile_height k - ey) = th - band_exit th"
      using unat_sub[OF ele] by (simp add: l(2) th_def)
    have le4: "4 \<le> tile_height k - ey" using be by (simp add: word_le_nat_alt u1)
    have u2: "unat (tile_height k - ey - 4) = th - band_exit th - 4"
      using unat_sub[OF le4] by (simp add: u1)
    have ar: "e + (th - band_exit th) div 2 = th div 2" "1 \<le> (th - band_exit th) div 2"
      "(th - band_exit th) div 2 \<le> 64"
      "2 + (th - band_exit th - 4) div 2 \<le> (th - band_exit th) div 2"
      using be unfolding e_def by (auto elim!: evenE)
    have bo2: "band_ok (unat (tile_height k div 2)) ey (tile_height k - ey) 4 (tile_height k - ey - 4)"
      unfolding band_ok_def unat_half u1 u2 l(2) e_def[symmetric] th_def[symmetric]
      using ar by simp
    from kband_step[OF ok fo b1(2) bo2, of 1 1]
    obtain k1 where b2: "band 128 128 k'' ey (tile_height k - ey) 4 (tile_height k - ey - 4) 1 1 = Inr k1"
      "kstate k T ({} \<union> region 62 ((band_exit th - 120) div 2) (band_cols tw 0 1)
         \<union> region (unat (0 div 2 :: size_t) + unat (0 div 2 :: size_t)) (unat (124 div 2 :: size_t))
             (band_cols tw 1 1)
         \<union> region (unat (ey div 2) + unat (4 div 2 :: size_t)) (unat ((tile_height k - ey - 4) div 2))
             (band_cols tw 1 1)) k1"
      unfolding tw_def by blast
    have "run_kernel_on_halo k = Inr k1"
      unfolding run_kernel_on_halo_def run_kernel_on_halo_blocks_def BLOCK_WIDTH_def BLOCK_HEIGHT_def
      using False l(1) b1(1) b2(1) kk(3) f1 f2 by simp
    moreover have "{} \<union> region 62 ((band_exit th - 120) div 2) (band_cols tw 0 1)
         \<union> region (unat (0 div 2 :: size_t) + unat (0 div 2 :: size_t)) (unat (124 div 2 :: size_t))
             (band_cols tw 1 1)
         \<union> region (unat (ey div 2) + unat (4 div 2 :: size_t)) (unat ((tile_height k - ey - 4) div 2))
             (band_cols tw 1 1) = halo_cells tw th"
      unfolding halo_cells_def unat_half u2 l(2) using t by (simp add: band_cols_def cols_all)
    ultimately show ?thesis using b2(2) unfolding th_def[symmetric] tw_def[symmetric] by auto
  qed
qed


lemma cells_partition:
  assumes "128 \<le> th"
  shows "halo_cells tw th \<inter> inner_cells tw th = {}"
    "halo_cells tw th \<union> inner_cells tw th = {(i, j). i < th div 2 \<and> j < tw div 2}"
proof -
  note b = band_exit_bounds[OF assms]
  define e where "e = band_exit th div 2"
  have e: "60 \<le> e" "e + 4 \<le> th div 2" "(band_exit th - 120) div 2 = e - 60"
    "(th - band_exit th - 4) div 2 = th div 2 - e - 2"
    using b unfolding e_def by (auto elim!: evenE)
  have c: "side_cols tw \<inter> inner_cols tw = {}" "side_cols tw \<union> inner_cols tw = {0..<tw div 2}"
    using cols_all[of tw] last_start_bounds[of tw]
    by (auto simp: side_cols_def inner_cols_def)
  have i: "inner_cells tw th = region 62 (e - 60) (inner_cols tw)"
    unfolding inner_cells_def e(3) ..
  have h: "halo_cells tw th =
       (if th \<le> 128 then region 0 (th div 2) {0..<tw div 2}
        else region 62 (e - 60) (side_cols tw) \<union> region 0 62 {0..<tw div 2}
             \<union> region (e + 2) (th div 2 - e - 2) {0..<tw div 2})"
    unfolding halo_cells_def e(3,4) e_def ..
  have z: "th \<le> 128 \<Longrightarrow> e = 60"
    using assms unfolding e_def band_exit_def by simp
  show "halo_cells tw th \<inter> inner_cells tw th = {}"
    unfolding i h region_def using c(1) e(1,2) z by (auto split: if_splits)
  have "(i, j) \<in> halo_cells tw th \<union> inner_cells tw th \<Longrightarrow> i < th div 2 \<and> j < tw div 2"
    for i j
    unfolding i h region_def using c(2) e(1,2) z by (auto split: if_splits)
  then show "halo_cells tw th \<union> inner_cells tw th = {(i, j). i < th div 2 \<and> j < tw div 2}"
    using cells_cover[OF assms, where tw = tw] by auto
qed


section \<open>One iteration in the order of the code\<close>

text \<open>
  A tile of 256 by 256 sites, of four blocks, with coefficients \<open>3 / 5\<close> and \<open>4 / 5\<close>.
\<close>

definition kernel_256x256 :: kernel where
  "kernel_256x256 = \<lparr>coeff_a = 3 / 5, coeff_b = 4 / 5, tile_width = 256, tile_height = 256,
     halo_x = 4, halo_y = 4, sense = 0, gen0 = ones_planes 16384, gen1 = zero_planes 16384,
     start_x = 0, inner_end_x = 0, start_y = 0, inner_start_y = 0, inner_end_y = 0\<rparr>"

lemma kernel_256x256_constructed:
  "CPUBlockSSEKernel (replicate 65536 1) (replicate 65536 0) (3 / 5) (4 / 5) 256 256 4 4
     = Inr kernel_256x256"
proof -
  have p: "pack_quadrant (replicate 65536 c) 256 256 di dj (replicate 16384 0) = replicate 16384 c"
    if "di < 2" "dj < 2" for c :: real and di dj
    by (rule pack_quadrant_const) (use that in simp_all)
  show ?thesis
    by (simp add: CPUBlockSSEKernel_def Let_def kernel_256x256_def zero_planes_def
        ones_planes_def p)
qed

lemma kernel_256x256_ok: "kernel_ok kernel_256x256"
  by (simp add: kernel_ok_def kernel_256x256_def plane_lengths_def ones_planes_def
      zero_planes_def)

text \<open>
  Claim C1, as stated, fails. On the tile of 56 by 128 sites, \<^verbatim>\<open>run_kernel\<close> called
  first toggles the flag at its end, so that \<^verbatim>\<open>run_kernel_on_halo\<close>, called after it,
  reads generation 1, which nothing has written, and overwrites generation 0, the field
  of the start. Both generations then hold 0 in the cell 14 of \<^verbatim>\<open>r00\<close>, where the full
  step of the field holds 1, as does the result of the two calls in the other order.
\<close>

theorem mandated_order_counterexample:
  "sense kernel_56x128 = 0 \<and> gen0 kernel_56x128 = ones_field \<and>
   full_step_sse 28 28 64 1 0 ones_field = Inr ones_field \<and> r00 ones_field ! 14 = 1 \<and>
   run_kernel kernel_56x128 = Inr (kernel_56x128\<lparr>sense := 1\<rparr>) \<and>
   run_kernel_on_halo (kernel_56x128\<lparr>sense := 1\<rparr>)
     = Inr (kernel_56x128\<lparr>sense := 1, gen0 := zero_field\<rparr>) \<and>
   r00 (gen0 (kernel_56x128\<lparr>sense := 1, gen0 := zero_field\<rparr>)) ! 14 = 0 \<and>
   r00 (gen1 (kernel_56x128\<lparr>sense := 1, gen0 := zero_field\<rparr>)) ! 14 = 0 \<and>
   current_r00 (bind_res (run_kernel kernel_56x128) run_kernel_on_halo) 14 = Some 0 \<and>
   current_r00 (bind_res (run_kernel_on_halo kernel_56x128) run_kernel) 14 = Some 1"
proof -
  have f: "full_step_sse 28 28 64 1 0 ones_field = Inr ones_field"
    by (rule full_step_sse_unit[OF _ field_lengths(1)]) (simp add: step_fits_def)
  have r: "run_kernel kernel_56x128 = Inr (kernel_56x128\<lparr>sense := 1\<rparr>)"
    using run_kernel_128_flip[of kernel_56x128] by (simp add: kernel_56x128_fields)
  have r': "run_kernel (kernel_56x128\<lparr>gen1 := ones_field\<rparr>)
              = Inr (kernel_56x128\<lparr>gen1 := ones_field, sense := 1\<rparr>)"
    using run_kernel_128_flip[of "kernel_56x128\<lparr>gen1 := ones_field\<rparr>"]
    by (simp add: kernel_56x128_fields)
  show ?thesis
    unfolding r
    using f r' run_kernel_on_halo_flipped_56x128 run_kernel_on_halo_56x128 ones_zero_differ
    by (simp add: current_r00_def kernel_56x128_fields gen_def)
qed

text \<open>
  Claim C1, amended. The order of the code is \<^verbatim>\<open>run_kernel_on_halo\<close>,
  \<^verbatim>\<open>start_halo_exchange\<close>, \<^verbatim>\<open>run_kernel\<close>, \<^verbatim>\<open>finish_halo_exchange\<close>. Let the kernel have
  its flag 0 or 1, a halo of 4 sites, a tile at least one block high, a width under which
  the blocks of a band leave no column out, and eight arrays of a quarter of the tile in
  each generation (\<open>kernel_ok\<close>). Then the full step of the whole current generation
  returns some \<open>T\<close>, both kernel calls return, and together they apply exactly this one
  step:

    \<^item> \<^verbatim>\<open>run_kernel_on_halo\<close> changes the next generation only: it leaves \<open>T\<close> in the
      cells of \<open>halo_cells\<close>, the first and the last band and the side blocks of the
      bands between them, and leaves the other cells as they were; the flag and the
      current generation are as before;
    \<^item> \<^verbatim>\<open>run_kernel\<close>, called on this state, returns the kernel whose next generation is
      \<open>T\<close> in every cell and whose flag is toggled, once, at the end of the call; the
      cells outside \<open>inner_cells\<close>, the middle blocks of the middle bands, already held
      \<open>T\<close> before the call; the generation read is as it was at the start;
    \<^item> \<open>halo_cells\<close> and \<open>inner_cells\<close> are disjoint and together are all the cells of
      the tile, so that every cell is written by exactly one of the two calls;
    \<^item> the transfers that \<^verbatim>\<open>start_halo_exchange\<close> posts between the two calls and those
      that \<^verbatim>\<open>finish_halo_exchange\<close> posts after them all address the generation written.
\<close>

theorem kernel_iteration_full_step:
  assumes ok: "kernel_ok k"
  shows "\<exists>T nxt1.
     full_step_sse (unat (tile_width k div 2)) (unat (tile_width k div 2))
       (unat (tile_height k div 2)) (coeff_a k) (coeff_b k) (gen k (sense k)) = Inr T \<and>
     run_kernel_on_halo k = Inr (set_gen (1 - sense k) nxt1 k) \<and>
     written (unat (tile_width k div 2)) T (gen k (1 - sense k)) nxt1
       (halo_cells (unat (tile_width k)) (unat (tile_height k))) \<and>
     run_kernel (set_gen (1 - sense k) nxt1 k)
       = Inr ((set_gen (1 - sense k) T k)\<lparr>sense := 1 - sense k\<rparr>) \<and>
     (\<forall>i j. i < unat (tile_height k div 2) \<longrightarrow> j < unat (tile_width k div 2) \<longrightarrow>
        (i, j) \<notin> inner_cells (unat (tile_width k)) (unat (tile_height k)) \<longrightarrow>
        cell_eq (unat (tile_width k div 2)) T nxt1 i j) \<and>
     halo_cells (unat (tile_width k)) (unat (tile_height k))
       \<inter> inner_cells (unat (tile_width k)) (unat (tile_height k)) = {} \<and>
     halo_cells (unat (tile_width k)) (unat (tile_height k))
       \<union> inner_cells (unat (tile_width k)) (unat (tile_height k))
       = {(i, j). i < unat (tile_height k div 2) \<and> j < unat (tile_width k div 2)} \<and>
     sense (set_gen (1 - sense k) nxt1 k) = sense k \<and>
     gen (set_gen (1 - sense k) nxt1 k) (sense k) = gen k (sense k) \<and>
     gen ((set_gen (1 - sense k) T k)\<lparr>sense := 1 - sense k\<rparr>) (1 - sense k) = T \<and>
     gen ((set_gen (1 - sense k) T k)\<lparr>sense := 1 - sense k\<rparr>) (sense k) = gen k (sense k) \<and>
     set (map buffer_of (start_halo_exchange (set_gen (1 - sense k) nxt1 k))) = {Some (1 - sense k)} \<and>
     set (map buffer_of (finish_halo_exchange ((set_gen (1 - sense k) T k)\<lparr>sense := 1 - sense k\<rparr>)))
       = {None, Some (1 - sense k)}"
proof -
  note kk = kernel_okD[OF ok]
  let ?S = "unat (tile_width k div 2)" and ?H = "unat (tile_height k div 2)"
  let ?tw = "unat (tile_width k)" and ?th = "unat (tile_height k)"
  obtain T where fo: "field_ok (tile_width k) ?H (coeff_a k) (coeff_b k) (gen k (sense k)) T"
    and lt: "plane_lengths T (?H * ?S)"
    using kernel_ok_field[OF ok] by blast
  have T: "full_step_sse ?S ?S ?H (coeff_a k) (coeff_b k) (gen k (sense k)) = Inr T"
    using fo unfolding field_ok_def by simp
  obtain k1 where h: "run_kernel_on_halo k = Inr k1" and s1: "kstate k T (halo_cells ?tw ?th) k1"
    using run_kernel_on_halo_step[OF ok fo] by blast
  obtain nxt1 where n1: "k1 = set_gen (1 - sense k) nxt1 k"
    "written ?S T (gen k (1 - sense k)) nxt1 (halo_cells ?tw ?th)"
    using s1 unfolding kstate_def by blast
  obtain k' where r: "run_kernel k1 = Inr (k'\<lparr>sense := 1 - sense k\<rparr>)"
    and s2: "kstate k T (halo_cells ?tw ?th \<union> inner_cells ?tw ?th) k'"
    using run_kernel_step[OF ok fo s1] by blast
  obtain nxt2 where n2: "k' = set_gen (1 - sense k) nxt2 k" "plane_lengths nxt2 (?H * ?S)"
    "written ?S T (gen k (1 - sense k)) nxt2 (halo_cells ?tw ?th \<union> inner_cells ?tw ?th)"
    using s2 unfolding kstate_def by blast
  have "nxt2 = T"
    by (rule written_all[OF n2(3,2) lt]) (rule cells_cover[OF kk(6)]; simp add: unat_half)
  then have r': "run_kernel (set_gen (1 - sense k) nxt1 k)
                   = Inr ((set_gen (1 - sense k) T k)\<lparr>sense := 1 - sense k\<rparr>)"
    using r unfolding n1(1) n2(1) by simp
  have g: "sense (set_gen (1 - sense k) nxt1 k) = sense k"
    "gen (set_gen (1 - sense k) nxt1 k) (sense k) = gen k (sense k)"
    "gen ((set_gen (1 - sense k) T k)\<lparr>sense := 1 - sense k\<rparr>) (1 - sense k) = T"
    "gen ((set_gen (1 - sense k) T k)\<lparr>sense := 1 - sense k\<rparr>) (sense k) = gen k (sense k)"
    using kk(1) by (auto simp: gen_def set_gen_def)
  have x: "set (map buffer_of (start_halo_exchange (set_gen (1 - sense k) nxt1 k))) = {Some (1 - sense k)}"
    "set (map buffer_of (finish_halo_exchange ((set_gen (1 - sense k) T k)\<lparr>sense := 1 - sense k\<rparr>)))
       = {None, Some (1 - sense k)}"
    unfolding start_halo_exchange_buffer finish_halo_exchange_buffer g(1) by simp_all
  have hs: "?H = ?th div 2" "?S = ?tw div 2" by (simp_all add: unat_half)
  note cp = cells_partition[OF kk(6), of ?tw, folded hs]
  have o: "cell_eq ?S T nxt1 i j" if "i < ?H" "j < ?S" "(i, j) \<notin> inner_cells ?tw ?th" for i j
  proof -
    have "(i, j) \<in> halo_cells ?tw ?th" using that cp(2) by auto
    then have "cell_eq ?S nxt1 T i j" using n1(2) that(2) unfolding written_def by blast
    then show ?thesis unfolding cell_eq_def by simp
  qed
  show ?thesis
    using T h[unfolded n1(1)] n1(2) r' g x o cp by blast
qed

theorem kernel_iteration_full_step_witness:
  "kernel_ok kernel_256x256 \<and>
   (\<exists>T nxt1.
      full_step_sse 128 128 128 (3 / 5) (4 / 5) (ones_planes 16384) = Inr T \<and>
      run_kernel_on_halo kernel_256x256 = Inr (kernel_256x256\<lparr>gen1 := nxt1\<rparr>) \<and>
      written 128 T (zero_planes 16384) nxt1 (halo_cells 256 256) \<and>
      run_kernel (kernel_256x256\<lparr>gen1 := nxt1\<rparr>)
        = Inr (kernel_256x256\<lparr>gen1 := T, sense := 1\<rparr>)) \<and>
   (62, 62) \<in> inner_cells 256 256 \<and> (62, 62) \<notin> halo_cells 256 256"
proof -
  have c: "(62, 62) \<in> inner_cells 256 256 \<and> (62, 62) \<notin> halo_cells 256 256"
    by (simp add: inner_cells_def halo_cells_def region_def inner_cols_def side_cols_def
        band_exit_def last_start_def)
  have e: "set_gen 1 p kernel_256x256 = kernel_256x256\<lparr>gen1 := p\<rparr>" for p
    by (simp add: set_gen_def)
  have f: "sense kernel_256x256 = 0" "tile_width kernel_256x256 = 256"
    "tile_height kernel_256x256 = 256" "coeff_a kernel_256x256 = 3 / 5"
    "coeff_b kernel_256x256 = 4 / 5" "gen kernel_256x256 0 = ones_planes 16384"
    "gen kernel_256x256 1 = zero_planes 16384"
    by (simp_all add: kernel_256x256_def gen_def)
  show ?thesis
    using kernel_iteration_full_step[OF kernel_256x256_ok] c kernel_256x256_ok
    by (auto simp: f e)
qed


end
